(* ===== verification/Prelude.thy ===== *)
theory Prelude
  imports Main "HOL-Library.AList" "HOL-Library.Word" "HOL-Library.Signed_Division"
begin

text \<open>
  Shared vocabulary of the development: the Go types the components exchange (byte slices,
  datastore keys, instants and durations, errors), 64-bit signed arithmetic with its
  wrap-around, a sort by an arbitrary comparison (the database's collation is not part of this
  repository), and the generic facts about association lists and chunked traversals that the
  component proofs use. The collections \<open>walrus_defs\<close> and \<open>walrus_simps\<close> gather definitions to
  unfold and rewrite rules.
\<close>

named_theorems walrus_defs
named_theorems walrus_simps

subsection \<open>Types of the program\<close>

text \<open>
  A Go \<open>[]byte\<close> and a Go \<open>string\<close> are both sequences of bytes; an Isabelle \<open>char\<close> is a byte.
  Instants are nanoseconds on some clock, durations are Go \<open>time.Duration\<close> nanoseconds.
\<close>

type_synonym bytes = string
type_synonym ds_key = string
type_synonym time = int
type_synonym duration = int

text \<open>
  Errors. \<open>ErrNotFound\<close> is go-datastore's sentinel and \<open>ErrBlobNotFound\<close> the client's own;
  \<open>Errorf\<close> is \<open>fmt.Errorf\<close>/\<open>errors.New\<close> with its format string and arguments kept apart,
  \<open>Wrapf\<close> the same with a \<open>%w\<close> operand, \<open>Joinf\<close> the batch error built by joining messages,
  \<open>Opaque\<close> an error value of another package (driver, network, context), \<open>PanicErr\<close> a run-time
  panic.
\<close>

datatype earg = AStr string | AInt int

datatype err =
    ErrNotFound
  | ErrBlobNotFound
  | Errorf string "earg list"
  | Wrapf string "earg list" err
  | Joinf string "err list"
  | Opaque string
  | PanicErr string

type_synonym 'a res = "err + 'a"

text \<open>\<open>errors.Is(err, target)\<close>: the error itself or an error it wraps with \<open>%w\<close>.\<close>

fun errors_Is :: "err \<Rightarrow> err \<Rightarrow> bool" where
  "errors_Is (Wrapf f as e) t = (Wrapf f as e = t \<or> errors_Is e t)"
| "errors_Is e t = (e = t)"

fun is_ok :: "'a res \<Rightarrow> bool" where
  "is_ok (Inr _) = True"
| "is_ok (Inl _) = False"

lemma is_ok_iff: "is_ok r \<longleftrightarrow> (\<exists>a. r = Inr a)"
  by (cases r) auto

subsection \<open>Signed 64-bit arithmetic\<close>

text \<open>\<open>wrap64\<close> is the value of an \<open>int64\<close> after an operation whose exact result is the argument.\<close>

definition wrap64 :: "int \<Rightarrow> int" where
  "wrap64 x = (x + 2 ^ 63) mod 2 ^ 64 - 2 ^ 63"

definition in_i64 :: "int \<Rightarrow> bool" where
  "in_i64 x \<longleftrightarrow> - (2 ^ 63) \<le> x \<and> x < 2 ^ 63"

lemma wrap64_id [simp]: "in_i64 x \<Longrightarrow> wrap64 x = x"
  by (simp add: wrap64_def in_i64_def)

lemma wrap64_in_i64 [simp]: "in_i64 (wrap64 x)"
proof -
  have "0 \<le> (x + 2 ^ 63) mod (2 ^ 64 :: int)" and "(x + 2 ^ 63) mod (2 ^ 64 :: int) < 2 ^ 64"
    by simp_all
  then show ?thesis
    unfolding in_i64_def wrap64_def by simp
qed

lemma wrap64_small:
  "- 9223372036854775808 \<le> x \<Longrightarrow> x < 9223372036854775808 \<Longrightarrow> wrap64 x = x"
  by (rule wrap64_id) (simp add: in_i64_def)

lemma wrap64_add: "wrap64 (wrap64 a + b) = wrap64 (a + b)"
proof -
  have "(a + 2 ^ 63) mod 2 ^ 64 + b = ((a + 2 ^ 63) mod 2 ^ 64 - 2 ^ 63 + b) + (2 ^ 63 :: int)"
    by simp
  then have "((a + 2 ^ 63) mod 2 ^ 64 - 2 ^ 63 + b + 2 ^ 63) mod (2 ^ 64 :: int)
      = ((a + 2 ^ 63) mod 2 ^ 64 + b) mod 2 ^ 64"
    by simp
  also have "\<dots> = (a + b + 2 ^ 63) mod 2 ^ 64"
    by (simp only: mod_add_left_eq) (simp add: ac_simps)
  finally show ?thesis
    by (simp only: wrap64_def)
qed

text \<open>Go's \<open>/\<close> and \<open>%\<close> truncate towards zero (\<open>sdiv\<close>, \<open>smod\<close>).\<close>

lemma sdiv_nonneg: "0 \<le> a \<Longrightarrow> 0 < b \<Longrightarrow> (a::int) sdiv b = a div b"
  by (cases "a = 0") (simp_all add: signed_divide_int_def)

lemma smod_nonneg: "0 \<le> a \<Longrightarrow> 0 < b \<Longrightarrow> (a::int) smod b = a mod b"
  by (cases "a = 0") (simp_all add: signed_modulo_int_def)

text \<open>\<open>int64(len(x))\<close>.\<close>

abbreviation len64 :: "'a list \<Rightarrow> int" where
  "len64 xs \<equiv> int (length xs)"

text \<open>The unsigned columns are stored as \<open>int64(x)\<close> and read back as \<open>uint64(x)\<close>.\<close>

definition int64_of_uint64 :: "64 word \<Rightarrow> int" where
  "int64_of_uint64 w = sint w"

definition uint64_of_int64 :: "int \<Rightarrow> 64 word" where
  "uint64_of_int64 i = word_of_int i"

lemma uint64_roundtrip [simp]: "uint64_of_int64 (int64_of_uint64 w) = w"
  by (simp add: uint64_of_int64_def int64_of_uint64_def)

subsection \<open>Sorting by a comparison\<close>

fun insert_by :: "('a \<Rightarrow> 'a \<Rightarrow> bool) \<Rightarrow> 'a \<Rightarrow> 'a list \<Rightarrow> 'a list" where
  "insert_by le x [] = [x]"
| "insert_by le x (y # ys) = (if le x y then x # y # ys else y # insert_by le x ys)"

fun sort_by :: "('a \<Rightarrow> 'a \<Rightarrow> bool) \<Rightarrow> 'a list \<Rightarrow> 'a list" where
  "sort_by le [] = []"
| "sort_by le (x # xs) = insert_by le x (sort_by le xs)"

definition total_preorder :: "('a \<Rightarrow> 'a \<Rightarrow> bool) \<Rightarrow> bool" where
  "total_preorder le \<longleftrightarrow>
     (\<forall>x y. le x y \<or> le y x) \<and> (\<forall>x y z. le x y \<longrightarrow> le y z \<longrightarrow> le x z)"

lemma set_insert_by [simp]: "set (insert_by le x xs) = insert x (set xs)"
  by (induction xs) auto

lemma set_sort_by [simp]: "set (sort_by le xs) = set xs"
  by (induction xs) auto

lemma length_insert_by [simp]: "length (insert_by le x xs) = Suc (length xs)"
  by (induction xs) auto

lemma length_sort_by [simp]: "length (sort_by le xs) = length xs"
  by (induction xs) auto

lemma sort_by_Nil_iff [simp]: "sort_by le xs = [] \<longleftrightarrow> xs = []"
  by (metis length_0_conv length_sort_by)

lemma distinct_insert_by [simp]: "distinct (insert_by le x xs) \<longleftrightarrow> x \<notin> set xs \<and> distinct xs"
  by (induction xs) auto

lemma distinct_sort_by [simp]: "distinct (sort_by le xs) = distinct xs"
  by (induction xs) auto

lemma distinct_map_insert_by [simp]:
  "distinct (map f (insert_by le x xs)) \<longleftrightarrow> f x \<notin> f ` set xs \<and> distinct (map f xs)"
  by (induction xs) auto

lemma distinct_map_sort_by [simp]: "distinct (map f (sort_by le xs)) = distinct (map f xs)"
  by (induction xs) auto

lemma sum_list_insert_by [simp]:
  "sum_list (map f (insert_by le x xs)) = f x + (sum_list (map f xs) :: 'b::comm_monoid_add)"
  by (induction xs) (auto simp: ac_simps)

lemma sum_list_sort_by [simp]:
  "sum_list (map f (sort_by le xs)) = (sum_list (map f xs) :: 'b::comm_monoid_add)"
  by (induction xs) auto

lemma sorted_insert_by:
  assumes "total_preorder le" and "sorted_wrt le xs"
  shows "sorted_wrt le (insert_by le x xs)"
  using assms(2)
proof (induction xs)
  case Nil
  then show ?case by simp
next
  case (Cons y ys)
  have total: "\<not> le x y \<Longrightarrow> le y x" and trans: "\<And>z. le x y \<Longrightarrow> le y z \<Longrightarrow> le x z"
    using assms(1) by (auto simp: total_preorder_def)
  show ?case
    using Cons total trans by auto
qed

lemma sorted_sort_by: "total_preorder le \<Longrightarrow> sorted_wrt le (sort_by le xs)"
  by (induction xs) (auto intro: sorted_insert_by)

subsection \<open>Association lists as tables with a primary key\<close>

definition keys_of :: "('k \<times> 'v) list \<Rightarrow> 'k list" where
  "keys_of t = map fst t"

lemma set_keys_of: "set (keys_of t) = dom (map_of t)"
  by (simp add: keys_of_def dom_map_of_conv_image_fst)

lemma map_of_filter_key: "map_of (filter (\<lambda>(k, v). P k) t) k = (if P k then map_of t k else None)"
  by (induction t) auto

lemma distinct_keys_filter: "distinct (keys_of t) \<Longrightarrow> distinct (keys_of (filter P t))"
  by (induction t) (auto simp: keys_of_def)

lemma map_of_map_val: "map_of (map (\<lambda>(k, v). (k, f k v)) t) k = map_option (f k) (map_of t k)"
  by (induction t) auto

lemma keys_of_map_val [simp]: "keys_of (map (\<lambda>(k, v). (k, f k v)) t) = keys_of t"
  by (induction t) (auto simp: keys_of_def)

lemma map_of_Some_iff:
  "distinct (keys_of t) \<Longrightarrow> map_of t k = Some v \<longleftrightarrow> (k, v) \<in> set t"
  by (simp add: keys_of_def)

lemma distinct_keys_update [simp]:
  "distinct (keys_of t) \<Longrightarrow> distinct (keys_of (AList.update k v t))"
  unfolding keys_of_def by (rule distinct_update)

lemma map_of_update_alist [simp]: "map_of (AList.update k v t) = (map_of t)(k \<mapsto> v)"
  by (simp add: update_conv')

lemma sum_list_filter_le:
  fixes f :: "'a \<Rightarrow> int"
  shows "(\<And>x. x \<in> set xs \<Longrightarrow> 0 \<le> f x) \<Longrightarrow>
    sum_list (map f (filter P xs)) \<le> sum_list (map f xs)"
proof (induction xs)
  case (Cons x xs)
  then have "0 \<le> f x" and "sum_list (map f (filter P xs)) \<le> sum_list (map f xs)"
    by auto
  then show ?case by simp
qed simp

lemma sum_list_len_nonneg [simp]: "0 \<le> (\<Sum>x\<leftarrow>xs. len64 (f x))"
  by (induction xs) auto

lemma len64_concat: "len64 (concat xs) = (\<Sum>x\<leftarrow>xs. len64 x)"
  by (induction xs) auto

end
