(* ===== verification/GoStd.thy ===== *)
theory GoStd
  imports Prelude "HOL-Library.Code_Target_Nat"
begin

text \<open>
  The parts of Go's standard library (release 1.22, the version \<open>src/go.mod\<close> names) that the program
  calls, on byte strings: \<open>strconv.Itoa\<close>, \<open>strings.TrimSpace\<close>, \<open>TrimRight\<close>, \<open>Split\<close> and \<open>Join\<close>,
  \<open>encoding/hex\<close>, the escaping and the query encoding of \<open>net/url\<close>, and the writer of
  \<open>mime/multipart\<close>. They carry no entry in the source map: the components that call them do.
\<close>

subsection \<open>strconv\<close>

definition digit :: "nat \<Rightarrow> char" where
  "digit n = char_of (48 + n)"

fun nat_digits :: "nat \<Rightarrow> string" where
  "nat_digits n = (if n < 10 then [digit n] else nat_digits (n div 10) @ [digit (n mod 10)])"

declare nat_digits.simps [simp del]

definition itoa :: "int \<Rightarrow> string" where
  "itoa i = (if i < 0 then CHR ''-'' # nat_digits (nat (- i)) else nat_digits (nat i))"

definition is_digit :: "char \<Rightarrow> bool" where
  "is_digit c \<longleftrightarrow> 48 \<le> (of_char c :: nat) \<and> (of_char c :: nat) \<le> 57"

definition digits_value :: "string \<Rightarrow> nat" where
  "digits_value s = foldl (\<lambda>n c. 10 * n + (of_char c - 48)) 0 s"

lemma of_char_digit: "n < 10 \<Longrightarrow> (of_char (digit n) :: nat) = 48 + n"
  by (simp add: digit_def)

lemma nat_digits_value: "digits_value (nat_digits n) = n"
proof (induction n rule: nat_digits.induct)
  case (1 n)
  then show ?case
    by (subst nat_digits.simps) (auto simp: digits_value_def of_char_digit)
qed

lemma nat_digits_all: "c \<in> set (nat_digits n) \<Longrightarrow> is_digit c"
proof (induction n rule: nat_digits.induct)
  case (1 n)
  have d: "is_digit (digit m)" if "m < 10" for m
    using that by (simp add: is_digit_def of_char_digit)
  from 1 show ?case
    by (subst (asm) (2) nat_digits.simps) (auto simp: d split: if_splits)
qed

lemma nat_digits_nonempty [simp]: "nat_digits n \<noteq> []"
  by (subst nat_digits.simps) simp

lemma nat_digits_inj [simp]: "nat_digits m = nat_digits n \<longleftrightarrow> m = n"
  by (metis nat_digits_value)

lemma not_digit_minus: "\<not> is_digit (CHR ''-'')"
  by (simp add: is_digit_def)

lemma itoa_of_nat [simp]: "itoa (int n) = nat_digits n"
  by (simp add: itoa_def)

lemma itoa_inj [simp]: "itoa i = itoa j \<longleftrightarrow> i = j"
proof -
  have no: "CHR ''-'' # xs \<noteq> nat_digits n" for xs n
    using nat_digits_all [of "CHR ''-''" n] not_digit_minus by (metis list.set_intros(1))
  show ?thesis
    using no no [symmetric] by (auto simp: itoa_def)
qed

subsection \<open>strings\<close>

text \<open>
  The UTF-8 encodings of the runes \<open>unicode.IsSpace\<close> accepts. A byte string starts (ends) with such a
  rune exactly when it starts (ends) with its encoding.
\<close>

definition space_runes :: "string list" where
  "space_runes = map (map char_of :: nat list \<Rightarrow> string)
     [[9], [10], [11], [12], [13], [32], [194, 133], [194, 160], [225, 154, 128],
      [226, 128, 128], [226, 128, 129], [226, 128, 130], [226, 128, 131], [226, 128, 132],
      [226, 128, 133], [226, 128, 134], [226, 128, 135], [226, 128, 136], [226, 128, 137],
      [226, 128, 138], [226, 128, 168], [226, 128, 169], [226, 128, 175], [226, 129, 159],
      [227, 128, 128]]"

definition starts_with :: "'a list \<Rightarrow> 'a list \<Rightarrow> bool" where
  "starts_with p s \<longleftrightarrow> take (length p) s = p"

lemma space_runes_nonempty [simp]: "p \<in> set space_runes \<Longrightarrow> 0 < length p"
  by (auto simp: space_runes_def)

function trim_front :: "string list \<Rightarrow> string \<Rightarrow> string" where
  "trim_front ps s =
     (case find (\<lambda>p. p \<noteq> [] \<and> starts_with p s) ps of
        None \<Rightarrow> s
      | Some p \<Rightarrow> trim_front ps (drop (length p) s))"
  by pat_completeness auto
termination
proof (relation "measure (\<lambda>(ps, s). length s)", goal_cases)
  case (2 ps s p)
  then have "p \<noteq> []" "starts_with p s" by (auto simp: find_Some_iff)
  then show ?case by (cases s) (auto simp: starts_with_def)
qed simp

declare trim_front.simps [simp del]

definition TrimSpace :: "string \<Rightarrow> string" where
  "TrimSpace s = rev (trim_front (map rev space_runes) (rev (trim_front space_runes s)))"

definition TrimRight :: "char \<Rightarrow> string \<Rightarrow> string" where
  "TrimRight c s = rev (dropWhile (\<lambda>x. x = c) (rev s))"

lemma TrimRight_last: "TrimRight c s \<noteq> [] \<Longrightarrow> last (TrimRight c s) \<noteq> c"
  using hd_dropWhile [of "\<lambda>x. x = c" "rev s"]
  by (simp add: TrimRight_def last_rev del: dropWhile_eq_Nil_conv)

lemma trim_front_none:
  "ps' = ps \<Longrightarrow> p \<in> set ps \<Longrightarrow> p \<noteq> [] \<Longrightarrow> \<not> starts_with p (trim_front ps' s)"
proof (induction ps' s rule: trim_front.induct)
  case (1 ps' s)
  show ?case
  proof (cases "find (\<lambda>p. p \<noteq> [] \<and> starts_with p s) ps'")
    case None
    then have "trim_front ps' s = s" by (simp add: trim_front.simps)
    then show ?thesis using None 1 by (auto simp: find_None_iff)
  next
    case (Some q)
    then show ?thesis using 1 by (subst trim_front.simps) simp
  qed
qed

text \<open>\<open>strings.Split(s, sep)\<close> for a one-byte separator, and \<open>strings.Join\<close>.\<close>

fun split_at :: "char \<Rightarrow> string \<Rightarrow> string list" where
  "split_at c [] = [[]]"
| "split_at c (x # xs) =
     (if x = c then [] # split_at c xs
      else (case split_at c xs of [] \<Rightarrow> [[x]] | p # ps \<Rightarrow> (x # p) # ps))"

fun join_with :: "string \<Rightarrow> string list \<Rightarrow> string" where
  "join_with sep [] = []"
| "join_with sep [s] = s"
| "join_with sep (s # t # ss) = s @ sep @ join_with sep (t # ss)"

lemma split_at_nonempty [simp]: "split_at c s \<noteq> []"
  by (cases s) (auto split: list.split)

lemma split_at_no_sep: "p \<in> set (split_at c s) \<Longrightarrow> c \<notin> set p"
proof (induction s arbitrary: p)
  case (Cons x xs)
  then show ?case by (cases "split_at c xs") (auto split: if_splits)
qed simp

lemma join_split: "join_with [c] (split_at c s) = s"
proof (induction s)
  case (Cons x xs)
  obtain p ps where "split_at c xs = p # ps" by (metis split_at_nonempty neq_Nil_conv)
  then show ?case using Cons by (cases ps) auto
qed simp

lemma split_at_append:
  "c \<notin> set p \<Longrightarrow> split_at c (p @ c # s) = p # split_at c s"
  by (induction p) auto

lemma split_at_none: "c \<notin> set p \<Longrightarrow> split_at c p = [p]"
  by (induction p) auto

lemma split_join:
  "ps \<noteq> [] \<Longrightarrow> \<forall>p\<in>set ps. c \<notin> set p \<Longrightarrow> split_at c (join_with [c] ps) = ps"
  by (induction "[c]" ps rule: join_with.induct) (auto simp: split_at_append split_at_none)

subsection \<open>encoding/hex and net/url\<close>

definition hex_lower :: "nat \<Rightarrow> char" where
  "hex_lower n = (if n < 10 then digit n else char_of (87 + n))"

definition hex_upper :: "nat \<Rightarrow> char" where
  "hex_upper n = (if n < 10 then digit n else char_of (55 + n))"

definition hex_EncodeToString :: "bytes \<Rightarrow> string" where
  "hex_EncodeToString bs =
     concat (map (\<lambda>c. [hex_lower (of_char c div 16), hex_lower (of_char c mod 16)]) bs)"

definition is_alnum :: "char \<Rightarrow> bool" where
  "is_alnum c \<longleftrightarrow> is_digit c \<or> (65 \<le> (of_char c :: nat) \<and> (of_char c :: nat) \<le> 90)
     \<or> (97 \<le> (of_char c :: nat) \<and> (of_char c :: nat) \<le> 122)"

definition url_unreserved :: "char \<Rightarrow> bool" where
  "url_unreserved c \<longleftrightarrow> is_alnum c \<or> c \<in> set ''-_.~''"

definition pct :: "char \<Rightarrow> string" where
  "pct c = [CHR ''%'', hex_upper (of_char c div 16), hex_upper (of_char c mod 16)]"

definition QueryEscape :: "string \<Rightarrow> string" where
  "QueryEscape s = concat (map (\<lambda>c. if url_unreserved c then [c]
     else if c = CHR '' '' then ''+'' else pct c) s)"

definition PathEscape :: "string \<Rightarrow> string" where
  "PathEscape s = concat (map (\<lambda>c. if url_unreserved c \<or> c \<in> set ''$&+:=@'' then [c] else pct c) s)"

text \<open>\<open>url.Values\<close> restricted to single values, and its encoding in key order.\<close>

type_synonym url_Values = "(string \<times> string) list"

definition Values_Set :: "string \<Rightarrow> string \<Rightarrow> url_Values \<Rightarrow> url_Values" where
  "Values_Set k v q = AList.update k v q"

fun bytes_le :: "string \<Rightarrow> string \<Rightarrow> bool" where
  "bytes_le [] _ = True"
| "bytes_le (_ # _) [] = False"
| "bytes_le (x # xs) (y # ys) =
     ((of_char x :: nat) < of_char y \<or> (x = y \<and> bytes_le xs ys))"

definition Values_Encode :: "url_Values \<Rightarrow> string" where
  "Values_Encode q = join_with ''&''
     (map (\<lambda>(k, v). QueryEscape k @ ''='' @ QueryEscape v) (sort_by (\<lambda>a b. bytes_le (fst a) (fst b)) q))"

lemma hex_lower_alnum: "n < 16 \<Longrightarrow> is_alnum (hex_lower n)"
  by (simp add: hex_lower_def is_alnum_def is_digit_def of_char_digit)

lemma hex_encode_alnum: "c \<in> set (hex_EncodeToString bs) \<Longrightarrow> is_alnum c"
proof -
  have "(of_char x :: nat) div 16 < 16" for x :: char
    using nat_of_char_less_256 [of x] by (simp add: less_mult_imp_div_less)
  then show "c \<in> set (hex_EncodeToString bs) \<Longrightarrow> is_alnum c"
    by (auto simp: hex_EncodeToString_def intro: hex_lower_alnum)
qed

lemma length_hex_encode [simp]: "length (hex_EncodeToString bs) = 2 * length bs"
  by (induction bs) (auto simp: hex_EncodeToString_def)

text \<open>Path escaping never yields a slash and is injective: distinct ids have distinct URLs.\<close>

definition path_code :: "char \<Rightarrow> string" where
  "path_code c = (if url_unreserved c \<or> c \<in> set ''$&+:=@'' then [c] else pct c)"

lemma PathEscape_Cons: "PathEscape (c # s) = path_code c @ PathEscape s"
  by (simp add: PathEscape_def path_code_def)

lemma nat_of_digit: "n < 16 \<Longrightarrow> (of_char (hex_upper n) :: nat) = (if n < 10 then 48 + n else 55 + n)"
  by (simp add: hex_upper_def of_char_digit)

lemma hex_upper_inj: "m < 16 \<Longrightarrow> n < 16 \<Longrightarrow> hex_upper m = hex_upper n \<Longrightarrow> m = n"
proof -
  assume m: "m < 16" and n: "n < 16" and eq: "hex_upper m = hex_upper n"
  have "(if m < 10 then 48 + m else 55 + m) = (if n < 10 then 48 + n else 55 + n)"
    using nat_of_digit [OF m] nat_of_digit [OF n] unfolding eq by (rule subst)
  then show "m = n" using m n by presburger
qed

lemma byte_nibbles: "(of_char c :: nat) div 16 < 16" "(of_char c :: nat) mod 16 < 16" for c :: char
  using nat_of_char_less_256 [of c] by (auto simp: less_mult_imp_div_less)

lemma pct_inj: "pct c = pct d \<Longrightarrow> c = d"
proof -
  assume "pct c = pct d"
  then have "(of_char c :: nat) div 16 = of_char d div 16" "(of_char c :: nat) mod 16 = of_char d mod 16"
    unfolding pct_def
    using hex_upper_inj [OF byte_nibbles(1) [of c] byte_nibbles(1) [of d]]
      hex_upper_inj [OF byte_nibbles(2) [of c] byte_nibbles(2) [of d]] by blast+
  then have "(of_char c :: nat) = of_char d"
    using div_mult_mod_eq [of "of_char c :: nat" 16] div_mult_mod_eq [of "of_char d :: nat" 16] by metis
  then show ?thesis by (simp only: of_char_eq_iff)
qed

lemma unreserved_not_pct: "url_unreserved c \<or> c \<in> set ''$&+:=@'' \<Longrightarrow> c \<noteq> CHR ''%''"
  by (auto simp: url_unreserved_def is_alnum_def is_digit_def)

lemma path_code_prefix_free:
  "path_code c @ x = path_code d @ y \<Longrightarrow> c = d \<and> x = y"
proof -
  assume eq: "path_code c @ x = path_code d @ y"
  show ?thesis
  proof (cases "url_unreserved c \<or> c \<in> set ''$&+:=@''")
    case True
    then show ?thesis
      using eq unreserved_not_pct [of c] by (auto simp: path_code_def pct_def split: if_splits)
  next
    case c: False
    show ?thesis
    proof (cases "url_unreserved d \<or> d \<in> set ''$&+:=@''")
      case True
      then show ?thesis
        using eq c unreserved_not_pct [of d] by (auto simp: path_code_def pct_def split: if_splits)
    next
      case False
      then have "pct c @ x = pct d @ y" using eq c by (simp add: path_code_def)
      then have "pct c = pct d \<and> x = y" by (simp add: pct_def)
      then show ?thesis using pct_inj by blast
    qed
  qed
qed

lemma path_code_nonempty [simp]: "path_code c \<noteq> []"
  by (simp add: path_code_def pct_def)

lemma PathEscape_inj [simp]: "PathEscape s = PathEscape t \<longleftrightarrow> s = t"
proof -
  have "PathEscape s = PathEscape t \<Longrightarrow> s = t"
  proof (induction s arbitrary: t)
    case Nil
    then show ?case by (cases t) (simp_all add: PathEscape_Cons, simp add: PathEscape_def)
  next
    case (Cons c s)
    then show ?case
    proof (cases t)
      case Nil
      then show ?thesis using Cons.prems by (simp add: PathEscape_Cons) (simp add: PathEscape_def)
    next
      case (Cons d u)
      with Cons.prems have "path_code c @ PathEscape s = path_code d @ PathEscape u"
        by (simp add: PathEscape_Cons)
      from path_code_prefix_free [OF this] show ?thesis using Cons.IH Cons by simp
    qed
  qed
  then show ?thesis by blast
qed

lemma PathEscape_no_slash: "CHR ''/'' \<notin> set (PathEscape s)"
proof -
  have h: "hex_upper n \<noteq> CHR ''/''" if "n < 16" for n
  proof
    assume "hex_upper n = CHR ''/''"
    then have "(of_char (hex_upper n) :: nat) = 47" by simp
    then show False using nat_of_digit [OF that] by (auto split: if_splits)
  qed
  have "CHR ''/'' \<notin> set (path_code c)" for c
    using h [of "of_char c div 16"] h [of "of_char c mod 16"] byte_nibbles [of c]
    by (auto simp: path_code_def pct_def url_unreserved_def is_alnum_def is_digit_def)
  then show ?thesis by (induction s) (auto simp: PathEscape_Cons, simp add: PathEscape_def)
qed

subsection \<open>mime/multipart\<close>

text \<open>\<open>CR LF\<close> and the double quote, which ASCII literals cannot show.\<close>

definition CRLF :: string where
  "CRLF = [CHR 0x0D, CHR 0x0A]"

definition QUOTE :: string where
  "QUOTE = [CHR 0x22]"

definition BACKSLASH :: char where
  "BACKSLASH = CHR 0x5C"

text \<open>\<open>Writer.SetBoundary\<close>: the RFC 2046 checks.\<close>

definition boundary_char :: "char \<Rightarrow> bool" where
  "boundary_char c \<longleftrightarrow> is_alnum c \<or> c = CHR 0x27 \<or> c \<in> set ''()+_,-./:=?''"

definition SetBoundary :: "string \<Rightarrow> string res" where
  "SetBoundary b =
     (if length b < 1 \<or> length b > 70 then Inl (Errorf ''mime: invalid boundary length'' [])
      else if (\<forall>c\<in>set (butlast b). boundary_char c \<or> c = CHR '' '') \<and> boundary_char (last b)
      then Inr b
      else Inl (Errorf ''mime: invalid boundary character'' []))"

definition escapeQuotes :: "string \<Rightarrow> string" where
  "escapeQuotes s = concat (map (\<lambda>c. if c = BACKSLASH \<or> [c] = QUOTE then [BACKSLASH, c] else [c]) s)"

text \<open>
  \<open>Writer.CreatePart\<close>: the dash-boundary line, preceded by a line break unless it is the first part,
  then the header in key order and an empty line.
\<close>

definition CreatePart :: "string \<Rightarrow> bool \<Rightarrow> (string \<times> string) list \<Rightarrow> bytes" where
  "CreatePart boundary isFirst header =
     (if isFirst then [] else CRLF) @ ''--'' @ boundary @ CRLF
     @ concat (map (\<lambda>(k, v). k @ '': '' @ v @ CRLF) (sort_by (\<lambda>a b. bytes_le (fst a) (fst b)) header))
     @ CRLF"

definition CreateFormFile :: "string \<Rightarrow> bool \<Rightarrow> string \<Rightarrow> string \<Rightarrow> bytes" where
  "CreateFormFile boundary isFirst fieldname filename =
     CreatePart boundary isFirst
       [(''Content-Disposition'',
         ''form-data; name='' @ QUOTE @ escapeQuotes fieldname @ QUOTE
         @ ''; filename='' @ QUOTE @ escapeQuotes filename @ QUOTE),
        (''Content-Type'', ''application/octet-stream'')]"

definition multipart_Close :: "string \<Rightarrow> bytes" where
  "multipart_Close boundary = CRLF @ ''--'' @ boundary @ ''--'' @ CRLF"

lemma SetBoundary_alnum:
  assumes "1 \<le> length b" "length b \<le> 70" "\<forall>c\<in>set b. is_alnum c"
  shows "SetBoundary b = Inr b"
proof -
  have "b \<noteq> []" using assms(1) by auto
  then show ?thesis
    using assms by (auto simp: SetBoundary_def boundary_char_def dest: in_set_butlastD)
qed

lemma length_escapeQuotes: "length s \<le> length (escapeQuotes s)"
  by (induction s) (auto simp: escapeQuotes_def)

lemma escapeQuotes_id_iff:
  "length (escapeQuotes s) = length s \<longleftrightarrow> (\<forall>c\<in>set s. c \<noteq> BACKSLASH \<and> [c] \<noteq> QUOTE)"
proof (induction s)
  case (Cons c s)
  then show ?case
    using length_escapeQuotes [of s] by (auto simp: escapeQuotes_def)
qed (simp add: escapeQuotes_def)

lemma digits_need_no_escape: "c \<in> set (nat_digits n) \<Longrightarrow> c \<noteq> BACKSLASH \<and> [c] \<noteq> QUOTE"
  using nat_digits_all [of c n] by (auto simp: is_digit_def BACKSLASH_def QUOTE_def)

end
