(* ===== verification/Json.thy ===== *)
theory Json
  imports GoStd
begin

text \<open>
  The part of Go's \<open>encoding/json\<close> the client uses: \<open>NewDecoder(r).Decode(&v)\<close>. The first JSON value
  of the input is scanned (what follows it is ignored), string literals are unquoted with Go's repair
  of malformed UTF-8, and the value is stored into a Go struct by a list of field decoders: names match
  up to case, unknown fields are skipped, \<open>null\<close> leaves a field as it is (or clears a pointer), a later
  duplicate is stored over the earlier one, and a value of the wrong kind or an integer out of range
  fails the call. The scanner recurses on explicit fuel; \<open>parse_fuel_enough\<close> shows that the length of
  the input is enough. The texts of the errors are not modelled.
\<close>

datatype json =
    JNull
  | JBool bool
  | JNum string
  | JStr string
  | JArr "json list"
  | JObj "(string \<times> json) list"

subsection \<open>Lexical level\<close>

definition is_ws :: "char \<Rightarrow> bool" where
  "is_ws c \<longleftrightarrow> c \<in> {CHR 0x20, CHR 0x09, CHR 0x0A, CHR 0x0D}"

definition skip_ws :: "string \<Rightarrow> string" where
  "skip_ws = dropWhile is_ws"

definition hex_value :: "char \<Rightarrow> nat option" where
  "hex_value c =
     (let n = of_char c :: nat
      in if 48 \<le> n \<and> n \<le> 57 then Some (n - 48)
         else if 97 \<le> n \<and> n \<le> 102 then Some (n - 87)
         else if 65 \<le> n \<and> n \<le> 70 then Some (n - 55)
         else None)"

text \<open>A string literal after its opening quote: the raw text up to the closing quote, and the rest.\<close>

fun lex_string :: "string \<Rightarrow> (string \<times> string) option" where
  "lex_string [] = None"
| "lex_string (c # cs) =
     (if c = CHR 0x22 then Some ([], cs)
      else if c = CHR 0x5C then
        (case cs of
           [] \<Rightarrow> None
         | e # cs' \<Rightarrow>
             if e = CHR ''u'' then
               (case cs' of
                  a # b # x # y # cs'' \<Rightarrow>
                    if hex_value a = None \<or> hex_value b = None \<or> hex_value x = None \<or> hex_value y = None
                    then None
                    else map_option (\<lambda>(raw, rest). (c # e # a # b # x # y # raw, rest)) (lex_string cs'')
                | _ \<Rightarrow> None)
             else if e \<in> set ''bfnrt/'' \<or> e = CHR 0x5C \<or> e = CHR 0x22
             then map_option (\<lambda>(raw, rest). (c # e # raw, rest)) (lex_string cs')
             else None)
      else if (of_char c :: nat) < 32 then None
      else map_option (\<lambda>(raw, rest). (c # raw, rest)) (lex_string cs))"

definition cont_byte :: "nat \<Rightarrow> bool" where
  "cont_byte n \<longleftrightarrow> 128 \<le> n \<and> n \<le> 191"

text \<open>The length of a well-formed UTF-8 sequence at the front, 0 when there is none.\<close>

fun rune_len :: "nat list \<Rightarrow> nat" where
  "rune_len [] = 0"
| "rune_len (a # xs) =
     (if a < 128 then 1
      else if 194 \<le> a \<and> a \<le> 223 then (case xs of b # _ \<Rightarrow> if cont_byte b then 2 else 0 | _ \<Rightarrow> 0)
      else if 224 \<le> a \<and> a \<le> 239 then
        (case xs of
           b # d # _ \<Rightarrow>
             if cont_byte b \<and> cont_byte d \<and> (a = 224 \<longrightarrow> 160 \<le> b) \<and> (a = 237 \<longrightarrow> b \<le> 159) then 3 else 0
         | _ \<Rightarrow> 0)
      else if 240 \<le> a \<and> a \<le> 244 then
        (case xs of
           b # d # e # _ \<Rightarrow>
             if cont_byte b \<and> cont_byte d \<and> cont_byte e \<and> (a = 240 \<longrightarrow> 144 \<le> b) \<and> (a = 244 \<longrightarrow> b \<le> 143)
             then 4 else 0
         | _ \<Rightarrow> 0)
      else 0)"

definition rune_bytes :: "nat \<Rightarrow> string" where
  "rune_bytes r = map char_of
     (if r < 128 then [r]
      else if r < 2048 then [192 + r div 64, 128 + r mod 64]
      else if r < 65536 then [224 + r div 4096, 128 + (r div 64) mod 64, 128 + r mod 64]
      else [240 + r div 262144, 128 + (r div 4096) mod 64, 128 + (r div 64) mod 64, 128 + r mod 64])"

definition rune_error :: string where
  "rune_error = rune_bytes 65533"

definition u4 :: "string \<Rightarrow> nat option" where
  "u4 s = (case s of
     a # b # x # y # _ \<Rightarrow>
       (case (hex_value a, hex_value b, hex_value x, hex_value y) of
          (Some a', Some b', Some x', Some y') \<Rightarrow> Some (((a' * 16 + b') * 16 + x') * 16 + y')
        | _ \<Rightarrow> None)
   | _ \<Rightarrow> None)"

text \<open>The escape \<open>\u\<close> with its four digits \<open>r\<close>, given the text after them: the rune and how much more
  it takes (six bytes when a second half of a surrogate pair follows).\<close>

definition u_escape :: "nat \<Rightarrow> string \<Rightarrow> string \<times> nat" where
  "u_escape r after =
     (if 55296 \<le> r \<and> r \<le> 57343 then
        (case after of
           c # u # more \<Rightarrow>
             (case u4 more of
                Some r2 \<Rightarrow>
                  if c = CHR 0x5C \<and> u = CHR ''u'' \<and> r \<le> 56319 \<and> 56320 \<le> r2 \<and> r2 \<le> 57343
                  then (rune_bytes (65536 + (r - 55296) * 1024 + (r2 - 56320)), 6)
                  else (rune_error, 0)
              | None \<Rightarrow> (rune_error, 0))
         | _ \<Rightarrow> (rune_error, 0))
      else (rune_bytes r, 0))"

definition simple_escape :: "char \<Rightarrow> char" where
  "simple_escape e =
     (if e = CHR ''b'' then CHR 0x08 else if e = CHR ''f'' then CHR 0x0C
      else if e = CHR ''n'' then CHR 0x0A else if e = CHR ''r'' then CHR 0x0D
      else if e = CHR ''t'' then CHR 0x09 else e)"

function unquote :: "string \<Rightarrow> string" where
  "unquote [] = []"
| "unquote (c # cs) =
     (if c = CHR 0x5C then
        (case cs of
           [] \<Rightarrow> []
         | e # cs' \<Rightarrow>
             if e = CHR ''u'' then
               (case u4 cs' of
                  None \<Rightarrow> []
                | Some r \<Rightarrow>
                    (let (out, more) = u_escape r (drop 4 cs') in out @ unquote (drop (4 + more) cs')))
             else simple_escape e # unquote cs')
      else (let n = rune_len (map of_char (c # cs))
            in if n = 0 then rune_error @ unquote cs
               else take n (c # cs) @ unquote (drop (n - 1) cs)))"
  by pat_completeness auto
termination
  by (relation "measure length") auto

declare unquote.simps [simp del]

definition lex_exponent :: "string \<Rightarrow> (string \<times> string) option" where
  "lex_exponent s =
     (case s of
        e # s' \<Rightarrow>
          if e = CHR ''e'' \<or> e = CHR ''E'' then
            (let (sign, t) = (case s' of x # t \<Rightarrow> if x \<in> set ''+-'' then ([x], t) else ([], s') | [] \<Rightarrow> ([], []));
                 ds = takeWhile is_digit t
             in if ds = [] then None else Some (e # sign @ ds, dropWhile is_digit t))
          else Some ([], s)
      | [] \<Rightarrow> Some ([], []))"

definition lex_fraction :: "string \<Rightarrow> (string \<times> string) option" where
  "lex_fraction s =
     (case s of
        d # s' \<Rightarrow>
          if d = CHR ''.'' then
            (let ds = takeWhile is_digit s'
             in if ds = [] then None else Some (d # ds, dropWhile is_digit s'))
          else Some ([], s)
      | [] \<Rightarrow> Some ([], []))"

definition lex_sign :: "string \<Rightarrow> string \<times> string" where
  "lex_sign s = (case s of x # t \<Rightarrow> if x = CHR ''-'' then ([x], t) else ([], s) | [] \<Rightarrow> ([], []))"

definition lex_int :: "string \<Rightarrow> string" where
  "lex_int t = (case t of x # _ \<Rightarrow> if x = CHR ''0'' then [x] else takeWhile is_digit t | [] \<Rightarrow> [])"

definition lex_number :: "string \<Rightarrow> (string \<times> string) option" where
  "lex_number s =
     (let sign = fst (lex_sign s); t = snd (lex_sign s); ds = lex_int t
      in if ds = [] then None
         else (case lex_fraction (drop (length ds) t) of
                 None \<Rightarrow> None
               | Some (fr, t') \<Rightarrow>
                   (case lex_exponent t' of
                      None \<Rightarrow> None
                    | Some (ex, t'') \<Rightarrow> Some (sign @ ds @ fr @ ex, t''))))"

subsection \<open>Values\<close>

text \<open>
  \<open>parse_value fuel depth s\<close> scans one value at the front of \<open>s\<close>; \<open>depth\<close> counts the nesting still
  allowed (the scanner gives up beyond 10000). \<open>parse_elems\<close> and \<open>parse_members\<close> scan the inside of a
  non-empty array or object.
\<close>

fun parse_value :: "nat \<Rightarrow> int \<Rightarrow> string \<Rightarrow> (json \<times> string) option"
  and parse_elems :: "nat \<Rightarrow> int \<Rightarrow> string \<Rightarrow> (json list \<times> string) option"
  and parse_members :: "nat \<Rightarrow> int \<Rightarrow> string \<Rightarrow> ((string \<times> json) list \<times> string) option" where
  "parse_value 0 depth s = None"
| "parse_value (Suc f) depth s =
     (case skip_ws s of
        [] \<Rightarrow> None
      | c # t \<Rightarrow>
          if c = CHR 0x22 then map_option (\<lambda>(raw, rest). (JStr (unquote raw), rest)) (lex_string t)
          else if c = CHR ''{'' then
            (if depth \<le> 0 then None
             else (case skip_ws t of
                     [] \<Rightarrow> None
                   | x # t' \<Rightarrow> if x = CHR ''}'' then Some (JObj [], t')
                               else map_option (\<lambda>(ms, rest). (JObj ms, rest))
                                      (parse_members f (depth - 1) (x # t'))))
          else if c = CHR ''['' then
            (if depth \<le> 0 then None
             else (case skip_ws t of
                     [] \<Rightarrow> None
                   | x # t' \<Rightarrow> if x = CHR '']'' then Some (JArr [], t')
                               else map_option (\<lambda>(vs, rest). (JArr vs, rest))
                                      (parse_elems f (depth - 1) (x # t'))))
          else if starts_with ''null'' (c # t) then Some (JNull, drop 4 (c # t))
          else if starts_with ''true'' (c # t) then Some (JBool True, drop 4 (c # t))
          else if starts_with ''false'' (c # t) then Some (JBool False, drop 5 (c # t))
          else map_option (\<lambda>(txt, rest). (JNum txt, rest)) (lex_number (c # t)))"
| "parse_elems 0 depth s = None"
| "parse_elems (Suc f) depth s =
     (case parse_value f depth s of
        None \<Rightarrow> None
      | Some (v, rest) \<Rightarrow>
          (case skip_ws rest of
             [] \<Rightarrow> None
           | c # t \<Rightarrow>
               if c = CHR '']'' then Some ([v], t)
               else if c = CHR '','' then map_option (\<lambda>(vs, r). (v # vs, r)) (parse_elems f depth t)
               else None))"
| "parse_members 0 depth s = None"
| "parse_members (Suc f) depth s =
     (case skip_ws s of
        [] \<Rightarrow> None
      | c # t \<Rightarrow>
          if c \<noteq> CHR 0x22 then None
          else (case lex_string t of
                  None \<Rightarrow> None
                | Some (raw, rest) \<Rightarrow>
                    (case skip_ws rest of
                       [] \<Rightarrow> None
                     | x # t' \<Rightarrow>
                         if x \<noteq> CHR '':'' then None
                         else (case parse_value f depth t' of
                                 None \<Rightarrow> None
                               | Some (v, rest') \<Rightarrow>
                                   (case skip_ws rest' of
                                      [] \<Rightarrow> None
                                    | y # t'' \<Rightarrow>
                                        if y = CHR ''}'' then Some ([(unquote raw, v)], t'')
                                        else if y = CHR '','' then
                                          map_option (\<lambda>(ms, r). ((unquote raw, v) # ms, r))
                                            (parse_members f depth t'')
                                        else None)))))"

text \<open>\<open>Decoder.Decode\<close> up to the value: enough fuel for the whole input.\<close>

definition parse_first :: "string \<Rightarrow> json option" where
  "parse_first s = map_option fst (parse_value (Suc (2 * length s)) 10000 s)"

subsection \<open>Storing into Go values\<close>

text \<open>A decoder takes the value a Go variable holds and the JSON value, and gives the new value.\<close>

type_synonym 'a decoder = "'a \<Rightarrow> json \<Rightarrow> 'a option"

definition dec_string :: "string decoder" where
  "dec_string old j = (case j of JNull \<Rightarrow> Some old | JStr s \<Rightarrow> Some s | _ \<Rightarrow> None)"

definition ParseUint :: "string \<Rightarrow> nat option" where
  "ParseUint s = (if s \<noteq> [] \<and> list_all is_digit s then Some (digits_value s) else None)"

definition dec_int64 :: "int decoder" where
  "dec_int64 old j =
     (case j of
        JNull \<Rightarrow> Some old
      | JNum t \<Rightarrow>
          (case ParseUint (snd (lex_sign t)) of
             None \<Rightarrow> None
           | Some n \<Rightarrow> (let i = (if fst (lex_sign t) = [] then int n else - int n)
                        in if in_i64 i then Some i else None))
      | _ \<Rightarrow> None)"

definition dec_uint64 :: "64 word decoder" where
  "dec_uint64 old j =
     (case j of
        JNull \<Rightarrow> Some old
      | JNum t \<Rightarrow> (case ParseUint t of
                     None \<Rightarrow> None
                   | Some n \<Rightarrow> if n < 2 ^ 64 then Some (word_of_nat n) else None)
      | _ \<Rightarrow> None)"

definition dec_ptr :: "'a \<Rightarrow> 'a decoder \<Rightarrow> 'a option decoder" where
  "dec_ptr zero dec old j =
     (case j of
        JNull \<Rightarrow> Some None
      | _ \<Rightarrow> map_option Some (dec (case old of None \<Rightarrow> zero | Some x \<Rightarrow> x) j))"

fun dec_elems :: "'a \<Rightarrow> 'a decoder \<Rightarrow> 'a list \<Rightarrow> json list \<Rightarrow> 'a list option" where
  "dec_elems zero dec old [] = Some []"
| "dec_elems zero dec old (j # js) =
     (case dec (case old of [] \<Rightarrow> zero | x # _ \<Rightarrow> x) j of
        None \<Rightarrow> None
      | Some v \<Rightarrow> map_option (\<lambda>vs. v # vs) (dec_elems zero dec (tl old) js))"

definition dec_slice :: "'a \<Rightarrow> 'a decoder \<Rightarrow> 'a list decoder" where
  "dec_slice zero dec old j =
     (case j of JNull \<Rightarrow> Some [] | JArr js \<Rightarrow> dec_elems zero dec old js | _ \<Rightarrow> None)"

text \<open>
  Field names match when their foldings agree. Against the ASCII names of the program's structs that
  is: ASCII letters up to case, the long s (U+017F) as \<open>S\<close> and the Kelvin sign (U+212A) as \<open>K\<close>.
\<close>

definition ascii_upper :: "char \<Rightarrow> char" where
  "ascii_upper c = (if 97 \<le> (of_char c :: nat) \<and> (of_char c :: nat) \<le> 122 then char_of (of_char c - 32 :: nat) else c)"

function fold_name :: "string \<Rightarrow> string" where
  "fold_name [] = []"
| "fold_name (c # cs) =
     (if starts_with (map char_of [197, 191 :: nat]) (c # cs) then CHR ''S'' # fold_name (drop 1 cs)
      else if starts_with (map char_of [226, 132, 170 :: nat]) (c # cs) then CHR ''K'' # fold_name (drop 2 cs)
      else ascii_upper c # fold_name cs)"
  by pat_completeness auto
termination
  by (relation "measure length") auto

declare fold_name.simps [simp del]

type_synonym 'a fields = "(string \<times> 'a decoder) list"

definition field_for :: "'a fields \<Rightarrow> string \<Rightarrow> 'a decoder option" where
  "field_for fs k = map_option snd (find (\<lambda>(n, d). fold_name n = fold_name k) fs)"

fun dec_members :: "'a fields \<Rightarrow> 'a \<Rightarrow> (string \<times> json) list \<Rightarrow> 'a option" where
  "dec_members fs old [] = Some old"
| "dec_members fs old ((k, v) # ms) =
     (case field_for fs k of
        None \<Rightarrow> dec_members fs old ms
      | Some d \<Rightarrow> (case d old v of None \<Rightarrow> None | Some new \<Rightarrow> dec_members fs new ms))"

definition dec_struct :: "'a fields \<Rightarrow> 'a decoder" where
  "dec_struct fs old j =
     (case j of JNull \<Rightarrow> Some old | JObj ms \<Rightarrow> dec_members fs old ms | _ \<Rightarrow> None)"

text \<open>A field decoder from the field's getter and setter.\<close>

definition at_field :: "('a \<Rightarrow> 'b) \<Rightarrow> ('b \<Rightarrow> 'a \<Rightarrow> 'a) \<Rightarrow> 'b decoder \<Rightarrow> 'a decoder" where
  "at_field get put dec x j = map_option (\<lambda>v. put v x) (dec (get x) j)"

subsection \<open>Enough fuel\<close>

lemma length_skip_ws: "skip_ws s = t \<Longrightarrow> length t \<le> length s"
  by (auto simp: skip_ws_def length_dropWhile_le)

lemma lex_string_shrinks: "lex_string s = Some (raw, rest) \<Longrightarrow> length rest < length s"
  by (induction s arbitrary: raw rest rule: lex_string.induct)
    (force split: if_splits list.splits)+

lemma lex_number_shrinks:
  assumes "lex_number s = Some (txt, rest)"
  shows "length rest < length s"
proof -
  have fr: "length r \<le> length u" if "lex_fraction u = Some (x, r)" for u x r
    using that length_dropWhile_le [of is_digit]
    by (auto simp: lex_fraction_def Let_def split: list.splits if_splits intro: le_SucI)
  have ex: "length r \<le> length u" if "lex_exponent u = Some (x, r)" for u x r
    using that length_dropWhile_le [of is_digit]
    by (auto simp: lex_exponent_def Let_def split: list.splits if_splits intro: le_SucI)
  define t where "t = snd (lex_sign s)"
  have t: "length t \<le> length s" by (auto simp: t_def lex_sign_def split: list.split)
  have ds: "length (lex_int t) \<le> length t"
    using length_takeWhile_le [of is_digit t] by (auto simp: lex_int_def split: list.split)
  obtain a b t' where "lex_int t \<noteq> []"
    and "lex_fraction (drop (length (lex_int t)) t) = Some (a, t')" "lex_exponent t' = Some (b, rest)"
    using assms by (auto simp: lex_number_def Let_def t_def split: if_splits option.splits)
  with fr ex have "length rest \<le> length t - length (lex_int t)" "0 < length (lex_int t)"
    by (fastforce, simp)
  then show ?thesis using t ds by linarith
qed

lemma parse_shrinks:
  "parse_value f d s = Some (v, r) \<Longrightarrow> length r < length s"
  "parse_elems f d s = Some (vs, r) \<Longrightarrow> length r < length s"
  "parse_members f d s = Some (ms, r) \<Longrightarrow> length r < length s"
proof (induction f d s and f d s and f d s arbitrary: v r and vs r and ms r
    rule: parse_value_parse_elems_parse_members.induct)
  case (2 f d s)
  obtain c t where ws: "skip_ws s = c # t"
    using "2.prems" by (auto split: list.splits)
  have le: "Suc (length t) \<le> length s" using length_skip_ws [OF ws] by simp
  show ?case
    using "2.prems" le 2(1,2) [OF ws] length_skip_ws [of t]
    by (auto simp: ws split: if_splits list.splits dest: lex_string_shrinks lex_number_shrinks)
      (force dest: lex_string_shrinks lex_number_shrinks)+
next
  case (4 f d s)
  obtain v' rest where v: "parse_value f d s = Some (v', rest)"
    using "4.prems" by (auto split: option.splits)
  have len: "length rest < length s" using "4.IH"(1) v .
  obtain c t where ws: "skip_ws rest = c # t"
    using "4.prems" v by (auto split: list.splits)
  have "length r < length t" if "parse_elems f d t = Some (vs', r)" "c = CHR '',''" for vs'
    using "4.IH"(2) [OF v refl ws _ _ that(1)] that(2) by simp
  then show ?case
    using "4.prems" v ws len length_skip_ws [OF ws] by (fastforce split: if_splits)
next
  case (6 f d s)
  obtain t where ws: "skip_ws s = CHR 0x22 # t"
    using "6.prems" by (auto split: list.splits if_splits)
  obtain raw rest where lx: "lex_string t = Some (raw, rest)"
    using "6.prems" ws by (auto split: option.splits)
  obtain t' where ws': "skip_ws rest = CHR '':'' # t'"
    using "6.prems" ws lx by (auto split: list.splits if_splits)
  obtain v rest' where v: "parse_value f d t' = Some (v, rest')"
    using "6.prems" ws lx ws' by (auto split: option.splits)
  obtain c u where ws2: "skip_ws rest' = c # u"
    using "6.prems" ws lx ws' v by (auto split: list.splits)
  have a: "length u < length s" if "length rest' < length t'"
    using that length_skip_ws [OF ws] length_skip_ws [OF ws'] length_skip_ws [OF ws2]
      lex_string_shrinks [OF lx] by simp
  have b: "length rest' < length t'"
    using 6(1) [OF ws _ lx refl ws' _ v] by simp
  have c: "length r < length u" if "parse_members f d u = Some (ms', r)" "c = CHR '',''" for ms'
    using 6(2) [OF ws _ lx refl ws' _ v refl ws2 _ _ that(1)] that(2) by simp
  show ?case
    using "6.prems" ws lx ws' v ws2 a b c by (fastforce split: if_splits)
qed simp_all

lemma parse_fuel:
  "2 * length s < f \<Longrightarrow> parse_value (f + k) d s = parse_value f d s"
  "2 * length s + 1 < f \<Longrightarrow> parse_elems (f + k) d s = parse_elems f d s"
  "2 * length s < f \<Longrightarrow> parse_members (f + k) d s = parse_members f d s"
proof (induction f d s and f d s and f d s rule: parse_value_parse_elems_parse_members.induct)
  case (2 f d s)
  have m: "parse_members (f + k) (d - 1) (x # t') = parse_members f (d - 1) (x # t')"
    if "skip_ws s = CHR ''{'' # t" "skip_ws t = x # t'" "\<not> d \<le> 0" "x \<noteq> CHR ''}''" for t x t'
    using 2(1) [OF that(1) _ _ that(3,2,4)] "2.prems" length_skip_ws [OF that(1)] length_skip_ws [OF that(2)]
    by simp
  have e: "parse_elems (f + k) (d - 1) (x # t') = parse_elems f (d - 1) (x # t')"
    if "skip_ws s = CHR ''['' # t" "skip_ws t = x # t'" "\<not> d \<le> 0" "x \<noteq> CHR '']''" for t x t'
    using 2(2) [OF that(1) _ _ _ that(3,2,4)] "2.prems" length_skip_ws [OF that(1)] length_skip_ws [OF that(2)]
    by simp
  show ?case using m e by (simp split: list.split)
next
  case (4 f d s)
  have v: "parse_value (f + k) d s = parse_value f d s"
    using 4 by simp
  have "parse_elems (f + k) d t = parse_elems f d t"
    if "parse_value f d s = Some (v, rest)" "skip_ws rest = CHR '','' # t" for v rest t
    using 4(2) [OF that(1) refl that(2)] "4.prems" parse_shrinks(1) [OF that(1)] length_skip_ws [OF that(2)]
    by simp
  then show ?case using v by (auto split: list.split option.split)
next
  case (6 f d s)
  have v: "parse_value (f + k) d t' = parse_value f d t'"
    if "skip_ws s = CHR 0x22 # t" "lex_string t = Some (raw, rest)" "skip_ws rest = CHR '':'' # t'"
    for t raw rest t'
    using 6(1) [OF that(1) _ that(2) refl that(3)] "6.prems" length_skip_ws [OF that(1)]
      lex_string_shrinks [OF that(2)] length_skip_ws [OF that(3)] by simp
  have m: "parse_members (f + k) d u = parse_members f d u"
    if "skip_ws s = CHR 0x22 # t" "lex_string t = Some (raw, rest)" "skip_ws rest = CHR '':'' # t'"
      "parse_value f d t' = Some (w, rest')" "skip_ws rest' = CHR '','' # u" for t raw rest t' w rest' u
    using 6(2) [OF that(1) _ that(2) refl that(3) _ that(4) refl that(5)] "6.prems"
      length_skip_ws [OF that(1)] lex_string_shrinks [OF that(2)] length_skip_ws [OF that(3)]
      parse_shrinks(1) [OF that(4)] length_skip_ws [OF that(5)] by simp
  show ?case using v m by (simp split: list.split option.split)
qed simp_all

lemma parse_fuel_enough:
  "2 * length s < f \<Longrightarrow> map_option fst (parse_value f 10000 s) = parse_first s"
  using parse_fuel(1) [of s "Suc (2 * length s)" "f - Suc (2 * length s)" 10000]
  by (simp add: parse_first_def)

end
