(* ===== verification/Encoding.thy ===== *)
theory Encoding
  imports Prelude
begin

text \<open>
  \<open>src/encoding.go\<close>: the Walrus encoded ("datacap") size of a blob and the storage units billed
  for it, in signed 64-bit arithmetic. The lemmas relate the code to the exact (unbounded)
  formula, bound the sizes for which no operation overflows, and show that the symbol size is the
  least even one whose source symbols hold the blob.
\<close>

definition DefaultNShards :: int where
  "DefaultNShards = 1000"

definition storageUnitBytes :: int where
  "storageUnitBytes = 1048576"

definition EncodedBlobLength :: "int \<Rightarrow> int \<Rightarrow> int" where
  "EncodedBlobLength unencodedLength nShards0 =
     (let nShards = (if nShards0 \<le> 0 then DefaultNShards else nShards0);
          n = nShards;
          maxFaulty = wrap64 (n - 1) sdiv 3;
          minCorrect = wrap64 (n - maxFaulty);
          primarySymbols = wrap64 (minCorrect - maxFaulty);
          secondarySymbols = minCorrect
      in if primarySymbols \<le> 0 \<or> secondarySymbols \<le> 0 then 0
         else
           let u = (if unencodedLength < 1 then 1 else unencodedLength);
               symbolSize1 = wrap64 (wrap64 (u - 1) sdiv wrap64 (primarySymbols * secondarySymbols) + 1);
               symbolSize = (if symbolSize1 smod 2 = 1 then wrap64 (symbolSize1 + 1) else symbolSize1);
               sliverSize = wrap64 (wrap64 (wrap64 (primarySymbols + secondarySymbols) * symbolSize) * n);
               digestLen = 32;
               blobIDLen = 32;
               metadata = wrap64 (wrap64 (wrap64 (n * digestLen) * 2) + blobIDLen)
           in wrap64 (wrap64 (n * metadata) + sliverSize))"

definition EncodedStorageUnits :: "int \<Rightarrow> int" where
  "EncodedStorageUnits encodedSize =
     (if encodedSize \<le> 0 then 0
      else wrap64 (wrap64 (encodedSize + storageUnitBytes) - 1) sdiv storageUnitBytes)"

subsection \<open>The exact formula\<close>

text \<open>The reference formula over unbounded integers.\<close>

definition max_faulty :: "int \<Rightarrow> int" where
  "max_faulty n = (n - 1) div 3"

definition primary_symbols :: "int \<Rightarrow> int" where
  "primary_symbols n = n - 2 * max_faulty n"

definition secondary_symbols :: "int \<Rightarrow> int" where
  "secondary_symbols n = n - max_faulty n"

definition symbol_size :: "int \<Rightarrow> int \<Rightarrow> int" where
  "symbol_size u n =
     (let q = (max u 1 - 1) div (primary_symbols n * secondary_symbols n) + 1 in q + q mod 2)"

definition encoded_spec :: "int \<Rightarrow> int \<Rightarrow> int" where
  "encoded_spec u n =
     n * (64 * n + 32) + (primary_symbols n + secondary_symbols n) * symbol_size u n * n"

subsection \<open>Library lemmas\<close>

lemma symbols_bounds:
  assumes "1 \<le> n"
  shows "0 \<le> max_faulty n" "1 \<le> primary_symbols n" "primary_symbols n \<le> secondary_symbols n"
    "secondary_symbols n \<le> n" "secondary_symbols n \<le> 2 * primary_symbols n" "2 * n \<le> 3 * secondary_symbols n"
  using assms unfolding primary_symbols_def secondary_symbols_def max_faulty_def by presburger+

lemma symbol_size_props:
  assumes "1 \<le> n"
  shows "symbol_size u n mod 2 = 0" and "2 \<le> symbol_size u n"
    and "u \<le> primary_symbols n * secondary_symbols n * symbol_size u n"
    and "primary_symbols n * secondary_symbols n * (symbol_size u n - 2) \<le> max u 1 - 1"
proof -
  define p where "p = primary_symbols n * secondary_symbols n"
  define q where "q = (max u 1 - 1) div p + 1"
  have p: "1 \<le> p"
    using symbols_bounds [OF assms] mult_mono [of 1 "primary_symbols n" 1 "secondary_symbols n"]
    unfolding p_def by simp
  have eq: "symbol_size u n = q + q mod 2"
    by (simp add: symbol_size_def q_def p_def Let_def)
  have q1: "1 \<le> q" using p by (simp add: q_def pos_imp_zdiv_nonneg_iff)
  have mod2: "q mod 2 = 0 \<or> q mod 2 = 1" by presburger
  have low: "p * (q - 1) \<le> max u 1 - 1" and high: "max u 1 - 1 < p * q"
    using p mult_div_mod_eq [of p "max u 1 - 1"] pos_mod_bound [of p "max u 1 - 1"]
      pos_mod_sign [of p "max u 1 - 1"]
    unfolding q_def right_diff_distrib distrib_left by linarith+
  show "symbol_size u n mod 2 = 0" unfolding eq by presburger
  show "2 \<le> symbol_size u n" unfolding eq using q1 by presburger
  have "p * q \<le> p * symbol_size u n"
    unfolding eq using p mod2 by (intro mult_left_mono) auto
  with high show "u \<le> primary_symbols n * secondary_symbols n * symbol_size u n"
    unfolding p_def by linarith
  have "p * (symbol_size u n - 2) \<le> p * (q - 1)"
    unfolding eq using p mod2 by (intro mult_left_mono) auto
  with low show "primary_symbols n * secondary_symbols n * (symbol_size u n - 2) \<le> max u 1 - 1"
    unfolding p_def by linarith
qed

lemma sliver_bound:
  assumes "1 \<le> n"
  shows "(primary_symbols n + secondary_symbols n) * symbol_size u n * n \<le> 5 * (max u 1 - 1) + 10 * (n * n)"
proof -
  let ?P = "primary_symbols n" and ?S = "secondary_symbols n" and ?s = "symbol_size u n"
  note b = symbols_bounds [OF assms] and s = symbol_size_props [OF assms, of u]
  have "2 * ((?P + ?S) * n) \<le> (3 * ?P) * (3 * ?S)"
  proof -
    have "(?P + ?S) * (2 * n) \<le> (3 * ?P) * (3 * ?S)"
      by (rule mult_mono) (use b assms in auto)
    then show ?thesis by (simp add: algebra_simps)
  qed
  have five: "(?P + ?S) * n \<le> 5 * (?P * ?S)"
  proof -
    have "0 \<le> ?P * ?S" using b by (intro mult_nonneg_nonneg) auto
    moreover have "(3 * ?P) * (3 * ?S) = 9 * (?P * ?S)" by simp
    ultimately show ?thesis using \<open>2 * ((?P + ?S) * n) \<le> (3 * ?P) * (3 * ?S)\<close> by linarith
  qed
  have "(?P + ?S) * n * (?s - 2) \<le> 5 * (?P * ?S) * (?s - 2)"
    using five s(2) by (intro mult_right_mono) auto
  also have "\<dots> \<le> 5 * (max u 1 - 1)"
    using s(4) by (simp add: algebra_simps)
  finally have "(?P + ?S) * n * (?s - 2) \<le> 5 * (max u 1 - 1)" .
  moreover have "(?P + ?S) * n * 2 \<le> 10 * (n * n)"
  proof -
    have "?P * ?S \<le> n * n" by (rule mult_mono) (use b in auto)
    with five show ?thesis by linarith
  qed
  moreover have "(?P + ?S) * ?s * n = (?P + ?S) * n * (?s - 2) + (?P + ?S) * n * 2"
    by (simp add: algebra_simps)
  ultimately show ?thesis by linarith
qed

lemma EncodedBlobLength_eq_spec:
  assumes "1 \<le> n" "n \<le> 2 ^ 20" "u \<le> 2 ^ 60"
  shows "EncodedBlobLength u n = encoded_spec u n"
proof -
  let ?P = "primary_symbols n" and ?S = "secondary_symbols n" and ?s = "symbol_size u n"
  note b = symbols_bounds [OF assms(1)] and s = symbol_size_props [OF assms(1), of u]
  have n: "n \<le> 1048576" and u: "max u 1 \<le> 1152921504606846976" using assms by simp_all
  have nn: "n * n \<le> 1099511627776"
    using mult_mono [of n 1048576 n 1048576] n assms(1) by simp
  have PS: "1 \<le> ?P * ?S" "?P * ?S \<le> 1099511627776"
    using mult_mono [of 1 ?P 1 ?S] mult_mono [of ?P n ?S n] b nn by auto
  have "?s - 2 \<le> ?P * ?S * (?s - 2)"
    using PS s(2) mult_right_mono [of 1 "?P * ?S" "?s - 2"] by simp
  then have s_le: "?s \<le> max u 1 + 1" using s(4) by linarith
  have prod: "0 \<le> (?P + ?S) * ?s" "(?P + ?S) * ?s \<le> (?P + ?S) * ?s * n" 
    using b s(2) assms(1) mult_left_mono [of 1 n "(?P + ?S) * ?s"] by auto
  have sliver: "(?P + ?S) * ?s * n \<le> 6917529027641081856"
  proof -
    have "5 * (max u 1 - 1) \<le> 5764607523034234880" using u by simp
    then show ?thesis using sliver_bound [OF assms(1), of u] nn by linarith
  qed
  have q: "0 \<le> (max u 1 - 1) div (?P * ?S)" "(max u 1 - 1) div (?P * ?S) \<le> max u 1 - 1"
    using PS(1) zdiv_mono2 [of "max u 1 - 1" 1 "?P * ?S"] by (simp_all add: pos_imp_zdiv_nonneg_iff)
  have f: "wrap64 (n - 1) sdiv 3 = max_faulty n"
    using assms(1) n by (simp add: wrap64_small sdiv_nonneg max_faulty_def)
  have mc: "wrap64 (n - max_faulty n) = ?S"
    using b n by (subst wrap64_small) (auto simp: secondary_symbols_def)
  have pr: "wrap64 (?S - max_faulty n) = ?P"
    using b n by (subst wrap64_small) (auto simp: secondary_symbols_def primary_symbols_def)
  have wPS: "wrap64 (?P * ?S) = ?P * ?S" using PS by (intro wrap64_small) auto
  have sym: "wrap64 (wrap64 (max u 1 - 1) sdiv (?P * ?S) + 1) = (max u 1 - 1) div (?P * ?S) + 1"
    using q u PS by (simp add: wrap64_small sdiv_nonneg)
  have even: "(let q = (max u 1 - 1) div (?P * ?S) + 1 in if q smod 2 = 1 then wrap64 (q + 1) else q) = ?s"
    using q u unfolding symbol_size_def Let_def by (subst smod_nonneg) (auto simp: wrap64_small)
  have sl: "wrap64 (wrap64 (wrap64 (?P + ?S) * ?s) * n) = (?P + ?S) * ?s * n"
  proof -
    have "wrap64 (?P + ?S) = ?P + ?S" using b n by (intro wrap64_small) auto
    moreover have "wrap64 ((?P + ?S) * ?s) = (?P + ?S) * ?s"
      using prod sliver by (intro wrap64_small) linarith+
    moreover have "wrap64 ((?P + ?S) * ?s * n) = (?P + ?S) * ?s * n"
      using prod sliver by (intro wrap64_small) linarith+
    ultimately show ?thesis by simp
  qed
  have md: "wrap64 (n * wrap64 (wrap64 (wrap64 (n * 32) * 2) + 32)) = n * (64 * n + 32)"
  proof -
    have "n * (64 * n + 32) = 64 * (n * n) + 32 * n" by (simp add: algebra_simps)
    then have "wrap64 (n * (64 * n + 32)) = n * (64 * n + 32)"
      using n nn assms(1) mult_nonneg_nonneg [of n n] by (intro wrap64_small) linarith+
    then show ?thesis using n assms(1) by (simp add: wrap64_small mult.commute)
  qed
  have sum: "wrap64 (n * (64 * n + 32) + (?P + ?S) * ?s * n) = encoded_spec u n"
  proof -
    define X where "X = (?P + ?S) * ?s * n"
    define M where "M = n * (64 * n + 32)"
    have "M = 64 * (n * n) + 32 * n" by (simp add: M_def algebra_simps)
    then have "0 \<le> M" "M \<le> 70368777732096" using n nn assms(1) by auto
    moreover have "0 \<le> X" "X \<le> 6917529027641081856" using prod sliver by (auto simp: X_def)
    ultimately have "wrap64 (M + X) = M + X" by (intro wrap64_small) auto
    then show ?thesis by (simp add: encoded_spec_def M_def X_def)
  qed
  have mx: "(if u < 1 then 1 else u) = max u 1" by (simp add: max_def)
  have np: "\<not> n \<le> 0" "\<not> (?P \<le> 0 \<or> ?S \<le> 0)" using assms(1) b by auto
  show ?thesis
    unfolding EncodedBlobLength_def Let_def
    by (simp only: np if_False f mc pr mx wPS sym even [unfolded Let_def] sl md sum)
qed

lemma EncodedBlobLength_default: "n \<le> 0 \<Longrightarrow> EncodedBlobLength u n = EncodedBlobLength u DefaultNShards"
  by (simp add: EncodedBlobLength_def DefaultNShards_def)

lemma symbol_size_least:
  assumes "1 \<le> n" "2 \<le> t" "t mod 2 = 0" "u \<le> primary_symbols n * secondary_symbols n * t"
  shows "symbol_size u n \<le> t"
proof (rule ccontr)
  let ?p = "primary_symbols n * secondary_symbols n"
  assume "\<not> symbol_size u n \<le> t"
  then have "t \<le> symbol_size u n - 2"
    using assms(3) symbol_size_props(1) [OF assms(1), of u] by presburger
  moreover have p: "1 \<le> ?p"
    using symbols_bounds [OF assms(1)] mult_mono [of 1 "primary_symbols n" 1 "secondary_symbols n"] by simp
  ultimately have "?p * t \<le> ?p * (symbol_size u n - 2)"
    by (intro mult_left_mono) auto
  moreover have "2 \<le> ?p * t" using p assms(2) mult_mono [of 1 ?p 2 t] by simp
  ultimately show False
    using symbol_size_props(4) [OF assms(1), of u] assms(4) by (simp add: max_def split: if_splits)
qed

lemma symbol_size_mono:
  assumes "1 \<le> n" "u \<le> v"
  shows "symbol_size u n \<le> symbol_size v n"
  using symbol_size_least [OF assms(1) symbol_size_props(2,1) [OF assms(1)], of u v]
    symbol_size_props(3) [OF assms(1), of v] assms(2) by linarith

lemma encoded_spec_mono:
  assumes "1 \<le> n" "u \<le> v"
  shows "encoded_spec u n \<le> encoded_spec v n"
  unfolding encoded_spec_def
  using symbol_size_mono [OF assms] symbols_bounds [OF assms(1)] assms(1)
  by (intro add_left_mono mult_right_mono mult_left_mono) auto

lemma encoded_spec_upper:
  assumes "1 \<le> n"
  shows "encoded_spec u n \<le> 5 * max u 1 + 74 * (n * n) + 32 * n"
proof -
  have "n * (64 * n + 32) = 64 * (n * n) + 32 * n" by (simp add: algebra_simps)
  with sliver_bound [OF assms, of u] show ?thesis unfolding encoded_spec_def by simp
qed

lemma encoded_spec_lower:
  assumes "1 \<le> n"
  shows "n * (64 * n + 32) + 2 * u \<le> encoded_spec u n"
proof -
  let ?P = "primary_symbols n" and ?S = "secondary_symbols n" and ?s = "symbol_size u n"
  note b = symbols_bounds [OF assms] and s = symbol_size_props [OF assms, of u]
  have "?P * ?S \<le> ?P * n" and "?P * ?S \<le> n * ?S"
    using b by (auto intro!: mult_left_mono mult_right_mono)
  then have "2 * (?P * ?S) \<le> (?P + ?S) * n" by (simp add: algebra_simps)
  then have "2 * (?P * ?S) * ?s \<le> (?P + ?S) * n * ?s"
    using s(2) by (intro mult_right_mono) auto
  with s(3) show ?thesis unfolding encoded_spec_def by (simp add: algebra_simps)
qed

subsection \<open>Properties\<close>

text \<open>
  C38. For a committee of 1 to \<open>2 ^ 20\<close> shards and blobs up to \<open>2 ^ 60\<close> bytes no 64-bit operation of
  \<open>EncodedBlobLength\<close> overflows: it returns the exact RS2 formula, whose symbol size is the least
  even number of at least 2 for which the source symbols hold the whole blob.
\<close>

theorem EncodedBlobLength_exact:
  assumes "1 \<le> n" and "n \<le> 2 ^ 20" and "u \<le> 2 ^ 60"
  shows "EncodedBlobLength u n = encoded_spec u n
    \<and> u \<le> primary_symbols n * secondary_symbols n * symbol_size u n
    \<and> symbol_size u n mod 2 = 0
    \<and> (\<forall>t\<ge>2. t mod 2 = 0 \<longrightarrow> u \<le> primary_symbols n * secondary_symbols n * t
          \<longrightarrow> symbol_size u n \<le> t)"
  using EncodedBlobLength_eq_spec [OF assms] symbol_size_props [OF assms(1), of u]
    symbol_size_least [OF assms(1), of _ u] by auto

theorem EncodedBlobLength_exact_witness:
  "EncodedBlobLength 17 1000 = encoded_spec 17 1000 \<and> encoded_spec 17 1000 = 66034000
    \<and> (17::int) \<le> primary_symbols 1000 * secondary_symbols 1000 * symbol_size 17 1000"
  using EncodedBlobLength_exact [of 1000 17]
  by (simp add: encoded_spec_def symbol_size_def primary_symbols_def secondary_symbols_def max_faulty_def)

text \<open>
  On the same range the billed size is monotone in the blob length, never below twice the blob
  plus the per-shard metadata, and never above five times the blob plus a term in the committee size.
\<close>

theorem EncodedBlobLength_bounds:
  assumes "1 \<le> n" and "n \<le> 2 ^ 20" and "u \<le> v" and "v \<le> 2 ^ 60"
  shows "EncodedBlobLength u n \<le> EncodedBlobLength v n
    \<and> n * (64 * n + 32) + 2 * u \<le> EncodedBlobLength u n
    \<and> EncodedBlobLength u n \<le> 5 * max u 1 + 74 * (n * n) + 32 * n"
proof -
  have "u \<le> 2 ^ 60" using assms(3,4) by simp
  then have eq: "EncodedBlobLength u n = encoded_spec u n" "EncodedBlobLength v n = encoded_spec v n"
    using EncodedBlobLength_eq_spec assms by auto
  show ?thesis
    unfolding eq using encoded_spec_mono encoded_spec_lower encoded_spec_upper assms(1,3) by simp
qed

theorem EncodedBlobLength_bounds_witness:
  "EncodedBlobLength 17 1000 \<le> EncodedBlobLength 268435456 1000"
  using EncodedBlobLength_bounds [of 1000 17 268435456] by simp

text \<open>
  \<open>EncodedStorageUnits\<close> is the ceiling of the encoded size in 1 MiB units, for every size the
  addition before the division does not overflow.
\<close>

theorem EncodedStorageUnits_ceiling:
  assumes "0 < x" and "x \<le> 2 ^ 63 - 1 - storageUnitBytes"
  shows "x \<le> EncodedStorageUnits x * storageUnitBytes
    \<and> (EncodedStorageUnits x - 1) * storageUnitBytes < x"
proof -
  define q where "q = (x + 1048575) div 1048576"
  define r where "r = (x + 1048575) mod 1048576"
  have eq: "EncodedStorageUnits x = q"
    using assms by (simp add: q_def EncodedStorageUnits_def storageUnitBytes_def wrap64_small sdiv_nonneg)
  have "q * 1048576 + r = x + 1048575" "0 \<le> r" "r < 1048576"
    unfolding q_def r_def by simp_all
  then show ?thesis unfolding storageUnitBytes_def eq by simp
qed

theorem EncodedStorageUnits_ceiling_witness:
  "(66034000::int) \<le> EncodedStorageUnits 66034000 * storageUnitBytes
    \<and> (EncodedStorageUnits 66034000 - 1) * storageUnitBytes < 66034000"
  using EncodedStorageUnits_ceiling [of 66034000] by (simp add: storageUnitBytes_def)

end
