(* ===== verification/BlobCache.thy ===== *)
theory BlobCache
  imports Prelude "HOL-Library.Sublist"
begin

text \<open>
  \<open>src/cache.go\<close>: the byte-bounded LRU of whole blobs. The model keeps the code's two structures
  and the pointers between them: \<open>ll\<close> is the \<open>container/list\<close> from front to back as a list of
  element addresses, \<open>heap\<close> the \<open>*cacheEntry\<close> an element points to, \<open>items\<close> the map from keys to
  elements. The nil cache (caching disabled) is \<open>None\<close>. Every method runs under the mutex, so each
  is one state transition. The lemmas give the structural invariant, the refinement to an LRU
  association list (\<open>lru\<close>), and the byte bound; the locale \<open>byte_cache\<close> is the contract the HTTP
  client relies on, interpreted on the model at the end.
\<close>

subsection \<open>State and operations\<close>

record cacheEntry =
  ce_key :: string
  ce_data :: bytes

record blobCache =
  ll :: "nat list"
  heap :: "nat \<Rightarrow> cacheEntry"
  items :: "string \<Rightarrow> nat option"
  curBytes :: int
  maxBytes :: int
  maxEntrySize :: int
  next_addr :: nat

text \<open>The operations of \<open>container/list\<close> the cache uses, on element addresses.\<close>

definition MoveToFront :: "nat \<Rightarrow> nat list \<Rightarrow> nat list" where
  "MoveToFront e xs = e # remove1 e xs"

definition list_Back :: "nat list \<Rightarrow> nat option" where
  "list_Back xs = (if xs = [] then None else Some (last xs))"

definition list_Remove :: "nat \<Rightarrow> nat list \<Rightarrow> nat list" where
  "list_Remove e xs = remove1 e xs"

definition newBlobCache :: "int \<Rightarrow> blobCache option" where
  "newBlobCache mb =
     (if mb \<le> 0 then None
      else let maxEntry0 = mb sdiv 4;
               maxEntry = (if maxEntry0 \<le> 0 then mb else maxEntry0)
           in Some \<lparr>ll = [], heap = (\<lambda>_. \<lparr>ce_key = [], ce_data = []\<rparr>), items = (\<lambda>_. None),
                    curBytes = 0, maxBytes = mb, maxEntrySize = maxEntry, next_addr = 0\<rparr>)"

definition blobCache_get :: "blobCache option \<Rightarrow> string \<Rightarrow> bytes option \<times> blobCache option" where
  "blobCache_get cc key =
     (case cc of
        None \<Rightarrow> (None, None)
      | Some c \<Rightarrow>
          (case items c key of
             None \<Rightarrow> (None, Some c)
           | Some el \<Rightarrow> (Some (ce_data (heap c el)), Some (c\<lparr>ll := MoveToFront el (ll c)\<rparr>))))"

text \<open>The eviction loop at the end of \<open>add\<close>.\<close>

function evict :: "blobCache \<Rightarrow> blobCache" where
  "evict c =
     (if curBytes c > maxBytes c then
        (case list_Back (ll c) of
           None \<Rightarrow> c
         | Some back \<Rightarrow>
             (let ent = heap c back
              in evict (c\<lparr>ll := list_Remove back (ll c),
                          items := (items c)(ce_key ent := None),
                          curBytes := curBytes c - len64 (ce_data ent)\<rparr>)))
      else c)"
  by pat_completeness auto
termination
  by (relation "measure (\<lambda>c. length (ll c))")
    (auto simp: list_Back_def list_Remove_def length_remove1 split: if_splits)

declare evict.simps [simp del]

definition blobCache_insert :: "blobCache \<Rightarrow> string \<Rightarrow> bytes \<Rightarrow> blobCache" where
  "blobCache_insert c key data =
     (let size = len64 data
      in case items c key of
           Some el \<Rightarrow>
             (let old = heap c el
              in c\<lparr>curBytes := curBytes c + (size - len64 (ce_data old)),
                   heap := (heap c)(el := old\<lparr>ce_data := data\<rparr>),
                   ll := MoveToFront el (ll c)\<rparr>)
         | None \<Rightarrow>
             (let el = next_addr c
              in c\<lparr>next_addr := Suc el,
                   heap := (heap c)(el := \<lparr>ce_key = key, ce_data = data\<rparr>),
                   ll := el # ll c,
                   items := (items c)(key := Some el),
                   curBytes := curBytes c + size\<rparr>))"

definition blobCache_add :: "blobCache option \<Rightarrow> string \<Rightarrow> bytes \<Rightarrow> blobCache option" where
  "blobCache_add cc key data =
     (case cc of
        None \<Rightarrow> None
      | Some c \<Rightarrow>
          (if len64 data > maxEntrySize c then Some c
           else Some (evict (blobCache_insert c key data))))"

subsection \<open>Invariant and abstraction\<close>

definition entry_of :: "blobCache \<Rightarrow> nat \<Rightarrow> string \<times> bytes" where
  "entry_of c e = (ce_key (heap c e), ce_data (heap c e))"

definition lru :: "blobCache \<Rightarrow> (string \<times> bytes) list" where
  "lru c = map (entry_of c) (ll c)"

definition total_bytes :: "(string \<times> bytes) list \<Rightarrow> int" where
  "total_bytes xs = (\<Sum>(k, d)\<leftarrow>xs. len64 d)"

text \<open>\<open>cache_struct\<close>: the two structures agree; it also holds in the middle of \<open>add\<close>.\<close>

definition cache_struct :: "blobCache \<Rightarrow> bool" where
  "cache_struct c \<longleftrightarrow>
     distinct (ll c) \<and> (\<forall>e\<in>set (ll c). e < next_addr c)
     \<and> (\<forall>k e. items c k = Some e \<longleftrightarrow> e \<in> set (ll c) \<and> ce_key (heap c e) = k)
     \<and> curBytes c = total_bytes (lru c)
     \<and> 0 < maxEntrySize c \<and> maxEntrySize c \<le> maxBytes c
     \<and> (\<forall>e\<in>set (ll c). len64 (ce_data (heap c e)) \<le> maxEntrySize c)"

definition cache_inv :: "blobCache \<Rightarrow> bool" where
  "cache_inv c \<longleftrightarrow> cache_struct c \<and> curBytes c \<le> maxBytes c"

definition cache_ok :: "blobCache option \<Rightarrow> bool" where
  "cache_ok cc = (case cc of None \<Rightarrow> True | Some c \<Rightarrow> cache_inv c)"

definition cache_contents :: "blobCache option \<Rightarrow> string \<Rightarrow> bytes option" where
  "cache_contents cc = (case cc of None \<Rightarrow> Map.empty | Some c \<Rightarrow> map_of (lru c))"

text \<open>The abstract LRU: most recently used first, trimmed from the back to the byte budget.\<close>

function lru_trim :: "int \<Rightarrow> (string \<times> bytes) list \<Rightarrow> (string \<times> bytes) list" where
  "lru_trim m xs = (if total_bytes xs > m \<and> xs \<noteq> [] then lru_trim m (butlast xs) else xs)"
  by pat_completeness auto
termination
  by (relation "measure (\<lambda>(m, xs). length xs)") auto

declare lru_trim.simps [simp del]

definition lru_touch :: "string \<Rightarrow> bytes \<Rightarrow> (string \<times> bytes) list \<Rightarrow> (string \<times> bytes) list" where
  "lru_touch k d xs = (k, d) # AList.delete k xs"

subsection \<open>Library lemmas\<close>

lemma total_bytes_simps [simp]:
  "total_bytes [] = 0"
  "total_bytes ((k, d) # xs) = len64 d + total_bytes xs"
  "total_bytes (xs @ ys) = total_bytes xs + total_bytes ys"
  by (simp_all add: total_bytes_def)

lemma total_bytes_nonneg [simp]: "0 \<le> total_bytes xs"
  by (induction xs) auto

lemma total_bytes_delete:
  "distinct (map fst xs) \<Longrightarrow> map_of xs k = Some d \<Longrightarrow>
    total_bytes (AList.delete k xs) = total_bytes xs - len64 d"
proof (induction xs)
  case (Cons x xs)
  obtain k' d' where x: "x = (k', d')" by (cases x)
  show ?case
  proof (cases "k' = k")
    case True
    with Cons.prems x have "k \<notin> dom (map_of xs)" and "d' = d"
      by (auto simp: dom_map_of_conv_image_fst)
    with True x show ?thesis by (simp add: delete_id dom_map_of_conv_image_fst)
  next
    case False
    with Cons x show ?thesis by auto
  qed
qed simp

lemma struct_keys:
  assumes "cache_struct c" "e \<in> set (ll c)" "e' \<in> set (ll c)" "ce_key (heap c e) = ce_key (heap c e')"
  shows "e = e'"
proof -
  have "items c (ce_key (heap c e)) = Some e" "items c (ce_key (heap c e)) = Some e'"
    using assms unfolding cache_struct_def by auto
  then show ?thesis by simp
qed

lemma lru_keys_distinct: "cache_struct c \<Longrightarrow> distinct (map fst (lru c))"
  using struct_keys [of c]
  by (auto simp: lru_def comp_def entry_of_def distinct_map inj_on_def cache_struct_def)

lemma items_iff_lru:
  assumes "cache_struct c"
  shows "map_of (lru c) k = map_option (\<lambda>e. ce_data (heap c e)) (items c k)"
proof (cases "items c k")
  case None
  then have "k \<notin> fst ` set (lru c)"
  proof -
    have "k \<noteq> ce_key (heap c e)" if "e \<in> set (ll c)" for e
      using assms that None unfolding cache_struct_def by (metis option.distinct(1))
    then show ?thesis by (fastforce simp: lru_def entry_of_def)
  qed
  with None show ?thesis by (simp add: map_of_eq_None_iff)
next
  case (Some e)
  then have "(k, ce_data (heap c e)) \<in> set (lru c)"
    using assms unfolding cache_struct_def lru_def entry_of_def by force
  with Some lru_keys_distinct [OF assms] show ?thesis by simp
qed

lemma lru_remove_elem:
  assumes "cache_struct c" "items c k = Some e"
  shows "map (entry_of c) (remove1 e (ll c)) = AList.delete k (lru c)"
proof -
  have e: "e \<in> set (ll c)" "ce_key (heap c e) = k" and dist: "distinct (ll c)"
    using assms unfolding cache_struct_def by auto
  have "remove1 e (ll c) = filter (\<lambda>x. x \<noteq> e) (ll c)"
    using dist by (simp add: distinct_remove1_removeAll removeAll_filter_not_eq eq_commute)
  also have "\<dots> = filter (\<lambda>x. k \<noteq> ce_key (heap c x)) (ll c)"
    using struct_keys [OF assms(1)] e by (intro filter_cong) auto
  finally show ?thesis
    by (simp add: lru_def AList.delete_eq filter_map comp_def entry_of_def case_prod_unfold)
qed

lemma lru_trim_Cons_fits:
  "total_bytes [x] \<le> m \<Longrightarrow> \<exists>ys. lru_trim m (x # xs) = x # ys \<and> prefix ys xs"
proof (induction "length xs" arbitrary: xs)
  case 0
  then show ?case by (subst lru_trim.simps) simp
next
  case (Suc n)
  show ?case
  proof (cases "total_bytes (x # xs) > m")
    case True
    have "lru_trim m (x # xs) = lru_trim m (x # butlast xs)"
      using True Suc.hyps(2) by (subst lru_trim.simps) auto
    moreover obtain ys where "lru_trim m (x # butlast xs) = x # ys \<and> prefix ys (butlast xs)"
      using Suc.hyps(1) [of "butlast xs"] Suc.hyps(2) Suc.prems by fastforce
    ultimately show ?thesis by (metis prefixeq_butlast prefix_order.trans)
  next
    case False
    then show ?thesis by (subst lru_trim.simps) simp
  qed
qed

lemma lru_trim_bound: "0 \<le> m \<Longrightarrow> total_bytes (lru_trim m xs) \<le> m"
  by (induction m xs rule: lru_trim.induct) (subst lru_trim.simps, auto)

text \<open>The trim keeps the longest prefix within the budget: what it drops did not fit.\<close>

lemma lru_trim_maximal:
  "prefix (lru_trim m xs) xs \<and> (\<forall>ys. prefix ys xs \<longrightarrow> total_bytes ys \<le> m \<longrightarrow> prefix ys (lru_trim m xs))"
proof (induction m xs rule: lru_trim.induct)
  case (1 m xs)
  show ?case
  proof (cases "total_bytes xs > m \<and> xs \<noteq> []")
    case True
    then have eq: "lru_trim m xs = lru_trim m (butlast xs)" by (subst lru_trim.simps) simp
    have "prefix ys (butlast xs)" if "prefix ys xs" "total_bytes ys \<le> m" for ys
      using that True by (metis append_butlast_last_id not_le prefix_snoc)
    with 1 True show ?thesis
      unfolding eq by (meson prefix_order.trans prefixeq_butlast)
  next
    case False
    then show ?thesis by (subst (1 2) lru_trim.simps) auto
  qed
qed


lemma struct_item:
  assumes "cache_struct c" "items c k = Some e"
  shows "e \<in> set (ll c)" and "ce_key (heap c e) = k" and "entry_of c e = (k, ce_data (heap c e))"
  using assms unfolding cache_struct_def entry_of_def by auto

lemma get_refines:
  assumes "cache_struct c" and get: "blobCache_get (Some c) k = (r, Some c')"
  shows "r = map_of (lru c) k \<and> cache_struct c' \<and> maxBytes c' = maxBytes c \<and> curBytes c' = curBytes c
    \<and> lru c' = (case map_of (lru c) k of None \<Rightarrow> lru c | Some d \<Rightarrow> lru_touch k d (lru c))"
proof (cases "items c k")
  case None
  then show ?thesis
    using assms by (auto simp: blobCache_get_def items_iff_lru)
next
  case (Some e)
  note e = struct_item [OF assms(1) Some]
  have c': "c' = c\<lparr>ll := MoveToFront e (ll c)\<rparr>" and r: "r = Some (ce_data (heap c e))"
    using Some get by (auto simp: blobCache_get_def)
  have lk: "map_of (lru c) k = Some (ce_data (heap c e))"
    using Some items_iff_lru [OF assms(1)] by simp
  have "entry_of c' = entry_of c" by (rule ext) (simp add: entry_of_def c')
  then have lru': "lru c' = lru_touch k (ce_data (heap c e)) (lru c)"
    using lru_remove_elem [OF assms(1) Some] e
    by (simp add: lru_def c' MoveToFront_def lru_touch_def)
  have "total_bytes (lru c') = total_bytes (lru c)"
    using total_bytes_delete [OF lru_keys_distinct [OF assms(1)] lk] by (simp add: lru' lru_touch_def)
  moreover have "set (ll c') = set (ll c)" "distinct (ll c')"
    using e(1) assms(1) unfolding c' MoveToFront_def cache_struct_def by auto
  ultimately have "cache_struct c'"
    using assms(1) unfolding cache_struct_def by (auto simp: c')
  with r lk lru' c' show ?thesis by simp
qed


lemma insert_new:
  assumes "cache_struct c" "len64 d \<le> maxEntrySize c" "items c k = None"
  shows "cache_struct (blobCache_insert c k d) \<and> lru (blobCache_insert c k d) = lru_touch k d (lru c)"
proof -
  define c' where "c' = blobCache_insert c k d"
  have fresh: "k \<notin> fst ` set (lru c)"
    using assms(3) items_iff_lru [OF assms(1), of k] by (simp add: map_of_eq_None_iff)
  have new: "next_addr c \<notin> set (ll c)"
    using assms(1) unfolding cache_struct_def by auto
  have c': "c' = c\<lparr>next_addr := Suc (next_addr c),
                 heap := (heap c)(next_addr c := \<lparr>ce_key = k, ce_data = d\<rparr>),
                 ll := next_addr c # ll c, items := (items c)(k := Some (next_addr c)),
                 curBytes := curBytes c + len64 d\<rparr>"
    using assms(3) by (simp add: c'_def blobCache_insert_def Let_def)
  have "entry_of c' e = entry_of c e" if "e \<in> set (ll c)" for e
    using that new by (auto simp: c' entry_of_def)
  then have lru': "lru c' = (k, d) # lru c"
    by (simp add: lru_def c' entry_of_def)
  have keys: "k \<noteq> ce_key (heap c e)" if "e \<in> set (ll c)" for e
    using that fresh by (auto simp: lru_def entry_of_def image_image)
  have "\<forall>k e. items c' k = Some e \<longleftrightarrow> e \<in> set (ll c') \<and> ce_key (heap c' e) = k"
    using assms(1) new keys unfolding cache_struct_def by (auto simp: c')
  moreover have "curBytes c' = total_bytes (lru c')"
    using assms(1) unfolding lru' cache_struct_def by (simp add: c')
  ultimately have "cache_struct c'"
    using assms(1,2) new unfolding cache_struct_def by (auto simp: c' less_Suc_eq)
  with lru' fresh show ?thesis by (simp add: lru_touch_def delete_id c'_def)
qed

lemma insert_old:
  assumes "cache_struct c" "len64 d \<le> maxEntrySize c" "items c k = Some e"
  shows "cache_struct (blobCache_insert c k d) \<and> lru (blobCache_insert c k d) = lru_touch k d (lru c)"
proof -
  define c' where "c' = blobCache_insert c k d"
  note e = struct_item [OF assms(1,3)]
  have c': "c' = c\<lparr>curBytes := curBytes c + (len64 d - len64 (ce_data (heap c e))),
                 heap := (heap c)(e := (heap c e)\<lparr>ce_data := d\<rparr>), ll := MoveToFront e (ll c)\<rparr>"
    using assms(3) by (simp add: c'_def blobCache_insert_def Let_def)
  have dist: "distinct (ll c)" using assms(1) unfolding cache_struct_def by simp
  have "entry_of c' x = entry_of c x" if "x \<in> set (remove1 e (ll c))" for x
    using that dist by (auto simp: c' entry_of_def)
  then have "map (entry_of c') (remove1 e (ll c)) = AList.delete k (lru c)"
    using lru_remove_elem [OF assms(1,3)] by (metis map_cong)
  then have lru': "lru c' = lru_touch k d (lru c)"
    using e by (simp add: lru_def c' MoveToFront_def lru_touch_def entry_of_def)
  have lk: "map_of (lru c) k = Some (ce_data (heap c e))"
    using assms(3) items_iff_lru [OF assms(1)] by simp
  have keys: "ce_key (heap c' x) = ce_key (heap c x)" for x by (simp add: c')
  have "set (ll c') = set (ll c)" "distinct (ll c')"
    using e(1) dist unfolding c' MoveToFront_def by auto
  moreover have "curBytes c' = total_bytes (lru c')"
  proof -
    have "curBytes c' = curBytes c + (len64 d - len64 (ce_data (heap c e)))" by (simp add: c')
    then show ?thesis
      using total_bytes_delete [OF lru_keys_distinct [OF assms(1)] lk] assms(1)
      unfolding lru' lru_touch_def cache_struct_def by simp
  qed
  ultimately have "cache_struct c'"
    using assms(1,2) keys unfolding cache_struct_def by (auto simp: c')
  with lru' show ?thesis by (simp add: c'_def)
qed

lemma insert_limits [simp]:
  "maxBytes (blobCache_insert c k d) = maxBytes c"
  "maxEntrySize (blobCache_insert c k d) = maxEntrySize c"
  by (simp_all add: blobCache_insert_def Let_def split: option.splits)

lemma insert_refines:
  assumes "cache_struct c" "len64 d \<le> maxEntrySize c"
  shows "cache_struct (blobCache_insert c k d)" "lru (blobCache_insert c k d) = lru_touch k d (lru c)"
  using insert_new [OF assms, of k] insert_old [OF assms, of k] by (cases "items c k"; simp)+

text \<open>One round of the eviction loop drops the least recently used entry.\<close>

lemma evict_round:
  assumes "cache_struct c" "ll c \<noteq> []"
  defines "b \<equiv> last (ll c)"
  defines "c' \<equiv> c\<lparr>ll := remove1 b (ll c), items := (items c)(ce_key (heap c b) := None),
                   curBytes := curBytes c - len64 (ce_data (heap c b))\<rparr>"
  shows "cache_struct c' \<and> lru c' = butlast (lru c)"
proof -
  have dist: "distinct (ll c)" and b: "b \<in> set (ll c)"
    using assms unfolding cache_struct_def by auto
  have split: "ll c = butlast (ll c) @ [b]" using assms(2) by (simp add: b_def)
  have notin: "b \<notin> set (butlast (ll c))"
    using dist by (subst (asm) split) simp
  have rm: "remove1 b (ll c) = butlast (ll c)"
    using notin by (subst split) (simp add: remove1_append remove1_idem)
  have same: "entry_of c' = entry_of c" by (rule ext) (simp add: entry_of_def c'_def)
  have lru': "lru c' = butlast (lru c)"
    unfolding lru_def same by (simp add: c'_def rm map_butlast)
  have "total_bytes (lru c) = total_bytes (lru c') + len64 (ce_data (heap c b))"
    unfolding lru' by (subst lru_def, subst split) (simp add: lru_def map_butlast [symmetric] entry_of_def)
  then have "curBytes c' = total_bytes (lru c')"
    using assms(1) unfolding cache_struct_def by (simp add: c'_def)
  moreover have "\<forall>k e. items c' k = Some e \<longleftrightarrow> e \<in> set (ll c') \<and> ce_key (heap c' e) = k"
    using assms(1) struct_keys [OF assms(1) _ b] dist unfolding cache_struct_def
    by (auto simp: c'_def)
  ultimately have "cache_struct c'"
    using assms(1) dist unfolding cache_struct_def
    by (auto simp: c'_def dest: notin_set_remove1 set_mp [OF set_remove1_subset])
  with lru' show ?thesis by simp
qed

lemma evict_refines:
  "cache_struct c \<Longrightarrow>
    cache_struct (evict c) \<and> lru (evict c) = lru_trim (maxBytes c) (lru c)
    \<and> maxBytes (evict c) = maxBytes c \<and> maxEntrySize (evict c) = maxEntrySize c"
proof (induction c rule: evict.induct)
  case (1 c)
  have cur: "curBytes c = total_bytes (lru c)" using "1.prems" by (simp add: cache_struct_def)
  show ?case
  proof (cases "curBytes c > maxBytes c \<and> ll c \<noteq> []")
    case True
    define c' where "c' = c\<lparr>ll := remove1 (last (ll c)) (ll c),
       items := (items c)(ce_key (heap c (last (ll c))) := None),
       curBytes := curBytes c - len64 (ce_data (heap c (last (ll c))))\<rparr>"
    have round: "cache_struct c'" "lru c' = butlast (lru c)"
      using evict_round [OF "1.prems"] True by (auto simp: c'_def)
    have ev: "evict c = evict c'"
      using True by (subst evict.simps) (simp add: list_Back_def list_Remove_def c'_def Let_def)
    have IH: "cache_struct (evict c') \<and> lru (evict c') = lru_trim (maxBytes c') (lru c')
        \<and> maxBytes (evict c') = maxBytes c' \<and> maxEntrySize (evict c') = maxEntrySize c'"
      using "1.IH" [of "last (ll c)" "heap c (last (ll c))"] True round(1)
      by (simp add: list_Back_def list_Remove_def c'_def)
    have "lru c \<noteq> []" using True by (simp add: lru_def)
    then have "lru_trim (maxBytes c) (lru c) = lru_trim (maxBytes c) (butlast (lru c))"
      using True cur by (subst lru_trim.simps) simp
    with IH round show ?thesis unfolding ev by (simp add: c'_def)
  next
    case False
    then have "evict c = c" by (subst evict.simps) (auto simp: list_Back_def)
    moreover have "lru_trim (maxBytes c) (lru c) = lru c"
      using False cur by (subst lru_trim.simps) (auto simp: lru_def)
    ultimately show ?thesis using "1.prems" by simp
  qed
qed


lemma add_refines:
  assumes "cache_inv c" "blobCache_add (Some c) k d = Some c'"
  shows "cache_inv c'" and "maxBytes c' = maxBytes c"
    and "lru c' = (if len64 d > maxEntrySize c then lru c else lru_trim (maxBytes c) (lru_touch k d (lru c)))"
proof -
  have s: "cache_struct c" "0 \<le> maxBytes c" using assms(1) by (auto simp: cache_inv_def cache_struct_def)
  have *: "cache_inv c' \<and> maxBytes c' = maxBytes c \<and>
    lru c' = (if len64 d > maxEntrySize c then lru c else lru_trim (maxBytes c) (lru_touch k d (lru c)))"
  proof (cases "len64 d > maxEntrySize c")
    case True
    with assms show ?thesis by (auto simp: blobCache_add_def)
  next
    case False
    define i where "i = blobCache_insert c k d"
    have c': "c' = evict i" using assms(2) False by (auto simp: blobCache_add_def i_def)
    have i: "cache_struct i" "lru i = lru_touch k d (lru c)" "maxBytes i = maxBytes c"
      using insert_refines [OF s(1)] False by (auto simp: i_def)
    note ev = evict_refines [OF i(1)]
    have "curBytes c' = total_bytes (lru_trim (maxBytes c) (lru i))"
      using ev i unfolding c' cache_struct_def by simp
    also have "\<dots> \<le> maxBytes c" by (rule lru_trim_bound [OF s(2)])
    finally have "cache_inv c'" using ev i by (simp add: cache_inv_def c')
    with ev i False show ?thesis by (simp add: c')
  qed
  then show "cache_inv c'" "maxBytes c' = maxBytes c"
    "lru c' = (if len64 d > maxEntrySize c then lru c else lru_trim (maxBytes c) (lru_touch k d (lru c)))"
    by auto
qed

lemma newBlobCache_ok: "cache_ok (newBlobCache mb)"
proof (cases "mb \<le> 0")
  case False
  then have "mb sdiv 4 = mb div 4" by (simp add: sdiv_nonneg)
  with False show ?thesis
    by (auto simp: newBlobCache_def cache_ok_def cache_inv_def cache_struct_def lru_def Let_def)
qed (simp add: newBlobCache_def cache_ok_def)

lemma cache_get_ok:
  assumes "cache_ok cc" "blobCache_get cc k = (r, cc')"
  shows "cache_ok cc'" and "r = cache_contents cc k" and "cache_contents cc' = cache_contents cc"
proof -
  have *: "cache_ok cc' \<and> r = cache_contents cc k \<and> cache_contents cc' = cache_contents cc"
  proof (cases cc)
    case None
    with assms show ?thesis by (simp add: blobCache_get_def cache_ok_def cache_contents_def)
  next
    case (Some c)
    then have inv: "cache_struct c" "curBytes c \<le> maxBytes c"
      using assms(1) by (auto simp: cache_ok_def cache_inv_def)
    obtain c' where c': "cc' = Some c'"
      using assms(2) Some by (auto simp: blobCache_get_def split: option.splits)
    note g = get_refines [OF inv(1), of k r c'] 
    have get: "blobCache_get (Some c) k = (r, Some c')" using assms(2) Some c' by simp
    have "map_of (lru c') = map_of (lru c)"
      using g [OF get] by (auto simp: lru_touch_def delete_conv' fun_eq_iff split: option.splits)
    with g [OF get] inv c' Some show ?thesis
      by (simp add: cache_ok_def cache_inv_def cache_contents_def)
  qed
  then show "cache_ok cc'" "r = cache_contents cc k" "cache_contents cc' = cache_contents cc" by auto
qed

lemma map_of_prefix: "prefix ys xs \<Longrightarrow> map_of ys \<subseteq>\<^sub>m map_of xs"
  by (auto simp: prefix_def map_le_def)

lemma cache_add_ok:
  assumes "cache_ok cc"
  shows "cache_ok (blobCache_add cc k d)"
    and "cache_contents (blobCache_add cc k d) \<subseteq>\<^sub>m (cache_contents cc)(k \<mapsto> d)
       \<or> cache_contents (blobCache_add cc k d) = cache_contents cc"
proof -
  have *: "cache_ok (blobCache_add cc k d) \<and>
     (cache_contents (blobCache_add cc k d) \<subseteq>\<^sub>m (cache_contents cc)(k \<mapsto> d)
       \<or> cache_contents (blobCache_add cc k d) = cache_contents cc)"
  proof (cases cc)
    case None
    then show ?thesis by (simp add: blobCache_add_def cache_ok_def)
  next
    case (Some c)
    then have inv: "cache_inv c" using assms by (simp add: cache_ok_def)
    obtain c' where c': "blobCache_add (Some c) k d = Some c'"
      by (cases "maxEntrySize c < len64 d") (auto simp: blobCache_add_def)
    note a = add_refines [OF inv c']
    have "map_of (lru_trim (maxBytes c) (lru_touch k d (lru c))) \<subseteq>\<^sub>m (map_of (lru c))(k \<mapsto> d)"
      using map_of_prefix [of "lru_trim (maxBytes c) (lru_touch k d (lru c))" "lru_touch k d (lru c)"]
        lru_trim_maximal [of "maxBytes c" "lru_touch k d (lru c)"]
      by (simp add: lru_touch_def delete_conv')
    with a c' Some show ?thesis by (simp add: cache_ok_def cache_contents_def)
  qed
  then show "cache_ok (blobCache_add cc k d)"
    "cache_contents (blobCache_add cc k d) \<subseteq>\<^sub>m (cache_contents cc)(k \<mapsto> d)
       \<or> cache_contents (blobCache_add cc k d) = cache_contents cc" by auto
qed

subsection \<open>The contract of a byte cache\<close>

text \<open>
  What a client may rely on: a lookup reports the contents and keeps them; an insertion adds at most
  the new binding and may forget others. The client's own obligation is coherence: whatever the cache
  holds agrees with the (immutable) objects it was filled from.
\<close>

locale byte_cache =
  fixes get :: "'c \<Rightarrow> string \<Rightarrow> bytes option \<times> 'c"
    and add :: "'c \<Rightarrow> string \<Rightarrow> bytes \<Rightarrow> 'c"
    and contents :: "'c \<Rightarrow> string \<Rightarrow> bytes option"
    and invar :: "'c \<Rightarrow> bool"
  assumes get_result: "invar c \<Longrightarrow> get c k = (r, c') \<Longrightarrow> r = contents c k"
    and get_contents: "invar c \<Longrightarrow> get c k = (r, c') \<Longrightarrow> contents c' = contents c"
    and get_invar: "invar c \<Longrightarrow> get c k = (r, c') \<Longrightarrow> invar c'"
    and add_invar: "invar c \<Longrightarrow> invar (add c k d)"
    and add_contents: "invar c \<Longrightarrow>
       contents (add c k d) \<subseteq>\<^sub>m (contents c)(k \<mapsto> d) \<or> contents (add c k d) = contents c"
begin

definition coherent :: "(string \<Rightarrow> bytes option) \<Rightarrow> 'c \<Rightarrow> bool" where
  "coherent objs c \<longleftrightarrow> invar c \<and> contents c \<subseteq>\<^sub>m objs"

lemma coherent_hit: "coherent objs c \<Longrightarrow> get c k = (Some d, c') \<Longrightarrow> objs k = Some d"
  using get_result unfolding coherent_def map_le_def by (metis domIff option.distinct(1))

lemma coherent_get: "coherent objs c \<Longrightarrow> get c k = (r, c') \<Longrightarrow> coherent objs c'"
  using get_invar get_contents unfolding coherent_def by metis

lemma coherent_add:
  assumes "coherent objs c" "objs k = Some d"
  shows "coherent objs (add c k d)"
proof -
  have "(contents c)(k \<mapsto> d) \<subseteq>\<^sub>m objs"
    using assms unfolding coherent_def by (auto simp: map_le_def)
  then show ?thesis
    using add_contents [of c k d] add_invar assms unfolding coherent_def
    by (metis map_le_trans)
qed

end

interpretation lru_cache: byte_cache blobCache_get blobCache_add cache_contents cache_ok
  by unfold_locales (auto dest: cache_get_ok cache_add_ok)


subsection \<open>Properties\<close>

text \<open>
  C36. Every method keeps the cache well formed: the list, the map and the entries agree, the byte
  counter is the sum of the cached lengths and never exceeds \<open>maxBytes\<close>, and no entry exceeds
  \<open>maxEntrySize\<close> (a quarter of the budget when that is positive). A fresh cache is well formed.
\<close>

theorem blobCache_invariant:
  "cache_ok (newBlobCache mb)
   \<and> (cache_ok cc \<longrightarrow> cache_ok (snd (blobCache_get cc key)) \<and> cache_ok (blobCache_add cc key data))"
  using newBlobCache_ok cache_get_ok(1) [of cc key] cache_add_ok(1) [of cc key data]
  by (metis prod.collapse)

theorem blobCache_invariant_witness:
  "cache_ok (blobCache_add (newBlobCache 8) ''b'' ''xy'')"
  using blobCache_invariant [of 8 "newBlobCache 8" "''b''" "''xy''"] by simp

text \<open>
  C37. The pointer structure refines an LRU list: a lookup returns the list's binding and moves it to
  the front; an insertion of an entry within \<open>maxEntrySize\<close> puts it in front (replacing an older
  binding) and keeps the longest prefix, i.e. the most recently used entries, that fits the byte
  budget; a larger entry is ignored.
\<close>

theorem blobCache_refines_lru:
  assumes "cache_inv c"
    and "blobCache_get (Some c) k = (r, Some c1)" and "blobCache_add (Some c) k d = Some c2"
  shows "r = map_of (lru c) k
    \<and> lru c1 = (case map_of (lru c) k of None \<Rightarrow> lru c | Some d' \<Rightarrow> lru_touch k d' (lru c))
    \<and> (len64 d > maxEntrySize c \<longrightarrow> lru c2 = lru c)
    \<and> (len64 d \<le> maxEntrySize c \<longrightarrow>
         prefix (lru c2) (lru_touch k d (lru c)) \<and> total_bytes (lru c2) \<le> maxBytes c
         \<and> (\<forall>ys. prefix ys (lru_touch k d (lru c)) \<longrightarrow> total_bytes ys \<le> maxBytes c
               \<longrightarrow> prefix ys (lru c2)))"
proof -
  have "cache_struct c" "0 \<le> maxBytes c" using assms(1) by (auto simp: cache_inv_def cache_struct_def)
  then show ?thesis
    using get_refines [OF _ assms(2)] add_refines(3) [OF assms(1,3)] lru_trim_maximal
      lru_trim_bound by auto
qed

theorem blobCache_refines_lru_witness:
  "\<exists>c c1 c2. cache_inv c \<and> blobCache_get (Some c) ''b'' = (None, Some c1)
     \<and> blobCache_add (Some c) ''b'' ''xy'' = Some c2 \<and> lru c1 = lru c"
proof -
  define c where "c = the (newBlobCache 8)"
  have new: "newBlobCache 8 = Some c" by (simp add: c_def newBlobCache_def Let_def)
  then have inv: "cache_inv c" using newBlobCache_ok [of 8] by (simp add: cache_ok_def)
  have "items c ''b'' = None" by (simp add: c_def newBlobCache_def Let_def)
  then have g: "blobCache_get (Some c) ''b'' = (None, Some c)" by (simp add: blobCache_get_def)
  obtain c2 where a: "blobCache_add (Some c) ''b'' ''xy'' = Some c2"
    by (cases "maxEntrySize c < len64 ''xy''") (auto simp: blobCache_add_def)
  have "None = map_of (lru c) ''b''" using blobCache_refines_lru [OF inv g a] by simp
  then show ?thesis using inv g a by blast
qed

text \<open>
  A blob that is not larger than \<open>maxEntrySize\<close> is found again right after it was added: the
  eviction loop never drops the entry it just made room for.
\<close>

theorem blobCache_add_then_get:
  assumes "cache_inv c" and "len64 d \<le> maxEntrySize c"
  shows "fst (blobCache_get (blobCache_add (Some c) k d) k) = Some d"
proof -
  obtain c' where add: "blobCache_add (Some c) k d = Some c'"
    using assms(2) by (auto simp: blobCache_add_def)
  note a = add_refines [OF assms(1) add]
  have fits: "total_bytes [(k, d)] \<le> maxBytes c"
    using assms by (simp add: cache_inv_def cache_struct_def)
  obtain ys where "lru c' = (k, d) # ys"
    using lru_trim_Cons_fits [OF fits] a(3) assms(2) unfolding lru_touch_def by fastforce
  then have "cache_contents (Some c') k = Some d" by (simp add: cache_contents_def)
  moreover have "cache_ok (Some c')" using a(1) by (simp add: cache_ok_def)
  ultimately show ?thesis unfolding add by (metis cache_get_ok(2) prod.collapse)
qed

theorem blobCache_add_then_get_witness:
  "fst (blobCache_get (blobCache_add (newBlobCache 8) ''b'' ''xy'') ''b'') = Some ''xy''"
proof -
  define c where "c = the (newBlobCache 8)"
  have new: "newBlobCache 8 = Some c" and me: "maxEntrySize c = 2"
    by (simp_all add: c_def newBlobCache_def sdiv_nonneg Let_def)
  then have "cache_inv c" using newBlobCache_ok [of 8] by (simp add: cache_ok_def)
  then show ?thesis using blobCache_add_then_get [of c "''xy''" "''b''"] new me by simp
qed

end
