(* ===== verification/Index.thy ===== *)
theory Index
  imports Prelude
begin

text \<open>
  The data and the interface of \<open>src/index.go\<close> (lines 14 to 133): the metadata record of a key, the
  staging statistics, and the Go interface \<open>Index\<close> as a record of methods over an abstract database
  state \<open>'d\<close>. A method returns its Go results (an error or a value) and the state after the call.
  The locale \<open>durable_index\<close> states what the interface promises in terms of two maps, the staged
  bytes and the indexed records; \<open>Postgres\<close> interprets it on the Postgres implementation, and the
  datastore's lemmas are proved inside it.
\<close>

record IndexRecord =
  rBlobID :: string
  rObjectID :: string
  rPatchID :: string
  rOffset :: int
  rSize :: int
  rEncodedSize :: int
  rCost :: "64 word"
  rDeletable :: bool
  rEndEpoch :: "64 word"
  rExpiresAt :: "time option"

type_synonym KeyRecord = "ds_key \<times> IndexRecord"
type_synonym ListItem = "ds_key \<times> int"
type_synonym RenewItem = string
type_synonym StageEntry = "ds_key \<times> bytes"

record StageStats =
  stCount :: int
  stBytes :: int
  stOldest :: "time option"
  stNewest :: "time option"

record 'd Index =
  ix_Put :: "ds_key \<Rightarrow> IndexRecord \<Rightarrow> 'd \<Rightarrow> unit res \<times> 'd"
  ix_PutMany :: "KeyRecord list \<Rightarrow> 'd \<Rightarrow> unit res \<times> 'd"
  ix_Get :: "ds_key \<Rightarrow> 'd \<Rightarrow> IndexRecord res \<times> 'd"
  ix_Delete :: "ds_key \<Rightarrow> 'd \<Rightarrow> unit res \<times> 'd"
  ix_DeleteMany :: "ds_key list \<Rightarrow> 'd \<Rightarrow> unit res \<times> 'd"
  ix_List :: "string \<Rightarrow> int \<Rightarrow> int \<Rightarrow> 'd \<Rightarrow> ListItem list res \<times> 'd"
  ix_DueForRenewal :: "time \<Rightarrow> int \<Rightarrow> 'd \<Rightarrow> RenewItem list res \<times> 'd"
  ix_UpdateBlobAfterRenewal ::
    "string \<Rightarrow> string \<Rightarrow> string \<Rightarrow> int \<Rightarrow> 64 word \<Rightarrow> 64 word \<Rightarrow> time option \<Rightarrow> 'd \<Rightarrow> unit res \<times> 'd"
  ix_StagePutMany :: "StageEntry list \<Rightarrow> 'd \<Rightarrow> unit res \<times> 'd"
  ix_StageGet :: "ds_key \<Rightarrow> 'd \<Rightarrow> bytes res \<times> 'd"
  ix_StageGetSize :: "ds_key \<Rightarrow> 'd \<Rightarrow> int res \<times> 'd"
  ix_StageStats :: "'d \<Rightarrow> StageStats res \<times> 'd"
  ix_StageClaim :: "int \<Rightarrow> int \<Rightarrow> duration \<Rightarrow> 'd \<Rightarrow> StageEntry list res \<times> 'd"
  ix_StageRelease :: "ds_key list \<Rightarrow> 'd \<Rightarrow> unit res \<times> 'd"
  ix_PromoteStaged :: "KeyRecord list \<Rightarrow> 'd \<Rightarrow> unit res \<times> 'd"

subsection \<open>Abstract effects\<close>

text \<open>The view of a database: what is staged and what is indexed.\<close>

type_synonym view = "(ds_key \<Rightarrow> bytes option) \<times> (ds_key \<Rightarrow> IndexRecord option)"

definition upd_all :: "('k \<times> 'v) list \<Rightarrow> ('k \<Rightarrow> 'v option) \<Rightarrow> ('k \<Rightarrow> 'v option)" where
  "upd_all kvs m = fold (\<lambda>(k, v) m. m(k \<mapsto> v)) kvs m"

definition stage_view :: "StageEntry list \<Rightarrow> view \<Rightarrow> view" where
  "stage_view es v = (upd_all es (fst v), snd v)"

definition put_view :: "KeyRecord list \<Rightarrow> view \<Rightarrow> view" where
  "put_view recs v = (fst v, upd_all recs (snd v))"

definition delete_view :: "ds_key list \<Rightarrow> view \<Rightarrow> view" where
  "delete_view ks v = (fst v |` (- set ks), snd v |` (- set ks))"

definition promote_view :: "KeyRecord list \<Rightarrow> view \<Rightarrow> view" where
  "promote_view recs v =
     (fst v |` (- fst ` set recs), upd_all (filter (\<lambda>(k, r). fst v k \<noteq> None) recs) (snd v))"

definition renew_view ::
  "string \<Rightarrow> string \<Rightarrow> string \<Rightarrow> int \<Rightarrow> 64 word \<Rightarrow> 64 word \<Rightarrow> time option \<Rightarrow> view \<Rightarrow> view" where
  "renew_view oldBlob newBlob newObj enc cost ep ex v =
     (fst v, \<lambda>k. map_option (\<lambda>r. if rBlobID r = oldBlob
        then r\<lparr>rBlobID := newBlob, rObjectID := newObj, rEncodedSize := enc, rCost := cost,
               rEndEpoch := ep, rExpiresAt := ex\<rparr> else r) (snd v k))"

text \<open>
  A mutating call either succeeds with its full effect, or returns an error having done nothing or
  everything (an acknowledgement can be lost after the commit): never a part of it.
\<close>

definition all_or_nothing :: "(view \<Rightarrow> view) \<Rightarrow> 'a res \<Rightarrow> view \<Rightarrow> view \<Rightarrow> bool" where
  "all_or_nothing f r v v' =
     (case r of Inr _ \<Rightarrow> v' = f v | Inl _ \<Rightarrow> v' = v \<or> v' = f v)"

text \<open>A probe of one map reports exactly what the map holds, or fails with another error.\<close>

definition probe_ok :: "'a res \<Rightarrow> 'a option \<Rightarrow> bool" where
  "probe_ok r x = (case r of Inr a \<Rightarrow> x = Some a | Inl e \<Rightarrow> e = ErrNotFound \<longrightarrow> x = None)"

definition probe_value :: "'a option \<Rightarrow> 'a res" where
  "probe_value x = (case x of None \<Rightarrow> Inl ErrNotFound | Some a \<Rightarrow> Inr a)"

lemma upd_all_simps [simp]:
  "upd_all [] m = m"
  "upd_all ((k, v) # kvs) m = upd_all kvs (m(k \<mapsto> v))"
  by (simp_all add: upd_all_def)

lemma upd_all_append: "upd_all (xs @ ys) m = upd_all ys (upd_all xs m)"
  by (simp add: upd_all_def)

lemma upd_all_conv: "upd_all kvs m = m ++ map_of (rev kvs)"
  by (induction kvs arbitrary: m) auto

lemma upd_all_notin: "k \<notin> fst ` set kvs \<Longrightarrow> upd_all kvs m k = m k"
  by (simp add: upd_all_conv map_add_def map_of_eq_None_iff split: option.split)
    (metis fst_conv image_eqI map_of_SomeD set_rev)

lemma upd_all_in: "distinct (map fst kvs) \<Longrightarrow> (k, v) \<in> set kvs \<Longrightarrow> upd_all kvs m k = Some v"
  by (simp add: upd_all_conv map_add_Some_iff rev_map [symmetric])

lemma upd_all_cases:
  "upd_all kvs m k = m k \<or> (\<exists>v. (k, v) \<in> set kvs \<and> upd_all kvs m k = Some v)"
  unfolding upd_all_conv map_add_def
  by (auto split: option.split dest: map_of_SomeD)

lemma upd_all_last: "k \<in> fst ` set kvs \<Longrightarrow> \<exists>v. (k, v) \<in> set kvs \<and> upd_all kvs m k = Some v"
proof (induction kvs arbitrary: m rule: rev_induct)
  case (snoc kv kvs)
  then show ?case by (cases kv) (auto simp: upd_all_append)
qed simp

lemma dom_upd_all: "dom (upd_all kvs m) = dom m \<union> fst ` set kvs"
  by (simp add: upd_all_conv dom_map_of_conv_image_fst Un_commute)

subsection \<open>The contract\<close>

locale durable_index =
  fixes ix :: "'d Index"
    and view :: "'d \<Rightarrow> view"
    and claimable :: "'d \<Rightarrow> ds_key \<Rightarrow> bool"
    and healthy :: "'d \<Rightarrow> bool"
    and invar :: "'d \<Rightarrow> bool"
  assumes PutMany_law: "invar d \<Longrightarrow> ix_PutMany ix recs d = (r, d') \<Longrightarrow>
       invar d' \<and> all_or_nothing (put_view recs) r (view d) (view d')"
    and Get_law: "invar d \<Longrightarrow> ix_Get ix k d = (rg, d') \<Longrightarrow>
       invar d' \<and> view d' = view d \<and> probe_ok rg (snd (view d) k)"
    and DeleteMany_law: "invar d \<Longrightarrow> ix_DeleteMany ix ks d = (r, d') \<Longrightarrow>
       invar d' \<and> all_or_nothing (delete_view ks) r (view d) (view d')"
    and Delete_law: "ix_Delete ix k d = ix_DeleteMany ix [k] d"
    and StagePutMany_law: "invar d \<Longrightarrow> ix_StagePutMany ix es d = (r, d') \<Longrightarrow>
       invar d' \<and> all_or_nothing (stage_view es) r (view d) (view d')"
    and StageGet_law: "invar d \<Longrightarrow> ix_StageGet ix k d = (sv, d') \<Longrightarrow>
       invar d' \<and> view d' = view d \<and> probe_ok sv (fst (view d) k)"
    and StageGetSize_law: "invar d \<Longrightarrow> ix_StageGetSize ix k d = (sz, d') \<Longrightarrow>
       invar d' \<and> view d' = view d \<and> probe_ok sz (map_option len64 (fst (view d) k))"
    and StageStats_law: "invar d \<Longrightarrow> ix_StageStats ix d = (st, d') \<Longrightarrow>
       invar d' \<and> view d' = view d"
    and StageClaim_law: "invar d \<Longrightarrow> ix_StageClaim ix maxCount maxB lease d = (cl, d') \<Longrightarrow>
       invar d' \<and> view d' = view d \<and>
       (\<forall>es. cl = Inr es \<longrightarrow> distinct (map fst es)
          \<and> (\<forall>(k, v)\<in>set es. fst (view d) k = Some v \<and> claimable d k))"
    and StageRelease_law: "invar d \<Longrightarrow> ix_StageRelease ix ks d = (r, d') \<Longrightarrow>
       invar d' \<and> view d' = view d"
    and PromoteStaged_law: "invar d \<Longrightarrow> ix_PromoteStaged ix recs d = (r, d') \<Longrightarrow>
       invar d' \<and> all_or_nothing (promote_view recs) r (view d) (view d')"
    and healthy_Get: "invar d \<Longrightarrow> healthy d \<Longrightarrow>
       fst (ix_Get ix k d) = probe_value (snd (view d) k) \<and> healthy (snd (ix_Get ix k d))"
    and healthy_StageGet: "invar d \<Longrightarrow> healthy d \<Longrightarrow>
       fst (ix_StageGet ix k d) = probe_value (fst (view d) k) \<and> healthy (snd (ix_StageGet ix k d))"
    and healthy_StageGetSize: "invar d \<Longrightarrow> healthy d \<Longrightarrow>
       fst (ix_StageGetSize ix k d) = probe_value (map_option len64 (fst (view d) k))
       \<and> healthy (snd (ix_StageGetSize ix k d))"
    and healthy_StagePutMany: "invar d \<Longrightarrow> healthy d \<Longrightarrow> distinct (map fst es) \<Longrightarrow>
       fst (ix_StagePutMany ix es d) = Inr () \<and> healthy (snd (ix_StagePutMany ix es d))"
    and healthy_PutMany: "invar d \<Longrightarrow> healthy d \<Longrightarrow> distinct (map fst recs) \<Longrightarrow>
       fst (ix_PutMany ix recs d) = Inr () \<and> healthy (snd (ix_PutMany ix recs d))"
    and healthy_PromoteStaged: "invar d \<Longrightarrow> healthy d \<Longrightarrow> distinct (map fst recs) \<Longrightarrow>
       fst (ix_PromoteStaged ix recs d) = Inr () \<and> healthy (snd (ix_PromoteStaged ix recs d))"
    and healthy_DeleteMany: "invar d \<Longrightarrow> healthy d \<Longrightarrow>
       fst (ix_DeleteMany ix ks d) = Inr () \<and> healthy (snd (ix_DeleteMany ix ks d))"

text \<open>
  What the renewal worker and the listing operations need on top: a renewal repoints the rows of one blob
  in one step, and the scans change nothing.
\<close>

locale renewable_index = durable_index ix view claimable healthy invar
  for ix :: "'d Index" and view and claimable and healthy and invar +
  assumes UpdateBlob_law: "invar d \<Longrightarrow> ix_UpdateBlobAfterRenewal ix ob nb no en c ep ex d = (r, d') \<Longrightarrow>
       invar d' \<and> all_or_nothing (renew_view ob nb no en c ep ex) r (view d) (view d')"
    and DueForRenewal_law: "invar d \<Longrightarrow> ix_DueForRenewal ix before limit d = (rr, d') \<Longrightarrow>
       invar d' \<and> view d' = view d"
    and List_law: "invar d \<Longrightarrow> ix_List ix pfx limit offset d = (rl, d') \<Longrightarrow>
       invar d' \<and> view d' = view d"

text \<open>
  On top of \<open>durable_index\<close>: finitely many blocks are staged, and on a healthy index the statistics change
  nothing and the claim succeeds, empty-handed only when nothing is claimable.
\<close>

locale flushable_index = durable_index ix view claimable healthy invar
  for ix :: "'d Index" and view and claimable and healthy and invar +
  fixes lease_ok :: "duration \<Rightarrow> bool"
  assumes finite_staged: "finite (dom (fst (view d)))"
    and stats_live: "invar d \<Longrightarrow> healthy d \<Longrightarrow> \<exists>st. ix_StageStats ix d = (Inr st, d) \<and> (stCount st = 0 \<longleftrightarrow> (\<forall>k. \<not> claimable d k))"
    and claim_live: "invar d \<Longrightarrow> healthy d \<Longrightarrow> 0 < n \<Longrightarrow> 0 < b \<Longrightarrow> lease_ok lease \<Longrightarrow>
       \<exists>es d'. ix_StageClaim ix n b lease d = (Inr es, d') \<and> healthy d' \<and> (es = [] \<longrightarrow> d' = d \<and> (\<forall>k. \<not> claimable d k))"
    and promote_calm: "healthy d \<Longrightarrow> healthy (snd (ix_PromoteStaged ix recs d))"
    and release_calm: "healthy d \<Longrightarrow> healthy (snd (ix_StageRelease ix ks d))"

end
