(* ===== verification/Postgres.thy ===== *)
theory Postgres
  imports Index
begin

text \<open>
  \<open>src/index.go\<close>, lines 135 to 704: \<open>postgresIndex\<close>. The two tables are association lists keyed by
  their primary key; each SQL statement of the source is the function on tables its text denotes.
  Every round trip to the server takes the next entry of \<open>faults\<close>, so that a theorem quantifies over
  every pattern of failures: the statement was not executed (\<open>Lost\<close>), it was executed but its
  acknowledgement was lost (\<open>Unacked\<close>), or a row could not be scanned (\<open>BadRow\<close>). A transaction that
  fails before its commit is rolled back.

  What Postgres and its driver decide is a parameter (\<open>pg\<close>): the collation that orders keys, and how
  a Go duration bound to \<open>$2\<close> in \<open>now() + $2\<close> is read as an interval (\<open>None\<close>: rejected).
\<close>

subsection \<open>Tables, faults, statements, transactions\<close>

record index_row =
  blob_id :: string
  object_id :: string
  patch_id :: string
  blob_offset :: int
  row_size :: int
  encoded_size :: int
  cost :: int
  deletable :: bool
  end_epoch :: int
  expires_at :: "time option"
  created_at :: time
  updated_at :: time

record staging_row =
  svalue :: bytes
  ssize :: int
  staged_at :: time
  leased_until :: "time option"

datatype fault = NoFault | Lost string | Unacked string | BadRow string

record db =
  tbl :: "(ds_key \<times> index_row) list"
  stg :: "(ds_key \<times> staging_row) list"
  db_now :: time
  faults :: "fault list"

record pg_params =
  collate :: "ds_key \<Rightarrow> ds_key \<Rightarrow> bool"
  interval_in :: "duration \<Rightarrow> duration option"

record postgresIndex =
  table :: string
  pg :: pg_params

definition stagingTable :: "postgresIndex \<Rightarrow> string" where
  "stagingTable p = table p @ ''_staging''"

definition take_fault :: "db \<Rightarrow> fault \<times> db" where
  "take_fault d = (case faults d of [] \<Rightarrow> (NoFault, d) | f # fs \<Rightarrow> (f, d\<lparr>faults := fs\<rparr>))"

text \<open>One statement (\<open>ExecContext\<close>, \<open>QueryContext\<close>, \<open>BeginTx\<close>).\<close>

definition exec :: "(db \<Rightarrow> ('a \<times> db) res) \<Rightarrow> db \<Rightarrow> 'a res \<times> db" where
  "exec stmt d0 =
     (let (f, d) = take_fault d0
      in case f of
           NoFault \<Rightarrow> (case stmt d of Inl e \<Rightarrow> (Inl e, d) | Inr (a, d') \<Rightarrow> (Inr a, d'))
         | Unacked m \<Rightarrow> (Inl (Opaque m), case stmt d of Inl _ \<Rightarrow> d | Inr (_, d') \<Rightarrow> d')
         | Lost m \<Rightarrow> (Inl (Opaque m), d)
         | BadRow m \<Rightarrow> (Inl (Opaque m), d))"

text \<open>Reading the rows of a result: \<open>rows.Scan\<close> can fail on a row, \<open>rows.Err\<close> at the end.\<close>

definition fetch :: "(err \<Rightarrow> err) \<Rightarrow> (err \<Rightarrow> err) \<Rightarrow> 'a \<Rightarrow> db \<Rightarrow> 'a res \<times> db" where
  "fetch scan_err rows_err rows d0 =
     (let (f, d) = take_fault d0
      in case f of
           NoFault \<Rightarrow> (Inr rows, d)
         | BadRow m \<Rightarrow> (Inl (scan_err (Opaque m)), d)
         | Lost m \<Rightarrow> (Inl (rows_err (Opaque m)), d)
         | Unacked m \<Rightarrow> (Inl (rows_err (Opaque m)), d))"

definition rollback :: "db \<Rightarrow> db \<Rightarrow> db" where
  "rollback d0 d = d\<lparr>tbl := tbl d0, stg := stg d0\<rparr>"

definition commit_tx :: "db \<Rightarrow> db \<Rightarrow> unit res \<times> db" where
  "commit_tx d0 d1 =
     (let (f, d) = take_fault d1
      in case f of
           NoFault \<Rightarrow> (Inr (), d)
         | Unacked m \<Rightarrow> (Inl (Opaque m), d)
         | Lost m \<Rightarrow> (Inl (Opaque m), rollback d0 d)
         | BadRow m \<Rightarrow> (Inl (Opaque m), rollback d0 d))"

text \<open>
  The skeleton shared by the transactional methods: \<open>BeginTx\<close>, \<open>defer tx.Rollback()\<close>, the body,
  \<open>tx.Commit()\<close>.
\<close>

definition with_tx :: "string \<Rightarrow> string \<Rightarrow> (db \<Rightarrow> unit res \<times> db) \<Rightarrow> db \<Rightarrow> unit res \<times> db" where
  "with_tx begin_msg commit_msg body d =
     (case exec (\<lambda>d. Inr ((), d)) d of
        (Inl e, d1) \<Rightarrow> (Inl (Wrapf begin_msg [] e), d1)
      | (Inr _, d1) \<Rightarrow>
          (case body d1 of
             (Inl e, d2) \<Rightarrow> (Inl e, rollback d1 d2)
           | (Inr _, d2) \<Rightarrow>
               (case commit_tx d1 d2 of
                  (Inl e, d3) \<Rightarrow> (Inl (Wrapf commit_msg [] e), d3)
                | (Inr _, d3) \<Rightarrow> (Inr (), d3))))"

subsection \<open>Index rows\<close>

definition row_of_rec :: "time \<Rightarrow> IndexRecord \<Rightarrow> index_row" where
  "row_of_rec now r =
     \<lparr>blob_id = rBlobID r, object_id = rObjectID r, patch_id = rPatchID r, blob_offset = rOffset r,
      row_size = rSize r, encoded_size = rEncodedSize r, cost = int64_of_uint64 (rCost r),
      deletable = rDeletable r, end_epoch = int64_of_uint64 (rEndEpoch r), expires_at = rExpiresAt r,
      created_at = now, updated_at = now\<rparr>"

definition rec_of_row :: "index_row \<Rightarrow> IndexRecord" where
  "rec_of_row w =
     \<lparr>rBlobID = blob_id w, rObjectID = object_id w, rPatchID = patch_id w, rOffset = blob_offset w,
      rSize = row_size w, rEncodedSize = encoded_size w, rCost = uint64_of_int64 (cost w),
      rDeletable = deletable w, rEndEpoch = uint64_of_int64 (end_epoch w), rExpiresAt = expires_at w\<rparr>"

text \<open>\<open>INSERT ... ON CONFLICT (key) DO UPDATE\<close>: an existing row keeps its \<open>created_at\<close>.\<close>

definition upsert :: "time \<Rightarrow> KeyRecord \<Rightarrow> (ds_key \<times> index_row) list \<Rightarrow> (ds_key \<times> index_row) list" where
  "upsert now kr t =
     (let w = row_of_rec now (snd kr)
      in AList.update (fst kr)
           (case map_of t (fst kr) of None \<Rightarrow> w | Some old \<Rightarrow> w\<lparr>created_at := created_at old\<rparr>) t)"

definition postgresIndex_Put :: "postgresIndex \<Rightarrow> ds_key \<Rightarrow> IndexRecord \<Rightarrow> db \<Rightarrow> unit res \<times> db" where
  "postgresIndex_Put p key r d =
     (case exec (\<lambda>d. Inr ((), d\<lparr>tbl := upsert (db_now d) (key, r) (tbl d)\<rparr>)) d of
        (Inl e, d') \<Rightarrow> (Inl (Wrapf ''walrusds: index put %q: %w'' [AStr key] e), d')
      | (Inr _, d') \<Rightarrow> (Inr (), d'))"

definition putManyChunk :: nat where
  "putManyChunk = 500"

definition putManyParams :: nat where
  "putManyParams = 11"

text \<open>
  One multi-row upsert. Postgres rejects a statement that would update the same row twice
  ("ON CONFLICT DO UPDATE command cannot affect row a second time").
\<close>

definition upsert_chunk :: "KeyRecord list \<Rightarrow> db \<Rightarrow> (unit \<times> db) res" where
  "upsert_chunk chunk d =
     (if distinct (map fst chunk)
      then Inr ((), d\<lparr>tbl := fold (upsert (db_now d)) chunk (tbl d)\<rparr>)
      else Inl (Opaque ''ON CONFLICT DO UPDATE command cannot affect row a second time''))"

function putManyTx :: "KeyRecord list \<Rightarrow> db \<Rightarrow> unit res \<times> db" where
  "putManyTx recs d =
     (if recs = [] then (Inr (), d)
      else case exec (upsert_chunk (take putManyChunk recs)) d of
             (Inl e, d') \<Rightarrow> (Inl (Wrapf ''walrusds: index put-many: %w'' [] e), d')
           | (Inr _, d') \<Rightarrow> putManyTx (drop putManyChunk recs) d')"
  by pat_completeness auto
termination
  by (relation "measure (\<lambda>(recs, d). length recs)") (auto simp: putManyChunk_def)

declare putManyTx.simps [simp del]

definition postgresIndex_PutMany :: "KeyRecord list \<Rightarrow> db \<Rightarrow> unit res \<times> db" where
  "postgresIndex_PutMany recs d =
     (if recs = [] then (Inr (), d)
      else with_tx ''walrusds: index put-many begin: %w'' ''walrusds: index put-many commit: %w''
             (putManyTx recs) d)"

definition postgresIndex_Get :: "ds_key \<Rightarrow> db \<Rightarrow> IndexRecord res \<times> db" where
  "postgresIndex_Get key d =
     (case exec (\<lambda>d. Inr (map_of (tbl d) key, d)) d of
        (Inr None, d') \<Rightarrow> (Inl ErrNotFound, d')
      | (Inl e, d') \<Rightarrow> (Inl (Wrapf ''walrusds: index get %q: %w'' [AStr key] e), d')
      | (Inr (Some w), d') \<Rightarrow> (Inr (rec_of_row w), d'))"

definition delete_keys :: "ds_key list \<Rightarrow> (ds_key \<times> 'r) list \<Rightarrow> (ds_key \<times> 'r) list" where
  "delete_keys ks t = filter (\<lambda>(k, _). k \<notin> set ks) t"

definition delete_body :: "ds_key list \<Rightarrow> db \<Rightarrow> unit res \<times> db" where
  "delete_body keys d =
     (case exec (\<lambda>d. Inr ((), d\<lparr>tbl := delete_keys keys (tbl d)\<rparr>)) d of
        (Inl e, d1) \<Rightarrow> (Inl (Wrapf ''walrusds: index delete-many: %w'' [] e), d1)
      | (Inr _, d1) \<Rightarrow>
          (case exec (\<lambda>d. Inr ((), d\<lparr>stg := delete_keys keys (stg d)\<rparr>)) d1 of
             (Inl e, d2) \<Rightarrow> (Inl (Wrapf ''walrusds: staging delete-many: %w'' [] e), d2)
           | (Inr _, d2) \<Rightarrow> (Inr (), d2)))"

definition postgresIndex_DeleteMany :: "ds_key list \<Rightarrow> db \<Rightarrow> unit res \<times> db" where
  "postgresIndex_DeleteMany keys d =
     (if keys = [] then (Inr (), d)
      else with_tx ''walrusds: index delete-many begin: %w'' ''walrusds: index delete-many commit: %w''
             (delete_body keys) d)"

definition postgresIndex_Delete :: "ds_key \<Rightarrow> db \<Rightarrow> unit res \<times> db" where
  "postgresIndex_Delete key d = postgresIndex_DeleteMany [key] d"

subsection \<open>Listing and renewal queries\<close>

text \<open>SQL \<open>LIKE\<close>: \<open>%\<close> matches any sequence, \<open>_\<close> any character, a backslash quotes the next one.\<close>

fun sql_like :: "string \<Rightarrow> string \<Rightarrow> bool" where
  "sql_like [] s = (s = [])"
| "sql_like (p # ps) [] = (p = CHR ''%'' \<and> sql_like ps [])"
| "sql_like (p # ps) (c # cs) =
     (if p = CHR ''%'' then sql_like ps (c # cs) \<or> sql_like (p # ps) cs
      else if p = CHR ''_'' then sql_like ps cs
      else if p = CHR 0x5C then (case ps of [] \<Rightarrow> False | q # qs \<Rightarrow> c = q \<and> sql_like qs cs)
      else c = p \<and> sql_like ps cs)"

definition list_matches :: "string \<Rightarrow> ds_key \<Rightarrow> bool" where
  "list_matches prefix key =
     (if prefix = [] \<or> prefix = ''/'' then True
      else key = prefix \<or> sql_like (prefix @ ''/%'') key)"

text \<open>The \<open>UNION\<close> of the two selects removes duplicate (key, size) pairs; then \<open>ORDER BY key\<close>.\<close>

definition list_union :: "string \<Rightarrow> db \<Rightarrow> ListItem list" where
  "list_union prefix d =
     remdups (map (\<lambda>(k, w). (k, row_size w)) (filter (\<lambda>(k, _). list_matches prefix k) (tbl d))
              @ map (\<lambda>(k, s). (k, ssize s)) (filter (\<lambda>(k, _). list_matches prefix k) (stg d)))"

definition page :: "int \<Rightarrow> int \<Rightarrow> 'a list \<Rightarrow> 'a list" where
  "page limit offset xs =
     (let ys = (if offset > 0 then drop (nat offset) xs else xs)
      in if limit > 0 then take (nat limit) ys else ys)"

definition postgresIndex_List ::
  "postgresIndex \<Rightarrow> string \<Rightarrow> int \<Rightarrow> int \<Rightarrow> db \<Rightarrow> ListItem list res \<times> db" where
  "postgresIndex_List p prefix limit offset d =
     (case exec (\<lambda>d. Inr (page limit offset
              (sort_by (\<lambda>a b. collate (pg p) (fst a) (fst b)) (list_union prefix d)), d)) d of
        (Inl e, d1) \<Rightarrow> (Inl (Wrapf ''walrusds: index list %q: %w'' [AStr prefix] e), d1)
      | (Inr rows, d1) \<Rightarrow>
          fetch (\<lambda>e. Wrapf ''walrusds: scanning list row: %w'' [] e) (\<lambda>e. e) rows d1)"

definition due_rows :: "time \<Rightarrow> db \<Rightarrow> (string \<times> time) list" where
  "due_rows before d =
     List.map_filter (\<lambda>(k, w). case expires_at w of
        None \<Rightarrow> None | Some t \<Rightarrow> if t \<le> before then Some (blob_id w, t) else None) (tbl d)"

definition group_min :: "(string \<times> time) list \<Rightarrow> string \<Rightarrow> time" where
  "group_min rows b = (case filter (\<lambda>(b', _). b' = b) rows of
     [] \<Rightarrow> 0 | x # xs \<Rightarrow> fold (\<lambda>(_, t) m. min t m) xs (snd x))"

definition postgresIndex_DueForRenewal :: "time \<Rightarrow> int \<Rightarrow> db \<Rightarrow> RenewItem list res \<times> db" where
  "postgresIndex_DueForRenewal before limit d =
     (case exec (\<lambda>d. let rows = due_rows before d
                     in Inr (take (nat limit)
                          (sort_by (\<lambda>a b. group_min rows a \<le> group_min rows b)
                             (remdups (map fst rows))), d)) d of
        (Inl e, d1) \<Rightarrow> (Inl (Wrapf ''walrusds: querying renewals: %w'' [] e), d1)
      | (Inr bs, d1) \<Rightarrow>
          fetch (\<lambda>e. Wrapf ''walrusds: scanning renewal row: %w'' [] e) (\<lambda>e. e) bs d1)"

definition postgresIndex_UpdateBlobAfterRenewal ::
  "string \<Rightarrow> string \<Rightarrow> string \<Rightarrow> int \<Rightarrow> 64 word \<Rightarrow> 64 word \<Rightarrow> time option \<Rightarrow> db \<Rightarrow> unit res \<times> db" where
  "postgresIndex_UpdateBlobAfterRenewal oldBlobID newBlobID newObjectID encodedSize cst endEpoch expiresAt d =
     (case exec (\<lambda>d. Inr ((), d\<lparr>tbl := map (\<lambda>(k, w). (k,
              if blob_id w = oldBlobID
              then w\<lparr>blob_id := newBlobID, object_id := newObjectID, encoded_size := encodedSize,
                     cost := int64_of_uint64 cst, end_epoch := int64_of_uint64 endEpoch,
                     expires_at := expiresAt, updated_at := db_now d\<rparr>
              else w)) (tbl d)\<rparr>)) d of
        (Inl e, d') \<Rightarrow> (Inl (Wrapf ''walrusds: updating renewed blob %q: %w'' [AStr oldBlobID] e), d')
      | (Inr _, d') \<Rightarrow> (Inr (), d'))"

subsection \<open>The staging buffer\<close>

definition stagePutChunk :: nat where
  "stagePutChunk = 200"

definition stage_row :: "time \<Rightarrow> bytes \<Rightarrow> staging_row" where
  "stage_row now v = \<lparr>svalue = v, ssize = len64 v, staged_at = now, leased_until = None\<rparr>"

definition stage_upsert :: "time \<Rightarrow> StageEntry \<Rightarrow> (ds_key \<times> staging_row) list \<Rightarrow> (ds_key \<times> staging_row) list" where
  "stage_upsert now e t = AList.update (fst e) (stage_row now (snd e)) t"

definition stage_chunk :: "StageEntry list \<Rightarrow> db \<Rightarrow> (unit \<times> db) res" where
  "stage_chunk chunk d =
     (if distinct (map fst chunk)
      then Inr ((), d\<lparr>stg := fold (stage_upsert (db_now d)) chunk (stg d)\<rparr>)
      else Inl (Opaque ''ON CONFLICT DO UPDATE command cannot affect row a second time''))"

function stagePutTx :: "StageEntry list \<Rightarrow> db \<Rightarrow> unit res \<times> db" where
  "stagePutTx entries d =
     (if entries = [] then (Inr (), d)
      else case exec (stage_chunk (take stagePutChunk entries)) d of
             (Inl e, d') \<Rightarrow> (Inl (Wrapf ''walrusds: stage put-many: %w'' [] e), d')
           | (Inr _, d') \<Rightarrow> stagePutTx (drop stagePutChunk entries) d')"
  by pat_completeness auto
termination
  by (relation "measure (\<lambda>(es, d). length es)") (auto simp: stagePutChunk_def)

declare stagePutTx.simps [simp del]

definition postgresIndex_StagePutMany :: "StageEntry list \<Rightarrow> db \<Rightarrow> unit res \<times> db" where
  "postgresIndex_StagePutMany entries d =
     (if entries = [] then (Inr (), d)
      else with_tx ''walrusds: stage put-many begin: %w'' ''walrusds: stage put-many commit: %w''
             (stagePutTx entries) d)"

definition postgresIndex_StageGet :: "ds_key \<Rightarrow> db \<Rightarrow> bytes res \<times> db" where
  "postgresIndex_StageGet key d =
     (case exec (\<lambda>d. Inr (map_of (stg d) key, d)) d of
        (Inr None, d') \<Rightarrow> (Inl ErrNotFound, d')
      | (Inl e, d') \<Rightarrow> (Inl (Wrapf ''walrusds: stage get %q: %w'' [AStr key] e), d')
      | (Inr (Some s), d') \<Rightarrow> (Inr (svalue s), d'))"

definition postgresIndex_StageGetSize :: "ds_key \<Rightarrow> db \<Rightarrow> int res \<times> db" where
  "postgresIndex_StageGetSize key d =
     (case exec (\<lambda>d. Inr (map_of (stg d) key, d)) d of
        (Inr None, d') \<Rightarrow> (Inl ErrNotFound, d')
      | (Inl e, d') \<Rightarrow> (Inl (Wrapf ''walrusds: stage get-size %q: %w'' [AStr key] e), d')
      | (Inr (Some s), d') \<Rightarrow> (Inr (ssize s), d'))"

text \<open>\<open>leased_until IS NULL OR leased_until < now()\<close>.\<close>

definition row_claimable :: "time \<Rightarrow> staging_row \<Rightarrow> bool" where
  "row_claimable now s = (case leased_until s of None \<Rightarrow> True | Some t \<Rightarrow> t < now)"

definition claimable_rows :: "db \<Rightarrow> (ds_key \<times> staging_row) list" where
  "claimable_rows d = filter (\<lambda>(k, s). row_claimable (db_now d) s) (stg d)"

fun opt_min :: "time list \<Rightarrow> time option" where
  "opt_min [] = None"
| "opt_min (t # ts) = Some (fold min ts t)"

fun opt_max :: "time list \<Rightarrow> time option" where
  "opt_max [] = None"
| "opt_max (t # ts) = Some (fold max ts t)"

definition stats_of :: "db \<Rightarrow> StageStats" where
  "stats_of d =
     (let rows = map snd (claimable_rows d)
      in \<lparr>stCount = len64 rows, stBytes = (\<Sum>s\<leftarrow>rows. ssize s),
          stOldest = opt_min (map staged_at rows), stNewest = opt_max (map staged_at rows)\<rparr>)"

definition postgresIndex_StageStats :: "db \<Rightarrow> StageStats res \<times> db" where
  "postgresIndex_StageStats d =
     (case exec (\<lambda>d. Inr (stats_of d, d)) d of
        (Inl e, d') \<Rightarrow> (Inl (Wrapf ''walrusds: stage stats: %w'' [] e), d')
      | (Inr st, d') \<Rightarrow> (Inr st, d'))"

definition claim_le :: "pg_params \<Rightarrow> ds_key \<times> staging_row \<Rightarrow> ds_key \<times> staging_row \<Rightarrow> bool" where
  "claim_le g a b \<longleftrightarrow>
     staged_at (snd a) < staged_at (snd b)
     \<or> (staged_at (snd a) = staged_at (snd b) \<and> collate g (fst a) (fst b))"

definition claim_candidates :: "pg_params \<Rightarrow> int \<Rightarrow> db \<Rightarrow> (ds_key \<times> int) list" where
  "claim_candidates g maxCount d =
     map (\<lambda>(k, s). (k, ssize s)) (take (nat maxCount) (sort_by (claim_le g) (claimable_rows d)))"

text \<open>The loop over the candidate rows: stop at the first row that would exceed \<open>maxBytes\<close>, but take one.\<close>

fun claim_scan :: "int \<Rightarrow> ds_key list \<Rightarrow> int \<Rightarrow> (ds_key \<times> int) list \<Rightarrow> ds_key list" where
  "claim_scan maxB keys tot [] = keys"
| "claim_scan maxB keys tot ((key, sz) # rows) =
     (if keys \<noteq> [] \<and> tot + sz > maxB then keys
      else claim_scan maxB (keys @ [key]) (tot + sz) rows)"

definition stageClaim_select :: "postgresIndex \<Rightarrow> int \<Rightarrow> int \<Rightarrow> db \<Rightarrow> ds_key list res \<times> db" where
  "stageClaim_select p maxCount maxB d =
     (case exec (\<lambda>d. Inr (claim_candidates (pg p) maxCount d, d)) d of
        (Inl e, d1) \<Rightarrow> (Inl (Wrapf ''walrusds: stage claim select: %w'' [] e), d1)
      | (Inr rows, d1) \<Rightarrow>
          fetch (\<lambda>e. Wrapf ''walrusds: stage claim scan: %w'' [] e)
                (\<lambda>e. Wrapf ''walrusds: stage claim rows: %w'' [] e)
                (claim_scan maxB [] 0 rows) d1)"

definition lease_stmt :: "pg_params \<Rightarrow> ds_key list \<Rightarrow> duration \<Rightarrow> db \<Rightarrow> (StageEntry list \<times> db) res" where
  "lease_stmt g keys lease d =
     (case interval_in g lease of
        None \<Rightarrow> Inl (Opaque ''invalid input for interval'')
      | Some iv \<Rightarrow>
          (let hit = (\<lambda>k s. k \<in> set keys \<and> row_claimable (db_now d) s)
           in Inr (map (\<lambda>(k, s). (k, svalue s)) (filter (\<lambda>(k, s). hit k s) (stg d)),
                   d\<lparr>stg := map (\<lambda>(k, s). (k, if hit k s
                         then s\<lparr>leased_until := Some (db_now d + iv)\<rparr> else s)) (stg d)\<rparr>)))"

definition stageClaim_lease :: "postgresIndex \<Rightarrow> ds_key list \<Rightarrow> duration \<Rightarrow> db \<Rightarrow> StageEntry list res \<times> db" where
  "stageClaim_lease p keys lease d =
     (case exec (lease_stmt (pg p) keys lease) d of
        (Inl e, d1) \<Rightarrow> (Inl (Wrapf ''walrusds: stage claim lease: %w'' [] e), d1)
      | (Inr entries, d1) \<Rightarrow>
          fetch (\<lambda>e. Wrapf ''walrusds: stage claim lease scan: %w'' [] e) (\<lambda>e. e) entries d1)"

definition postgresIndex_StageClaim ::
  "postgresIndex \<Rightarrow> int \<Rightarrow> int \<Rightarrow> duration \<Rightarrow> db \<Rightarrow> StageEntry list res \<times> db" where
  "postgresIndex_StageClaim p maxCount maxB lease d =
     (if maxCount \<le> 0 \<or> maxB \<le> 0 then (Inr [], d)
      else case stageClaim_select p maxCount maxB d of
             (Inl e, d1) \<Rightarrow> (Inl e, d1)
           | (Inr keys, d1) \<Rightarrow>
               (if keys = [] then (Inr [], d1) else stageClaim_lease p keys lease d1))"

definition release_rows :: "ds_key list \<Rightarrow> (ds_key \<times> staging_row) list \<Rightarrow> (ds_key \<times> staging_row) list" where
  "release_rows keys t =
     map (\<lambda>(k, s). (k, if k \<in> set keys then s\<lparr>leased_until := None\<rparr> else s)) t"

definition postgresIndex_StageRelease :: "ds_key list \<Rightarrow> db \<Rightarrow> unit res \<times> db" where
  "postgresIndex_StageRelease keys d =
     (if keys = [] then (Inr (), d)
      else case exec (\<lambda>d. Inr ((), d\<lparr>stg := release_rows keys (stg d)\<rparr>)) d of
             (Inl e, d') \<Rightarrow> (Inl (Wrapf ''walrusds: stage release: %w'' [] e), d')
           | (Inr _, d') \<Rightarrow> (Inr (), d'))"

definition promote_body :: "KeyRecord list \<Rightarrow> db \<Rightarrow> unit res \<times> db" where
  "promote_body recs d =
     (let keys = map fst recs
      in case exec (\<lambda>d. Inr (filter (\<lambda>k. k \<in> set keys) (keys_of (stg d)),
                             d\<lparr>stg := delete_keys keys (stg d)\<rparr>)) d of
           (Inl e, d1) \<Rightarrow> (Inl (Wrapf ''walrusds: promote delete: %w'' [] e), d1)
         | (Inr deleted, d1) \<Rightarrow>
             (case fetch (\<lambda>e. Wrapf ''walrusds: promote scan: %w'' [] e)
                         (\<lambda>e. Wrapf ''walrusds: promote rows: %w'' [] e) deleted d1 of
                (Inl e, d2) \<Rightarrow> (Inl e, d2)
              | (Inr survivors, d2) \<Rightarrow>
                  (let live = filter (\<lambda>kr. fst kr \<in> set survivors) recs
                   in if length live > 0 then putManyTx live d2 else (Inr (), d2))))"

definition postgresIndex_PromoteStaged :: "KeyRecord list \<Rightarrow> db \<Rightarrow> unit res \<times> db" where
  "postgresIndex_PromoteStaged recs d =
     (if recs = [] then (Inr (), d)
      else with_tx ''walrusds: promote begin: %w'' ''walrusds: promote commit: %w'' (promote_body recs) d)"

text \<open>The implementation of the interface.\<close>

definition postgres_ops :: "postgresIndex \<Rightarrow> db Index" where
  "postgres_ops p =
     \<lparr>ix_Put = postgresIndex_Put p, ix_PutMany = postgresIndex_PutMany, ix_Get = postgresIndex_Get,
      ix_Delete = postgresIndex_Delete, ix_DeleteMany = postgresIndex_DeleteMany,
      ix_List = postgresIndex_List p, ix_DueForRenewal = postgresIndex_DueForRenewal,
      ix_UpdateBlobAfterRenewal = postgresIndex_UpdateBlobAfterRenewal,
      ix_StagePutMany = postgresIndex_StagePutMany, ix_StageGet = postgresIndex_StageGet,
      ix_StageGetSize = postgresIndex_StageGetSize, ix_StageStats = postgresIndex_StageStats,
      ix_StageClaim = postgresIndex_StageClaim p, ix_StageRelease = postgresIndex_StageRelease,
      ix_PromoteStaged = postgresIndex_PromoteStaged\<rparr>"

subsection \<open>Invariant and view\<close>

definition db_inv :: "db \<Rightarrow> bool" where
  "db_inv d \<longleftrightarrow> distinct (keys_of (tbl d)) \<and> distinct (keys_of (stg d))
     \<and> (\<forall>(k, s)\<in>set (stg d). ssize s = len64 (svalue s))"

definition db_view :: "db \<Rightarrow> view" where
  "db_view d = (\<lambda>k. map_option svalue (map_of (stg d) k), \<lambda>k. map_option rec_of_row (map_of (tbl d) k))"

definition db_claimable :: "db \<Rightarrow> ds_key \<Rightarrow> bool" where
  "db_claimable d k = (case map_of (stg d) k of None \<Rightarrow> False | Some s \<Rightarrow> row_claimable (db_now d) s)"

definition db_healthy :: "db \<Rightarrow> bool" where
  "db_healthy d \<longleftrightarrow> faults d = []"

text \<open>Two states with the same rows have the same view and the same invariant.\<close>

definition same_tables :: "db \<Rightarrow> db \<Rightarrow> bool" where
  "same_tables d d' \<longleftrightarrow> tbl d' = tbl d \<and> stg d' = stg d"

lemma same_tables_view: "same_tables d d' \<Longrightarrow> db_view d' = db_view d"
  by (simp add: same_tables_def db_view_def)

lemma same_tables_inv: "same_tables d d' \<Longrightarrow> db_inv d' = db_inv d"
  by (simp add: same_tables_def db_inv_def)

lemma same_tables_trans: "same_tables a b \<Longrightarrow> same_tables b c \<Longrightarrow> same_tables a c"
  by (simp add: same_tables_def)

lemma same_tables_simps [simp]:
  "same_tables d d" "same_tables d (d\<lparr>faults := fs\<rparr>)" "same_tables d0 (rollback d0 d)"
  by (simp_all add: same_tables_def rollback_def)

subsection \<open>Round trips to the server\<close>

lemma take_fault_state: "\<exists>f fs. take_fault d = (f, d\<lparr>faults := fs\<rparr>)"
  by (cases "faults d") (auto simp: take_fault_def intro: exI [of _ "[]"])

lemma take_fault_healthy: "db_healthy d \<Longrightarrow> take_fault d = (NoFault, d)"
  by (simp add: take_fault_def db_healthy_def)

lemma exec_cases:
  assumes "exec st d = (r, d')"
  obtains (success) fs a where "r = Inr a" "st (d\<lparr>faults := fs\<rparr>) = Inr (a, d')"
    | (failed) fs e where "r = Inl e" "d' = d\<lparr>faults := fs\<rparr>"
    | (unacked) fs e a where "r = Inl e" "st (d\<lparr>faults := fs\<rparr>) = Inr (a, d')"
proof -
  obtain f fs where f: "take_fault d = (f, d\<lparr>faults := fs\<rparr>)" using take_fault_state by blast
  show ?thesis
    using assms f success failed unacked
    by (cases f; cases "st (d\<lparr>faults := fs\<rparr>)") (auto simp: exec_def)
qed

lemma exec_healthy:
  "db_healthy d \<Longrightarrow> exec st d = (case st d of Inl e \<Rightarrow> (Inl e, d) | Inr (a, d') \<Rightarrow> (Inr a, d'))"
  by (simp add: exec_def take_fault_healthy)

lemma fetch_cases:
  assumes "fetch f g rows d = (r, d')"
  obtains (rows) fs where "r = Inr rows" "d' = d\<lparr>faults := fs\<rparr>"
    | (bad) fs m where "r = Inl (f (Opaque m)) \<or> r = Inl (g (Opaque m))" "d' = d\<lparr>faults := fs\<rparr>"
proof -
  obtain x fs where x: "take_fault d = (x, d\<lparr>faults := fs\<rparr>)" using take_fault_state by blast
  show ?thesis using assms x rows bad by (cases x) (auto simp: fetch_def)
qed

lemma fetch_healthy: "db_healthy d \<Longrightarrow> fetch f g rows d = (Inr rows, d)"
  by (simp add: fetch_def take_fault_healthy)

lemma commit_cases:
  assumes "commit_tx d0 d = (r, d')"
  obtains (committed) "r = Inr ()" "same_tables d d'"
    | (aborted) e where "r = Inl e" "same_tables d0 d'"
    | (unacked) e where "r = Inl e" "same_tables d d'"
proof -
  obtain x fs where x: "take_fault d = (x, d\<lparr>faults := fs\<rparr>)" using take_fault_state by blast
  show ?thesis using assms x committed aborted unacked by (cases x) (auto simp: commit_tx_def)
qed

text \<open>A transaction has the effect of its body or none, whatever fails on the way.\<close>

lemma with_tx_cases:
  assumes "with_tx b c body d = (r, d')"
  obtains (committed) d1 d2 where "r = Inr ()" "same_tables d d1" "body d1 = (Inr (), d2)" "same_tables d2 d'"
    | (aborted) e where "r = Inl e" "same_tables d d'"
    | (unacked) e d1 d2 where "r = Inl e" "same_tables d d1" "body d1 = (Inr (), d2)" "same_tables d2 d'"
proof -
  obtain rb d1 where b: "exec (\<lambda>d. Inr ((), d)) d = (rb, d1)" by fastforce
  then have d1: "same_tables d d1" by (cases rule: exec_cases) auto
  obtain rc d2 where body: "body d1 = (rc, d2)" by fastforce
  show ?thesis
  proof (cases rb)
    case (Inl e)
    then show ?thesis using assms b d1 aborted by (auto simp: with_tx_def)
  next
    case [simp]: (Inr u)
    show ?thesis
    proof (cases rc)
      case (Inl e)
      then have "d' = rollback d1 d2" "r = Inl e" using assms b body by (auto simp: with_tx_def)
      then show ?thesis using aborted same_tables_trans [OF d1] by simp
    next
      case [simp]: (Inr v)
      obtain rt d3 where t: "commit_tx d1 d2 = (rt, d3)" by fastforce
      then show ?thesis
      proof (cases rule: commit_cases)
        case committed
        then show ?thesis using assms b body t d1 that(1) by (auto simp: with_tx_def)
      next
        case (aborted e)
        then show ?thesis
          using assms b body t that(2) same_tables_trans [OF d1] by (auto simp: with_tx_def)
      next
        case (unacked e)
        then show ?thesis using assms b body t d1 that(3) by (auto simp: with_tx_def)
      qed
    qed
  qed
qed

lemma with_tx_healthy:
  assumes "db_healthy d" "body d = (Inr (), d2)" "db_healthy d2"
  shows "with_tx b c body d = (Inr (), d2)"
  using assms by (simp add: with_tx_def exec_healthy commit_tx_def take_fault_healthy)

lemma with_tx_effect:
  assumes "with_tx b c body d = (r, d')" "db_inv d"
    and body: "\<And>d1 d2. db_inv d1 \<Longrightarrow> body d1 = (Inr (), d2) \<Longrightarrow> db_inv d2 \<and> db_view d2 = f (db_view d1)"
  shows "db_inv d' \<and> all_or_nothing f r (db_view d) (db_view d')"
  using assms(1)
proof (cases rule: with_tx_cases)
  case (committed d1 d2)
  then show ?thesis
    using body [of d1 d2] assms(2) by (simp add: all_or_nothing_def same_tables_inv same_tables_view)
next
  case (aborted e)
  then show ?thesis
    using assms(2) by (simp add: all_or_nothing_def same_tables_inv same_tables_view)
next
  case (unacked e d1 d2)
  then show ?thesis
    using body [of d1 d2] assms(2) by (simp add: all_or_nothing_def same_tables_inv same_tables_view)
qed

subsection \<open>Rows and records\<close>

lemma rec_row_roundtrip [simp]: "rec_of_row (row_of_rec now r) = r"
  by (simp add: rec_of_row_def row_of_rec_def)

lemma rec_of_row_created [simp]: "rec_of_row (w\<lparr>created_at := t\<rparr>) = rec_of_row w"
  by (simp add: rec_of_row_def)

lemma upsert_view:
  "map_option rec_of_row (map_of (upsert now kr t) k) =
    (if k = fst kr then Some (snd kr) else map_option rec_of_row (map_of t k))"
  by (auto simp: upsert_def Let_def split: option.split)

lemma upsert_distinct: "distinct (keys_of t) \<Longrightarrow> distinct (keys_of (upsert now kr t))"
  by (simp add: upsert_def Let_def)

lemma upserts_distinct: "distinct (keys_of t) \<Longrightarrow> distinct (keys_of (fold (upsert now) krs t))"
  by (induction krs arbitrary: t) (auto simp: upsert_distinct)

lemma upserts_view:
  "(\<lambda>k. map_option rec_of_row (map_of (fold (upsert now) krs t) k)) =
    upd_all krs (\<lambda>k. map_option rec_of_row (map_of t k))"
proof (induction krs arbitrary: t)
  case (Cons kr krs)
  obtain k0 r0 where kr: "kr = (k0, r0)" by (cases kr)
  have "(\<lambda>k. map_option rec_of_row (map_of (upsert now kr t) k)) =
      (\<lambda>k. map_option rec_of_row (map_of t k))(k0 \<mapsto> r0)"
    unfolding upsert_view by (auto simp: kr)
  with Cons [of "upsert now kr t"] show ?case by (simp add: kr)
qed simp

lemma stage_upserts_view:
  "(\<lambda>k. map_option svalue (map_of (fold (stage_upsert now) es t) k)) =
    upd_all es (\<lambda>k. map_option svalue (map_of t k))"
proof (induction es arbitrary: t)
  case (Cons e es)
  obtain k0 v0 where e: "e = (k0, v0)" by (cases e)
  have "(\<lambda>k. map_option svalue (map_of (stage_upsert now e t) k)) =
      (\<lambda>k. map_option svalue (map_of t k))(k0 \<mapsto> v0)"
    by (auto simp: e stage_upsert_def stage_row_def)
  with Cons [of "stage_upsert now e t"] show ?case by (simp add: e)
qed simp

lemma stage_upserts_inv:
  "distinct (keys_of t) \<and> (\<forall>(k, s)\<in>set t. ssize s = len64 (svalue s)) \<Longrightarrow>
    distinct (keys_of (fold (stage_upsert now) es t))
    \<and> (\<forall>(k, s)\<in>set (fold (stage_upsert now) es t). ssize s = len64 (svalue s))"
proof (induction es arbitrary: t)
  case (Cons e es)
  have d: "distinct (keys_of (stage_upsert now e t))" using Cons.prems by (simp add: stage_upsert_def)
  have "ssize s = len64 (svalue s)" if "(k, s) \<in> set (stage_upsert now e t)" for k s
  proof -
    have "map_of (stage_upsert now e t) k = Some s" using that d by (simp add: map_of_Some_iff)
    then have "s = stage_row now (snd e) \<or> (k, s) \<in> set t"
      by (auto simp: stage_upsert_def split: if_splits dest: map_of_SomeD)
    then show ?thesis using Cons.prems by (auto simp: stage_row_def)
  qed
  with d have "distinct (keys_of (stage_upsert now e t)) \<and>
      (\<forall>(k, s)\<in>set (stage_upsert now e t). ssize s = len64 (svalue s))" by auto
  from Cons.IH [OF this] show ?case by simp
qed simp


subsection \<open>Effect of each method\<close>

lemma upsert_chunk_effect:
  assumes "upsert_chunk chunk d = Inr (u, d')" "db_inv d"
  shows "db_inv d' \<and> db_view d' = put_view chunk (db_view d) \<and> faults d' = faults d"
  using assms upserts_view [of "db_now d" chunk "tbl d"] upserts_distinct [of "tbl d" "db_now d" chunk]
  by (auto simp: upsert_chunk_def db_inv_def db_view_def put_view_def split: if_splits)

lemma stage_chunk_effect:
  assumes "stage_chunk chunk d = Inr (u, d')" "db_inv d"
  shows "db_inv d' \<and> db_view d' = stage_view chunk (db_view d) \<and> faults d' = faults d"
  using assms stage_upserts_view [of "db_now d" chunk "stg d"] stage_upserts_inv [of "stg d" "db_now d" chunk]
  by (auto simp: stage_chunk_def db_inv_def db_view_def stage_view_def split: if_splits)

lemma inv_faults [simp]: "db_inv (d\<lparr>faults := fs\<rparr>) = db_inv d"
  by (simp add: db_inv_def)

lemma view_faults [simp]: "db_view (d\<lparr>faults := fs\<rparr>) = db_view d"
  by (simp add: db_view_def)

lemma put_view_append: "put_view ys (put_view xs v) = put_view (xs @ ys) v"
  by (simp add: put_view_def upd_all_append)

lemma stage_view_append: "stage_view ys (stage_view xs v) = stage_view (xs @ ys) v"
  by (simp add: stage_view_def upd_all_append)

lemma putManyTx_Nil [simp]: "putManyTx [] d = (Inr (), d)"
  by (simp add: putManyTx.simps)

lemma stagePutTx_Nil [simp]: "stagePutTx [] d = (Inr (), d)"
  by (simp add: stagePutTx.simps)

lemma putManyTx_effect:
  "putManyTx recs d = (Inr (), d') \<Longrightarrow> db_inv d \<Longrightarrow>
    db_inv d' \<and> db_view d' = put_view recs (db_view d)"
proof (induction recs d rule: putManyTx.induct)
  case (1 recs d)
  show ?case
  proof (cases "recs = []")
    case True
    with 1 show ?thesis by (simp add: put_view_def)
  next
    case False
    obtain u d1 where ex: "exec (upsert_chunk (take putManyChunk recs)) d = (Inr u, d1)"
      and rest: "putManyTx (drop putManyChunk recs) d1 = (Inr (), d')"
      using "1.prems"(1) False by (auto simp: putManyTx.simps [of recs d] split: prod.splits sum.splits)
    from ex have d1: "db_inv d1" "db_view d1 = put_view (take putManyChunk recs) (db_view d)"
      using "1.prems"(2) by (cases rule: exec_cases; auto dest: upsert_chunk_effect)+
    from "1.IH" [OF False ex [symmetric] refl rest d1(1)] d1(2) show ?thesis
      by (simp add: put_view_append)
  qed
qed

lemma stagePutTx_effect:
  "stagePutTx es d = (Inr (), d') \<Longrightarrow> db_inv d \<Longrightarrow>
    db_inv d' \<and> db_view d' = stage_view es (db_view d)"
proof (induction es d rule: stagePutTx.induct)
  case (1 es d)
  show ?case
  proof (cases "es = []")
    case True
    with 1 show ?thesis by (simp add: stage_view_def)
  next
    case False
    obtain u d1 where ex: "exec (stage_chunk (take stagePutChunk es)) d = (Inr u, d1)"
      and rest: "stagePutTx (drop stagePutChunk es) d1 = (Inr (), d')"
      using "1.prems"(1) False by (auto simp: stagePutTx.simps [of es d] split: prod.splits sum.splits)
    from ex have d1: "db_inv d1" "db_view d1 = stage_view (take stagePutChunk es) (db_view d)"
      using "1.prems"(2) by (cases rule: exec_cases; auto dest: stage_chunk_effect)+
    from "1.IH" [OF False ex [symmetric] refl rest d1(1)] d1(2) show ?thesis
      by (simp add: stage_view_append)
  qed
qed

lemma putManyTx_healthy:
  "db_healthy d \<Longrightarrow> distinct (map fst recs) \<Longrightarrow>
    \<exists>d'. putManyTx recs d = (Inr (), d') \<and> db_healthy d'"
proof (induction recs d rule: putManyTx.induct)
  case (1 recs d)
  show ?case
  proof (cases "recs = []")
    case True
    with 1 show ?thesis by simp
  next
    case False
    define d1 where "d1 = d\<lparr>tbl := fold (upsert (db_now d)) (take putManyChunk recs) (tbl d)\<rparr>"
    have ex: "exec (upsert_chunk (take putManyChunk recs)) d = (Inr (), d1)"
      using "1.prems" by (simp add: exec_healthy upsert_chunk_def d1_def take_map [symmetric])
    have h: "db_healthy d1" using "1.prems"(1) by (simp add: db_healthy_def d1_def)
    have dist: "distinct (map fst (drop putManyChunk recs))"
      using "1.prems"(2) by (simp add: drop_map [symmetric])
    from "1.IH" [OF False ex [symmetric] refl h dist] ex False show ?thesis
      by (simp add: putManyTx.simps [of recs d])
  qed
qed

lemma stagePutTx_healthy:
  "db_healthy d \<Longrightarrow> distinct (map fst es) \<Longrightarrow>
    \<exists>d'. stagePutTx es d = (Inr (), d') \<and> db_healthy d'"
proof (induction es d rule: stagePutTx.induct)
  case (1 es d)
  show ?case
  proof (cases "es = []")
    case True
    with 1 show ?thesis by simp
  next
    case False
    define d1 where "d1 = d\<lparr>stg := fold (stage_upsert (db_now d)) (take stagePutChunk es) (stg d)\<rparr>"
    have ex: "exec (stage_chunk (take stagePutChunk es)) d = (Inr (), d1)"
      using "1.prems" by (simp add: exec_healthy stage_chunk_def d1_def take_map [symmetric])
    have h: "db_healthy d1" using "1.prems"(1) by (simp add: db_healthy_def d1_def)
    have dist: "distinct (map fst (drop stagePutChunk es))"
      using "1.prems"(2) by (simp add: drop_map [symmetric])
    from "1.IH" [OF False ex [symmetric] refl h dist] ex False show ?thesis
      by (simp add: stagePutTx.simps [of es d])
  qed
qed

lemma delete_keys_inv:
  "distinct (keys_of t) \<Longrightarrow> distinct (keys_of (delete_keys ks t))"
  by (simp add: delete_keys_def distinct_keys_filter)

lemma map_of_delete_keys: "map_of (delete_keys ks t) k = (if k \<in> set ks then None else map_of t k)"
  unfolding delete_keys_def by (subst map_of_filter_key) simp

lemma delete_body_effect:
  assumes "delete_body ks d = (Inr (), d')" "db_inv d"
  shows "db_inv d' \<and> db_view d' = delete_view ks (db_view d)"
proof -
  obtain d1 where e1: "exec (\<lambda>d. Inr ((), d\<lparr>tbl := delete_keys ks (tbl d)\<rparr>)) d = (Inr (), d1)"
    and e2: "exec (\<lambda>d. Inr ((), d\<lparr>stg := delete_keys ks (stg d)\<rparr>)) d1 = (Inr (), d')"
    using assms(1) by (auto simp: delete_body_def split: prod.splits sum.splits)
  have "tbl d1 = delete_keys ks (tbl d) \<and> stg d1 = stg d"
    using e1 by (cases rule: exec_cases) auto
  moreover have "stg d' = delete_keys ks (stg d1) \<and> tbl d' = tbl d1"
    using e2 by (cases rule: exec_cases) auto
  ultimately have t: "tbl d' = delete_keys ks (tbl d)" "stg d' = delete_keys ks (stg d)" by simp_all
  have "db_inv d'"
    using assms(2) by (auto simp: db_inv_def t delete_keys_inv) (auto simp: delete_keys_def)
  moreover have "db_view d' = delete_view ks (db_view d)"
    by (auto simp: db_view_def delete_view_def t map_of_delete_keys restrict_map_def fun_eq_iff)
  ultimately show ?thesis by simp
qed

lemma survivors_iff:
  "k \<in> set (filter (\<lambda>k. k \<in> set ks) (keys_of t)) \<longleftrightarrow> k \<in> set ks \<and> map_of t k \<noteq> None"
  by (auto simp: set_keys_of)

lemma promote_body_effect:
  assumes "promote_body recs d = (Inr (), d')" "db_inv d"
  shows "db_inv d' \<and> db_view d' = promote_view recs (db_view d)"
proof -
  let ?ks = "map fst recs"
  let ?sv = "filter (\<lambda>k. k \<in> set ?ks) (keys_of (stg d))"
  let ?live = "filter (\<lambda>kr. fst kr \<in> set ?sv) recs"
  define dd where "dd = d\<lparr>stg := delete_keys ?ks (stg d)\<rparr>"
  obtain del d1 sv d2 where
    e1: "exec (\<lambda>d. Inr (filter (\<lambda>k. k \<in> set ?ks) (keys_of (stg d)),
            d\<lparr>stg := delete_keys ?ks (stg d)\<rparr>)) d = (Inr del, d1)"
    and e2: "fetch (\<lambda>e. Wrapf ''walrusds: promote scan: %w'' [] e)
            (\<lambda>e. Wrapf ''walrusds: promote rows: %w'' [] e) del d1 = (Inr sv, d2)"
    and run0: "(let live = filter (\<lambda>kr. fst kr \<in> set sv) recs
            in if length live > 0 then putManyTx live d2 else (Inr (), d2)) = (Inr (), d')"
    using assms(1) unfolding promote_body_def Let_def by (auto split: prod.splits sum.splits)
  from e1 have 1: "del = ?sv" "same_tables dd d1"
    by (cases rule: exec_cases; auto simp: dd_def same_tables_def)+
  from e2 have 2: "sv = del" "same_tables d1 d2"
    by (cases rule: fetch_cases; auto)+
  have run: "(if length ?live > 0 then putManyTx ?live d2 else (Inr (), d2)) = (Inr (), d')"
    using run0 by (simp only: Let_def 1 2)
  have d2: "same_tables dd d2" using 1 2 same_tables_trans by blast
  have "db_inv dd"
    using assms(2) by (auto simp: dd_def db_inv_def delete_keys_inv) (auto simp: delete_keys_def)
  then have inv2: "db_inv d2" using d2 by (simp add: same_tables_inv)
  have live: "?live = filter (\<lambda>(k, r). fst (db_view d) k \<noteq> None) recs"
    by (rule filter_cong) (auto simp: set_keys_of db_view_def)
  have "db_inv d' \<and> db_view d' = put_view ?live (db_view d2)"
  proof (cases "?live = []")
    case True
    with run inv2 show ?thesis by (simp add: put_view_def)
  next
    case False
    with run putManyTx_effect [OF _ inv2] show ?thesis by auto
  qed
  moreover have "db_view d2 = (fst (db_view d) |` (- fst ` set recs), snd (db_view d))"
    unfolding same_tables_view [OF d2]
    by (auto simp: dd_def db_view_def map_of_delete_keys restrict_map_def fun_eq_iff)
  ultimately show ?thesis unfolding live put_view_def promote_view_def by simp
qed


lemma claim_scan_subset: "set (claim_scan m ks n rows) \<subseteq> set ks \<union> fst ` set rows"
  by (induction m ks n rows rule: claim_scan.induct) auto

lemma lease_stmt_effect:
  assumes "lease_stmt g keys lease d = Inr (es, d')" "db_inv d"
  shows "db_inv d'" and "db_view d' = db_view d" and "distinct (map fst es)"
    and "\<forall>(k, v)\<in>set es. k \<in> set keys \<and> fst (db_view d) k = Some v \<and> db_claimable d k"
    and "faults d' = faults d"
proof -
  let ?hit = "\<lambda>k s. k \<in> set keys \<and> row_claimable (db_now d) s"
  obtain iv where es: "es = map (\<lambda>(k, s). (k, svalue s)) (filter (\<lambda>(k, s). ?hit k s) (stg d))"
    and d': "d' = d\<lparr>stg := map (\<lambda>(k, s). (k, if ?hit k s
               then s\<lparr>leased_until := Some (db_now d + iv)\<rparr> else s)) (stg d)\<rparr>"
    using assms(1) by (auto simp: lease_stmt_def Let_def split: option.splits)
  show "db_inv d'" using assms(2) by (auto simp: d' db_inv_def)
  show "db_view d' = db_view d"
    by (auto simp: d' db_view_def map_of_map_val fun_eq_iff option.map_comp comp_def
        intro!: option.map_cong)
  show "distinct (map fst es)"
    using assms(2) distinct_keys_filter [of "stg d" "\<lambda>(k, s). ?hit k s"]
    by (simp add: es db_inv_def keys_of_def comp_def case_prod_unfold)
  show "\<forall>(k, v)\<in>set es. k \<in> set keys \<and> fst (db_view d) k = Some v \<and> db_claimable d k"
  proof -
    have "map_of (stg d) k = Some s" if "(k, s) \<in> set (stg d)" for k s
      using assms(2) that by (simp add: db_inv_def map_of_Some_iff)
    then show ?thesis by (auto simp: es db_view_def db_claimable_def)
  qed
  show "faults d' = faults d" by (simp add: d')
qed

lemma pure_exec:
  assumes "exec (\<lambda>d. Inr (q d, d)) d = (r, d')"
  shows "same_tables d d'" and "db_now d' = db_now d" and "r = Inr a \<Longrightarrow> \<exists>fs. a = q (d\<lparr>faults := fs\<rparr>)"
  using assms by (cases rule: exec_cases; auto)+

lemma claimable_frame:
  "same_tables d d1 \<Longrightarrow> db_now d1 = db_now d \<Longrightarrow> db_claimable d1 = db_claimable d"
  by (rule ext) (simp add: db_claimable_def same_tables_def split: option.split)

lemma claimable_faults [simp]: "db_claimable (d\<lparr>faults := fs\<rparr>) = db_claimable d"
  by (rule claimable_frame) auto

lemma fetch_frame:
  assumes "fetch f g rows d = (r, d')"
  shows "same_tables d d'" and "db_now d' = db_now d"
  using assms by (cases rule: fetch_cases; simp)+

lemma stageClaim_select_frame:
  assumes "stageClaim_select p maxCount maxB d = (r, d')"
  shows "same_tables d d' \<and> db_now d' = db_now d"
proof -
  obtain rows d1 where ex: "exec (\<lambda>d. Inr (claim_candidates (pg p) maxCount d, d)) d = (rows, d1)"
    by fastforce
  note e = pure_exec(1,2) [OF ex]
  show ?thesis
  proof (cases rows)
    case (Inl x)
    with assms ex e show ?thesis by (simp add: stageClaim_select_def)
  next
    case (Inr x)
    then show ?thesis
      using assms ex e fetch_frame same_tables_trans by (fastforce simp: stageClaim_select_def)
  qed
qed

lemma StageClaim_effect:
  assumes "postgresIndex_StageClaim p maxCount maxB lease d = (r, d')" "db_inv d"
  shows "db_inv d' \<and> db_view d' = db_view d \<and>
    (\<forall>es. r = Inr es \<longrightarrow> distinct (map fst es)
       \<and> (\<forall>(k, v)\<in>set es. fst (db_view d) k = Some v \<and> db_claimable d k))"
proof (cases "maxCount \<le> 0 \<or> maxB \<le> 0")
  case True
  with assms show ?thesis by (auto simp: postgresIndex_StageClaim_def)
next
  case False
  obtain rk d1 where sel: "stageClaim_select p maxCount maxB d = (rk, d1)" by fastforce
  have d1: "same_tables d d1" "db_now d1 = db_now d"
    using stageClaim_select_frame [OF sel] by auto
  then have inv1: "db_inv d1" and view1: "db_view d1 = db_view d"
    and cl1: "db_claimable d1 = db_claimable d"
    using assms(2) by (simp_all add: same_tables_inv same_tables_view claimable_frame)
  show ?thesis
  proof (cases "\<exists>keys. rk = Inr keys \<and> keys \<noteq> []")
    case True
    then obtain keys where rk: "rk = Inr keys" "keys \<noteq> []" by auto
    have lease: "stageClaim_lease p keys lease d1 = (r, d')"
      using assms(1) False sel rk by (simp add: postgresIndex_StageClaim_def)
    obtain rl d2 where ex: "exec (lease_stmt (pg p) keys lease) d1 = (rl, d2)" by fastforce
    have "db_inv d2 \<and> db_view d2 = db_view d \<and>
        (\<forall>es. rl = Inr es \<longrightarrow> distinct (map fst es) \<and>
          (\<forall>(k, v)\<in>set es. fst (db_view d) k = Some v \<and> db_claimable d k))"
      using ex
    proof (cases rule: exec_cases)
      case (success fs a)
      with lease_stmt_effect [OF success(2)] inv1 view1 cl1 show ?thesis by auto
    next
      case (failed fs e)
      with inv1 view1 show ?thesis by simp
    next
      case (unacked fs e a)
      with lease_stmt_effect [OF unacked(2)] inv1 view1 show ?thesis by auto
    qed
    then show ?thesis
      using lease ex unfolding stageClaim_lease_def
      by (auto split: sum.splits elim!: fetch_cases)
  next
    case False
    then have "(r = Inr [] \<or> (\<exists>e. r = Inl e)) \<and> d' = d1"
      using assms(1) sel \<open>\<not> (maxCount \<le> 0 \<or> maxB \<le> 0)\<close>
      by (auto simp: postgresIndex_StageClaim_def split: sum.splits if_splits)
    then show ?thesis using inv1 view1 by auto
  qed
qed

lemma release_rows_view:
  "db_view (d\<lparr>stg := release_rows ks (stg d)\<rparr>) = db_view d"
  by (auto simp: db_view_def release_rows_def map_of_map_val fun_eq_iff option.map_comp comp_def
      intro!: option.map_cong)

lemma release_rows_inv: "db_inv d \<Longrightarrow> db_inv (d\<lparr>stg := release_rows ks (stg d)\<rparr>)"
  by (auto simp: db_inv_def release_rows_def)

lemma StageRelease_effect:
  assumes "postgresIndex_StageRelease ks d = (r, d')" "db_inv d"
  shows "db_inv d' \<and> db_view d' = db_view d"
proof (cases "ks = []")
  case False
  then obtain rr where "exec (\<lambda>d. Inr ((), d\<lparr>stg := release_rows ks (stg d)\<rparr>)) d = (rr, d')"
    using assms(1) by (auto simp: postgresIndex_StageRelease_def split: prod.splits sum.splits)
  then show ?thesis
    using assms(2) release_rows_inv [where ks = ks] release_rows_view [where ks = ks]
    by (cases rule: exec_cases) (metis inv_faults view_faults prod.inject sum.inject(2))+
qed (use assms in \<open>auto simp: postgresIndex_StageRelease_def\<close>)


lemma unit_res: "(r :: unit res) = Inr () \<or> (\<exists>e. r = Inl e)"
  by (cases r) auto

lemma PutMany_effect:
  assumes "postgresIndex_PutMany recs d = (r, d')" "db_inv d"
  shows "db_inv d' \<and> all_or_nothing (put_view recs) r (db_view d) (db_view d')"
proof (cases "recs = []")
  case True
  with assms show ?thesis by (auto simp: postgresIndex_PutMany_def all_or_nothing_def put_view_def)
next
  case False
  then have "with_tx ''walrusds: index put-many begin: %w'' ''walrusds: index put-many commit: %w''
      (putManyTx recs) d = (r, d')"
    using assms(1) by (simp add: postgresIndex_PutMany_def)
  then show ?thesis
    by (rule with_tx_effect) (use assms(2) putManyTx_effect in auto)
qed

lemma StagePutMany_effect:
  assumes "postgresIndex_StagePutMany es d = (r, d')" "db_inv d"
  shows "db_inv d' \<and> all_or_nothing (stage_view es) r (db_view d) (db_view d')"
proof (cases "es = []")
  case True
  with assms show ?thesis by (auto simp: postgresIndex_StagePutMany_def all_or_nothing_def stage_view_def)
next
  case False
  then have "with_tx ''walrusds: stage put-many begin: %w'' ''walrusds: stage put-many commit: %w''
      (stagePutTx es) d = (r, d')"
    using assms(1) by (simp add: postgresIndex_StagePutMany_def)
  then show ?thesis
    by (rule with_tx_effect) (use assms(2) stagePutTx_effect in auto)
qed

lemma delete_view_Nil [simp]: "delete_view [] v = v"
  by (cases v) (simp add: delete_view_def restrict_map_def)

lemma DeleteMany_effect:
  assumes "postgresIndex_DeleteMany ks d = (r, d')" "db_inv d"
  shows "db_inv d' \<and> all_or_nothing (delete_view ks) r (db_view d) (db_view d')"
proof (cases "ks = []")
  case True
  with assms show ?thesis by (auto simp: postgresIndex_DeleteMany_def all_or_nothing_def)
next
  case False
  then have "with_tx ''walrusds: index delete-many begin: %w'' ''walrusds: index delete-many commit: %w''
      (delete_body ks) d = (r, d')"
    using assms(1) by (simp add: postgresIndex_DeleteMany_def)
  then show ?thesis
    by (rule with_tx_effect) (use assms(2) delete_body_effect in auto)
qed

lemma promote_view_Nil [simp]: "promote_view [] v = v"
  by (cases v) (simp add: promote_view_def restrict_map_def)

lemma PromoteStaged_effect:
  assumes "postgresIndex_PromoteStaged recs d = (r, d')" "db_inv d"
  shows "db_inv d' \<and> all_or_nothing (promote_view recs) r (db_view d) (db_view d')"
proof (cases "recs = []")
  case True
  with assms show ?thesis by (auto simp: postgresIndex_PromoteStaged_def all_or_nothing_def)
next
  case False
  then have "with_tx ''walrusds: promote begin: %w'' ''walrusds: promote commit: %w''
      (promote_body recs) d = (r, d')"
    using assms(1) by (simp add: postgresIndex_PromoteStaged_def)
  then show ?thesis
    by (rule with_tx_effect) (use assms(2) promote_body_effect in auto)
qed

text \<open>The three single-row probes are one \<open>QueryRow\<close> each.\<close>

lemma query_row_effect:
  assumes "(case exec (\<lambda>d. Inr (map_of (t d) key, d)) d of
        (Inr None, d') \<Rightarrow> (Inl ErrNotFound, d')
      | (Inl e, d') \<Rightarrow> (Inl (Wrapf f as e), d')
      | (Inr (Some w), d') \<Rightarrow> (Inr (g w), d')) = (r, d')"
    and "\<And>fs. t (d\<lparr>faults := fs\<rparr>) = t d" and "db_inv d"
  shows "db_inv d' \<and> db_view d' = db_view d \<and> probe_ok r (map_option g (map_of (t d) key))"
proof -
  obtain q d1 where ex: "exec (\<lambda>d. Inr (map_of (t d) key, d)) d = (q, d1)" by fastforce
  have q: "q = Inr (map_of (t d) key) \<or> (\<exists>e. q = Inl e)"
    using ex assms(2) by (cases rule: exec_cases) auto
  have "d' = d1" and "r = (case q of Inl e \<Rightarrow> Inl (Wrapf f as e) | Inr None \<Rightarrow> Inl ErrNotFound | Inr (Some w) \<Rightarrow> Inr (g w))"
    using assms(1) ex by (auto split: sum.splits option.splits)
  then show ?thesis
    using q pure_exec(1) [OF ex] assms(3)
    by (auto simp: probe_ok_def same_tables_inv same_tables_view split: option.splits)
qed

lemma query_row_healthy:
  assumes "db_healthy d"
  shows "(case exec (\<lambda>d. Inr (map_of (t d) key, d)) d of
        (Inr None, d') \<Rightarrow> (Inl ErrNotFound, d')
      | (Inl e, d') \<Rightarrow> (Inl (Wrapf f as e), d')
      | (Inr (Some w), d') \<Rightarrow> (Inr (g w), d')) = (probe_value (map_option g (map_of (t d) key)), d)"
  using assms by (auto simp: exec_healthy probe_value_def split: option.splits)

lemma size_probe:
  assumes "db_inv d"
  shows "map_option ssize (map_of (stg d) k) = map_option len64 (fst (db_view d) k)"
  using assms
  by (cases "map_of (stg d) k") (auto simp: db_view_def db_inv_def dest: map_of_SomeD)

lemma tx_healthy:
  "db_healthy d \<Longrightarrow> distinct (map fst recs) \<Longrightarrow>
    fst (postgresIndex_PutMany recs d) = Inr () \<and> db_healthy (snd (postgresIndex_PutMany recs d))"
  "db_healthy d \<Longrightarrow> distinct (map fst es) \<Longrightarrow>
    fst (postgresIndex_StagePutMany es d) = Inr () \<and> db_healthy (snd (postgresIndex_StagePutMany es d))"
  using putManyTx_healthy [of d recs] stagePutTx_healthy [of d es]
  by (auto simp: postgresIndex_PutMany_def postgresIndex_StagePutMany_def with_tx_healthy)

lemma DeleteMany_healthy:
  assumes "db_healthy d"
  shows "fst (postgresIndex_DeleteMany ks d) = Inr () \<and> db_healthy (snd (postgresIndex_DeleteMany ks d))"
proof -
  let ?d1 = "d\<lparr>tbl := delete_keys ks (tbl d)\<rparr>"
  have h: "db_healthy ?d1" "db_healthy (?d1\<lparr>stg := delete_keys ks (stg d)\<rparr>)"
    using assms by (simp_all add: db_healthy_def)
  then have "delete_body ks d = (Inr (), ?d1\<lparr>stg := delete_keys ks (stg d)\<rparr>)"
    using assms by (simp add: delete_body_def exec_healthy)
  with h assms show ?thesis by (simp add: postgresIndex_DeleteMany_def with_tx_healthy)
qed

lemma PromoteStaged_healthy:
  assumes "db_healthy d" "distinct (map fst recs)"
  shows "fst (postgresIndex_PromoteStaged recs d) = Inr ()
    \<and> db_healthy (snd (postgresIndex_PromoteStaged recs d))"
proof -
  let ?ks = "map fst recs"
  let ?d1 = "d\<lparr>stg := delete_keys ?ks (stg d)\<rparr>"
  let ?live = "filter (\<lambda>kr. fst kr \<in> set (filter (\<lambda>k. k \<in> set ?ks) (keys_of (stg d)))) recs"
  have h: "db_healthy ?d1" using assms(1) by (simp add: db_healthy_def)
  have "distinct (map fst ?live)" using assms(2) by (simp add: distinct_map_filter)
  then obtain d2 where d2: "(if length ?live > 0 then putManyTx ?live ?d1 else (Inr (), ?d1)) = (Inr (), d2)"
    "db_healthy d2"
    using putManyTx_healthy [OF h] h by (metis (no_types, lifting))
  have "promote_body recs d = (if length ?live > 0 then putManyTx ?live ?d1 else (Inr (), ?d1))"
    using assms(1) h by (simp add: promote_body_def exec_healthy fetch_healthy Let_def)
  with d2 have "promote_body recs d = (Inr (), d2)" by (simp only:)
  with d2 assms(1) show ?thesis by (simp add: postgresIndex_PromoteStaged_def with_tx_healthy)
qed

interpretation pgidx: durable_index "postgres_ops p" db_view db_claimable db_healthy db_inv for p
proof (unfold_locales, goal_cases)
  case (1 d recs r d')
  then show ?case by (simp add: postgres_ops_def PutMany_effect)
next
  case (2 d k rg d')
  then show ?case
    using query_row_effect [where t = tbl and g = rec_of_row and key = k and d = d and r = rg and d' = d']
    by (simp add: postgres_ops_def postgresIndex_Get_def db_view_def)
next
  case (3 d ks r d')
  then show ?case by (simp add: postgres_ops_def DeleteMany_effect)
next
  case (4 k d)
  then show ?case by (simp add: postgres_ops_def postgresIndex_Delete_def)
next
  case (5 d es r d')
  then show ?case by (simp add: postgres_ops_def StagePutMany_effect)
next
  case (6 d k sv d')
  then show ?case
    using query_row_effect [where t = stg and g = svalue and key = k and d = d and r = sv and d' = d']
    by (simp add: postgres_ops_def postgresIndex_StageGet_def db_view_def)
next
  case (7 d k sz d')
  then show ?case
    using query_row_effect [where t = stg and g = ssize and key = k and d = d and r = sz and d' = d'] size_probe [of d k]
    by (simp add: postgres_ops_def postgresIndex_StageGetSize_def)
next
  case (8 d st d')
  then show ?case
    using pure_exec(1) [of stats_of d]
    by (auto simp: postgres_ops_def postgresIndex_StageStats_def same_tables_inv same_tables_view
        split: prod.splits sum.splits)
next
  case (9 d maxCount maxB lease cl d')
  then show ?case using StageClaim_effect [of p maxCount maxB lease d cl d'] by (simp add: postgres_ops_def)
next
  case (10 d ks r d')
  then show ?case by (simp add: postgres_ops_def StageRelease_effect)
next
  case (11 d recs r d')
  then show ?case by (simp add: postgres_ops_def PromoteStaged_effect)
next
  case (12 d k)
  then show ?case
    by (simp add: postgres_ops_def postgresIndex_Get_def query_row_healthy [where t = tbl] db_view_def)
next
  case (13 d k)
  then show ?case
    by (simp add: postgres_ops_def postgresIndex_StageGet_def query_row_healthy [where t = stg] db_view_def)
next
  case (14 d k)
  then show ?case
    by (simp add: postgres_ops_def postgresIndex_StageGetSize_def query_row_healthy [where t = stg] size_probe)
next
  case (15 d es)
  then show ?case by (simp add: postgres_ops_def tx_healthy)
next
  case (16 d recs)
  then show ?case by (simp add: postgres_ops_def tx_healthy)
next
  case (17 d recs)
  then show ?case by (simp add: postgres_ops_def PromoteStaged_healthy)
next
  case (18 d ks)
  then show ?case by (simp add: postgres_ops_def DeleteMany_healthy)
qed

subsection \<open>Claims\<close>

lemma db_inv_size: "db_inv d \<Longrightarrow> (k, s) \<in> set (stg d) \<Longrightarrow> ssize s = len64 (svalue s)"
  by (auto simp: db_inv_def)

lemma db_inv_map_of: "db_inv d \<Longrightarrow> (k, s) \<in> set (stg d) \<Longrightarrow> map_of (stg d) k = Some s"
  by (simp add: db_inv_def map_of_Some_iff)

lemma claim_scan_take:
  assumes "\<forall>(k, sz)\<in>set rows. 0 \<le> sz"
  shows "\<exists>n\<le>length rows. claim_scan m ks tot rows = ks @ map fst (take n rows)
    \<and> (ks = [] \<longrightarrow> rows \<noteq> [] \<longrightarrow> 0 < n)
    \<and> (tot + (\<Sum>(k, sz)\<leftarrow>take n rows. sz) \<le> m \<or> length ks + n \<le> 1 \<or> n = 0)
    \<and> (n < length rows \<longrightarrow> m < tot + (\<Sum>(k, sz)\<leftarrow>take (Suc n) rows. sz))"
  using assms
proof (induction m ks tot rows rule: claim_scan.induct)
  case (1 m ks tot)
  then show ?case by simp
next
  case (2 m ks tot key sz rows)
  show ?case
  proof (cases "ks \<noteq> [] \<and> tot + sz > m")
    case True
    then show ?thesis by (intro exI [of _ 0]) simp
  next
    case False
    from 2 False obtain n where n: "n \<le> length rows"
      "claim_scan m (ks @ [key]) (tot + sz) rows = (ks @ [key]) @ map fst (take n rows)"
      "tot + sz + (\<Sum>(k, sz)\<leftarrow>take n rows. sz) \<le> m \<or> length (ks @ [key]) + n \<le> 1 \<or> n = 0"
      "n < length rows \<longrightarrow> m < tot + sz + (\<Sum>(k, sz)\<leftarrow>take (Suc n) rows. sz)"
      by auto
    have "tot + (\<Sum>(k, sz)\<leftarrow>take (Suc n) ((key, sz) # rows). sz) \<le> m \<or> length ks + Suc n \<le> 1"
      using n(3) False by (cases "n = 0") auto
    with n False show ?thesis by (intro exI [of _ "Suc n"]) (auto simp: add.assoc)
  qed
qed

lemma claim_le_preorder: "total_preorder (collate g) \<Longrightarrow> total_preorder (claim_le g)"
  unfolding total_preorder_def claim_le_def by (metis (no_types, opaque_lifting) linorder_less_linear order.strict_trans)

lemma StageClaim_healthy:
  assumes "db_healthy d" "0 < maxCount" "0 < maxB" "interval_in (pg p) lease = Some iv"
  defines "keys \<equiv> claim_scan maxB [] 0 (claim_candidates (pg p) maxCount d)"
  defines "hit \<equiv> \<lambda>k s. k \<in> set keys \<and> row_claimable (db_now d) s"
  shows "postgresIndex_StageClaim p maxCount maxB lease d =
     (Inr (map (\<lambda>(k, s). (k, svalue s)) (filter (\<lambda>(k, s). hit k s) (stg d))),
      d\<lparr>stg := map (\<lambda>(k, s). (k, if hit k s then s\<lparr>leased_until := Some (db_now d + iv)\<rparr> else s)) (stg d)\<rparr>)"
proof -
  let ?d' = "d\<lparr>stg := map (\<lambda>(k, s). (k, if hit k s then s\<lparr>leased_until := Some (db_now d + iv)\<rparr> else s)) (stg d)\<rparr>"
  have sel: "stageClaim_select p maxCount maxB d = (Inr keys, d)"
    using assms(1) by (simp add: stageClaim_select_def exec_healthy fetch_healthy keys_def)
  have h: "db_healthy ?d'" using assms(1) by (simp add: db_healthy_def)
  show ?thesis
  proof (cases "keys = []")
    case True
    then have "\<not> hit k s" for k s by (simp add: hit_def)
    with True sel assms(2,3) show ?thesis by (simp add: postgresIndex_StageClaim_def)
  next
    case False
    then have "stageClaim_lease p keys lease d =
        (Inr (map (\<lambda>(k, s). (k, svalue s)) (filter (\<lambda>(k, s). hit k s) (stg d))), ?d')"
      using assms(1,4) h
      by (simp add: stageClaim_lease_def exec_healthy lease_stmt_def fetch_healthy hit_def Let_def)
    with False sel assms(2,3) show ?thesis by (simp add: postgresIndex_StageClaim_def)
  qed
qed

text \<open>The keys a claim on a healthy database takes, as a prefix of the FIFO order.\<close>

lemma claim_keys_prefix:
  fixes p maxB maxCount d
  assumes "db_inv d"
  defines "q \<equiv> sort_by (claim_le (pg p)) (claimable_rows d)"
  defines "keys \<equiv> claim_scan maxB [] 0 (claim_candidates (pg p) maxCount d)"
  shows "\<exists>n. keys = map fst (take n q) \<and> n \<le> length q \<and> n \<le> nat maxCount
    \<and> (claimable_rows d \<noteq> [] \<longrightarrow> 0 < maxCount \<longrightarrow> 0 < n)
    \<and> ((\<Sum>(k, s)\<leftarrow>take n q. ssize s) \<le> maxB \<or> n = 1 \<or> n = 0)
    \<and> (n < length q \<longrightarrow> n < nat maxCount \<longrightarrow> maxB < (\<Sum>(k, s)\<leftarrow>take (Suc n) q. ssize s))"
proof -
  let ?f = "\<lambda>(k, s). (k, ssize s)"
  let ?rows = "map ?f (take (nat maxCount) q)"
  have "\<forall>(k, sz)\<in>set ?rows. 0 \<le> sz"
    using assms(1) by (auto simp: q_def claimable_rows_def db_inv_size dest!: in_set_takeD)
  from claim_scan_take [OF this, of maxB "[]" 0]
  obtain n where n: "n \<le> length ?rows" "keys = map fst (take n ?rows)" "?rows \<noteq> [] \<longrightarrow> 0 < n"
    "(\<Sum>(k, sz)\<leftarrow>take n ?rows. sz) \<le> maxB \<or> n \<le> 1 \<or> n = 0"
    "n < length ?rows \<longrightarrow> maxB < (\<Sum>(k, sz)\<leftarrow>take (Suc n) ?rows. sz)"
    unfolding keys_def claim_candidates_def q_def by auto
  have len: "n \<le> length q" "n \<le> nat maxCount" using n(1) by auto
  have tk: "take j ?rows = map ?f (take j q)" if "j \<le> nat maxCount" for j
    using that by (simp add: take_map min_def)
  have "keys = map fst (take n q)" using n(2) tk [OF len(2)] by (simp add: case_prod_unfold comp_def)
  moreover have "?rows \<noteq> [] \<longleftrightarrow> claimable_rows d \<noteq> [] \<and> 0 < maxCount"
    by (metis (no_types, lifting) length_0_conv length_sort_by map_is_Nil_conv nat_0_iff not_le q_def take_eq_Nil)
  ultimately show ?thesis
    using n(3,4,5) len tk by (intro exI [of _ n]) (auto simp: case_prod_unfold comp_def)
qed

subsection \<open>Listing\<close>

text \<open>A pattern without wildcards matches itself only; a trailing \<open>%\<close> matches every continuation.\<close>

definition plain_pattern :: "string \<Rightarrow> bool" where
  "plain_pattern ps \<longleftrightarrow> CHR ''%'' \<notin> set ps \<and> CHR ''_'' \<notin> set ps \<and> CHR 0x5C \<notin> set ps"

lemma sql_like_percent: "sql_like [CHR ''%''] s"
  by (induction s) auto

lemma sql_like_prefix:
  "plain_pattern ps \<Longrightarrow> sql_like (ps @ [CHR ''%'']) s \<longleftrightarrow> (\<exists>rest. s = ps @ rest)"
proof (induction ps arbitrary: s)
  case Nil
  then show ?case by (simp add: sql_like_percent)
next
  case (Cons p ps)
  then show ?case by (cases s) (auto simp: plain_pattern_def)
qed

lemma list_matches_plain:
  assumes "plain_pattern prefix" "prefix \<noteq> []" "prefix \<noteq> ''/''"
  shows "list_matches prefix k \<longleftrightarrow> k = prefix \<or> (\<exists>rest. k = prefix @ ''/'' @ rest)"
  using assms sql_like_prefix [of "prefix @ ''/''" k]
  by (auto simp: list_matches_def plain_pattern_def)

lemma fst_list_union:
  "fst ` set (list_union prefix d) =
    {k. list_matches prefix k \<and> (fst (db_view d) k \<noteq> None \<or> snd (db_view d) k \<noteq> None)}"
proof -
  have "fst ` set (list_union prefix d) =
      {k \<in> fst ` set (tbl d). list_matches prefix k} \<union> {k \<in> fst ` set (stg d). list_matches prefix k}"
    by (force simp: list_union_def)
  also have "\<dots> = {k. list_matches prefix k \<and> (map_of (stg d) k \<noteq> None \<or> map_of (tbl d) k \<noteq> None)}"
    using dom_map_of_conv_image_fst [of "tbl d"] dom_map_of_conv_image_fst [of "stg d"] by blast
  finally show ?thesis by (simp add: db_view_def)
qed

text \<open>The sizes of a key that is in both tables agree.\<close>

definition sizes_agree :: "db \<Rightarrow> bool" where
  "sizes_agree d \<longleftrightarrow>
     (\<forall>(k, w)\<in>set (tbl d). case map_of (stg d) k of None \<Rightarrow> True | Some s \<Rightarrow> row_size w = ssize s)"

lemma list_union_mem:
  assumes "db_inv d" "(k, n) \<in> set (list_union prefix d)"
  shows "(\<exists>w. map_of (tbl d) k = Some w \<and> n = row_size w) \<or> (\<exists>s. map_of (stg d) k = Some s \<and> n = ssize s)"
proof -
  have "(\<exists>w. (k, w) \<in> set (tbl d) \<and> n = row_size w) \<or> (\<exists>s. (k, s) \<in> set (stg d) \<and> n = ssize s)"
    using assms(2) by (auto simp: list_union_def)
  then show ?thesis using assms(1) by (metis db_inv_def map_of_Some_iff)
qed

lemma list_union_distinct:
  assumes "db_inv d" "sizes_agree d"
  shows "distinct (map fst (list_union prefix d))"
proof -
  have agree: "row_size w = ssize s" if "map_of (tbl d) k = Some w" "map_of (stg d) k = Some s" for k w s
    using assms(2) map_of_SomeD [OF that(1)] that(2) by (fastforce simp: sizes_agree_def)
  have "n = n'" if "(k, n) \<in> set (list_union prefix d)" "(k, n') \<in> set (list_union prefix d)" for k n n'
    using list_union_mem [OF assms(1) that(1)] list_union_mem [OF assms(1) that(2)] agree
    by (metis option.inject)
  then have "inj_on fst (set (list_union prefix d))" by (auto simp: inj_on_def)
  then show ?thesis by (simp add: distinct_map list_union_def)
qed

lemma List_healthy:
  assumes "db_healthy d"
  shows "postgresIndex_List p prefix limit offset d =
    (Inr (page limit offset (sort_by (\<lambda>a b. collate (pg p) (fst a) (fst b)) (list_union prefix d))), d)"
  using assms by (simp add: postgresIndex_List_def exec_healthy fetch_healthy)

subsection \<open>Renewal queries\<close>

lemma fold_min_le: "fold (\<lambda>(_, t) m. min t m) xs (a::int) \<le> a
    \<and> (\<forall>(b, t)\<in>set xs. fold (\<lambda>(_, t) m. min t m) xs a \<le> t)
    \<and> (fold (\<lambda>(_, t) m. min t m) xs a = a \<or> (\<exists>b. (b, fold (\<lambda>(_, t) m. min t m) xs a) \<in> set xs))"
proof (induction xs arbitrary: a)
  case (Cons x xs)
  obtain b t where x: "x = (b, t)" by (cases x)
  from Cons.IH [of "min t a"] show ?case
    by (auto simp: x min_def split: if_splits)
qed simp

lemma group_min_least:
  assumes "(b, t) \<in> set rows"
  shows "group_min rows b \<le> t" and "(b, group_min rows b) \<in> set rows"
proof -
  obtain x xs where f: "filter (\<lambda>(b', _). b' = b) rows = x # xs"
    using assms by (cases "filter (\<lambda>(b', _). b' = b) rows") (auto simp: filter_empty_conv)
  have sub: "set (x # xs) \<subseteq> set rows" "\<forall>y\<in>set (x # xs). fst y = b" "(b, t) \<in> set (x # xs)"
    using assms unfolding f [symmetric] by auto
  have g: "group_min rows b = fold (\<lambda>(_, t) m. min t m) xs (snd x)" by (simp add: group_min_def f)
  show "group_min rows b \<le> t"
    unfolding g using fold_min_le [of xs "snd x"] sub(3) by auto
  show "(b, group_min rows b) \<in> set rows"
    unfolding g using fold_min_le [of xs "snd x"] sub(1,2)
    by (metis (no_types, lifting) fst_conv insertI1 insertI2 list.set(2) prod.collapse subsetD)
qed

lemma due_rows_iff:
  "(b, t) \<in> set (due_rows before d) \<longleftrightarrow>
    (\<exists>k w. (k, w) \<in> set (tbl d) \<and> blob_id w = b \<and> expires_at w = Some t \<and> t \<le> before)"
  by (force simp: due_rows_def List.map_filter_def split: option.splits if_splits)

lemma DueForRenewal_healthy:
  assumes "db_healthy d"
  shows "postgresIndex_DueForRenewal before limit d =
    (Inr (take (nat limit) (sort_by (\<lambda>a b. group_min (due_rows before d) a \<le> group_min (due_rows before d) b)
        (remdups (map fst (due_rows before d))))), d)"
  using assms by (simp add: postgresIndex_DueForRenewal_def exec_healthy fetch_healthy Let_def)

lemma rec_of_renewed_row:
  "rec_of_row (w\<lparr>blob_id := nb, object_id := no, encoded_size := en, cost := int64_of_uint64 c,
      end_epoch := int64_of_uint64 ep, expires_at := ex, updated_at := t\<rparr>) =
    (rec_of_row w)\<lparr>rBlobID := nb, rObjectID := no, rEncodedSize := en, rCost := c, rEndEpoch := ep,
      rExpiresAt := ex\<rparr>"
  by (simp add: rec_of_row_def)

lemma UpdateBlob_effect:
  assumes "postgresIndex_UpdateBlobAfterRenewal ob nb no en c ep ex d = (r, d')" "db_inv d"
  shows "db_inv d' \<and> all_or_nothing (renew_view ob nb no en c ep ex) r (db_view d) (db_view d')"
proof -
  define u where "u d = d\<lparr>tbl := map (\<lambda>(k, w). (k,
              if blob_id w = ob
              then w\<lparr>blob_id := nb, object_id := no, encoded_size := en,
                     cost := int64_of_uint64 c, end_epoch := int64_of_uint64 ep,
                     expires_at := ex, updated_at := db_now d\<rparr>
              else w)) (tbl d)\<rparr>" for d :: db
  obtain q where ex: "exec (\<lambda>d. Inr ((), u d)) d = (q, d')" and r: "r = Inr () \<longleftrightarrow> q = Inr ()"
    using assms(1) unfolding postgresIndex_UpdateBlobAfterRenewal_def u_def
    by (auto split: prod.splits sum.splits)
  have blob: "rBlobID (rec_of_row w) = blob_id w" for w by (simp add: rec_of_row_def)
  have u: "db_inv (u x) \<and> db_view (u x) = renew_view ob nb no en c ep ex (db_view x)" if "db_inv x" for x
    using that unfolding u_def db_inv_def db_view_def renew_view_def
    by (auto simp: map_of_map_val fun_eq_iff option.map_comp comp_def rec_of_renewed_row blob
        intro!: option.map_cong)
  from ex r u assms(2) show ?thesis
    by (cases rule: exec_cases) (auto simp: all_or_nothing_def split: sum.split)
qed

text \<open>A select followed by a scan of its rows changes no table.\<close>

lemma select_fetch_same:
  assumes "(case exec (\<lambda>d. Inr (q d, d)) d of (Inl e, d1) \<Rightarrow> (Inl (f e), d1) | (Inr rows, d1) \<Rightarrow> fetch g h rows d1)
    = (r, d')"
  shows "same_tables d d'"
proof -
  obtain x d1 where ex: "exec (\<lambda>d. Inr (q d, d)) d = (x, d1)" by fastforce
  have s1: "same_tables d d1" using pure_exec(1) [of q d] ex by simp
  show ?thesis
  proof (cases x)
    case (Inl e)
    then show ?thesis using assms ex s1 by simp
  next
    case (Inr rows)
    then have "fetch g h rows d1 = (r, d')" using assms ex by simp
    then have "same_tables d1 d'" by (cases rule: fetch_cases) auto
    then show ?thesis using s1 same_tables_trans by blast
  qed
qed

interpretation pgren: renewable_index "postgres_ops p" db_view db_claimable db_healthy db_inv for p
proof (unfold_locales, goal_cases)
  case (1 d ob nb no en c ep ex r d')
  then show ?case using UpdateBlob_effect [of ob nb no en c ep ex d r d'] by (simp add: postgres_ops_def)
next
  case (2 d before limit rr d')
  then have "same_tables d d'"
    by (intro select_fetch_same) (simp add: postgres_ops_def postgresIndex_DueForRenewal_def Let_def)
  then show ?case using 2 same_tables_inv same_tables_view by simp
next
  case (3 d pfx limit offset rl d')
  then have "same_tables d d'"
    by (intro select_fetch_same) (simp add: postgres_ops_def postgresIndex_List_def)
  then show ?case using 3 same_tables_inv same_tables_view by simp
qed

text \<open>The outcome of a lease on a set of claimable keys.\<close>

definition leased_entries :: "db \<Rightarrow> ds_key list \<Rightarrow> StageEntry list" where
  "leased_entries d keys = map (\<lambda>(k, s). (k, svalue s))
     (filter (\<lambda>(k, s). k \<in> set keys \<and> row_claimable (db_now d) s) (stg d))"

definition leased_db :: "db \<Rightarrow> ds_key list \<Rightarrow> duration \<Rightarrow> db" where
  "leased_db d keys iv = d\<lparr>stg := map (\<lambda>(k, s). (k, if k \<in> set keys \<and> row_claimable (db_now d) s
     then s\<lparr>leased_until := Some (db_now d + iv)\<rparr> else s)) (stg d)\<rparr>"

lemma leased_facts:
  assumes "db_inv d" "set keys \<subseteq> fst ` set (claimable_rows d)"
  shows "fst ` set (leased_entries d keys) = set keys"
    and "\<forall>(k, v)\<in>set (leased_entries d keys). fst (db_view d) k = Some v"
    and "\<forall>k\<in>set keys. \<forall>t. db_claimable ((leased_db d keys iv)\<lparr>db_now := t\<rparr>) k \<longleftrightarrow> db_now d + iv < t"
    and "\<forall>k. k \<notin> set keys \<longrightarrow> map_of (stg (leased_db d keys iv)) k = map_of (stg d) k"
proof -
  have row: "\<exists>s. (k, s) \<in> set (stg d) \<and> map_of (stg d) k = Some s \<and> row_claimable (db_now d) s"
    if "k \<in> set keys" for k
    using that assms(2) db_inv_map_of [OF assms(1)] by (fastforce simp: claimable_rows_def)
  show "fst ` set (leased_entries d keys) = set keys"
    using row by (force simp: leased_entries_def)
  show "\<forall>(k, v)\<in>set (leased_entries d keys). fst (db_view d) k = Some v"
    using db_inv_map_of [OF assms(1)] by (auto simp: leased_entries_def db_view_def)
  have lk: "map_of (stg (leased_db d keys iv)) k = map_option (\<lambda>s. if k \<in> set keys \<and> row_claimable (db_now d) s
      then s\<lparr>leased_until := Some (db_now d + iv)\<rparr> else s) (map_of (stg d) k)" for k
    by (simp add: leased_db_def map_of_map_val)
  show "\<forall>k\<in>set keys. \<forall>t. db_claimable ((leased_db d keys iv)\<lparr>db_now := t\<rparr>) k \<longleftrightarrow> db_now d + iv < t"
  proof (intro ballI allI)
    fix k t assume k: "k \<in> set keys"
    from row [OF k] obtain s where "map_of (stg d) k = Some s" "row_claimable (db_now d) s" by blast
    with k lk [of k] show "db_claimable ((leased_db d keys iv)\<lparr>db_now := t\<rparr>) k \<longleftrightarrow> db_now d + iv < t"
      by (simp add: db_claimable_def row_claimable_def)
  qed
  show "\<forall>k. k \<notin> set keys \<longrightarrow> map_of (stg (leased_db d keys iv)) k = map_of (stg d) k"
    unfolding lk by (auto split: option.split simp: option.map_ident)
qed

lemma StageClaim_claimed:
  assumes "db_inv d" "db_healthy d" "0 < maxCount" "0 < maxB" "interval_in (pg p) lease = Some iv"
    and "postgresIndex_StageClaim p maxCount maxB lease d = (Inr es, d')" "k \<in> fst ` set es"
  shows "db_claimable (d'\<lparr>db_now := t\<rparr>) k \<longleftrightarrow> db_now d + iv < t"
proof -
  define keys where "keys = claim_scan maxB [] 0 (claim_candidates (pg p) maxCount d)"
  have sub: "set keys \<subseteq> fst ` set (claimable_rows d)"
    using claim_scan_subset [of maxB "[]" 0 "claim_candidates (pg p) maxCount d"]
    by (force simp: keys_def claim_candidates_def dest!: in_set_takeD)
  have "es = leased_entries d keys" "d' = leased_db d keys iv"
    using StageClaim_healthy [OF assms(2-5)] assms(6) by (simp_all add: keys_def leased_entries_def leased_db_def)
  with leased_facts(1,3) [OF assms(1) sub] assms(7) show ?thesis by simp
qed

subsection \<open>What the flusher relies on\<close>

lemma exec_calm:
  assumes "db_healthy d" "\<And>a d'. st d = Inr (a, d') \<Longrightarrow> faults d' = faults d" "exec st d = (r, d')"
  shows "db_healthy d'"
  using assms by (auto simp: exec_healthy db_healthy_def split: sum.splits)

lemma putManyTx_calm: "db_healthy d \<Longrightarrow> db_healthy (snd (putManyTx recs d))"
proof (induction recs d rule: putManyTx.induct)
  case (1 recs d)
  obtain r d1 where e: "exec (upsert_chunk (take putManyChunk recs)) d = (r, d1)" by fastforce
  have "db_healthy d1" by (rule exec_calm [OF 1(2) _ e]) (auto simp: upsert_chunk_def split: if_splits)
  then show ?case using 1 e by (subst putManyTx.simps) (auto split: sum.splits)
qed

lemma with_tx_calm:
  assumes "db_healthy d" "\<And>d1. db_healthy d1 \<Longrightarrow> db_healthy (snd (body d1))"
  shows "db_healthy (snd (with_tx b c body d))"
proof -
  obtain r d2 where "body d = (r, d2)" "db_healthy d2" using assms by (metis prod.collapse)
  then show ?thesis
    using assms(1) by (auto simp: with_tx_def exec_healthy commit_tx_def take_fault_healthy rollback_def db_healthy_def
        split: sum.splits)
qed

lemma PromoteStaged_calm: "db_healthy d \<Longrightarrow> db_healthy (snd (postgresIndex_PromoteStaged recs d))"
proof -
  have "db_healthy (snd (promote_body recs d1))" if h: "db_healthy d1" for d1
  proof -
    have h1: "db_healthy (d1\<lparr>stg := delete_keys (map fst recs) (stg d1)\<rparr>)" using h by (simp add: db_healthy_def)
    then show ?thesis
      using h putManyTx_calm [OF h1] by (simp add: promote_body_def Let_def exec_healthy fetch_healthy)
  qed
  then show "db_healthy d \<Longrightarrow> db_healthy (snd (postgresIndex_PromoteStaged recs d))"
    unfolding postgresIndex_PromoteStaged_def by (auto intro: with_tx_calm)
qed

lemma no_claimable_rows: "db_inv d \<Longrightarrow> claimable_rows d = [] \<longleftrightarrow> (\<forall>k. \<not> db_claimable d k)"
proof -
  assume i: "db_inv d"
  have "db_claimable d k \<longleftrightarrow> k \<in> fst ` set (claimable_rows d)" for k
    using db_inv_map_of [OF i]
    by (force simp: db_claimable_def claimable_rows_def split: option.split dest: map_of_SomeD)
  then show "claimable_rows d = [] \<longleftrightarrow> (\<forall>k. \<not> db_claimable d k)" by (cases "claimable_rows d") auto
qed

lemma StageClaim_live:
  assumes "db_inv d" "db_healthy d" "0 < n" "0 < b" "interval_in (pg p) lease \<noteq> None"
  shows "\<exists>es d'. postgresIndex_StageClaim p n b lease d = (Inr es, d') \<and> db_healthy d'
    \<and> (es = [] \<longrightarrow> d' = d \<and> (\<forall>k. \<not> db_claimable d k))"
proof -
  obtain iv where iv: "interval_in (pg p) lease = Some iv" using assms(5) by blast
  define keys where "keys = claim_scan b [] 0 (claim_candidates (pg p) n d)"
  obtain i where i: "keys = map fst (take i (sort_by (claim_le (pg p)) (claimable_rows d)))"
    "i \<le> length (claimable_rows d)" "claimable_rows d \<noteq> [] \<longrightarrow> 0 < i"
    using claim_keys_prefix [OF assms(1), where p = p and maxB = b and maxCount = n] assms(3)
    unfolding keys_def by auto
  have sub: "set keys \<subseteq> fst ` set (claimable_rows d)" unfolding i(1) by (auto dest!: in_set_takeD)
  have run: "postgresIndex_StageClaim p n b lease d = (Inr (leased_entries d keys), leased_db d keys iv)"
    using StageClaim_healthy [OF assms(2-4) iv] by (simp add: keys_def leased_entries_def leased_db_def)
  have h: "db_healthy (leased_db d keys iv)" using assms(2) by (simp add: leased_db_def db_healthy_def)
  have "leased_db d keys iv = d \<and> (\<forall>k. \<not> db_claimable d k)" if "leased_entries d keys = []"
  proof -
    have k: "keys = []" using leased_facts(1) [OF assms(1) sub] that by simp
    then have "i = 0 \<or> length (sort_by (claim_le (pg p)) (claimable_rows d)) = 0" using i(1) by simp
    then have "claimable_rows d = []" using i(3) by auto
    then show ?thesis using k no_claimable_rows [OF assms(1)] by (simp add: leased_db_def case_prod_unfold)
  qed
  then show ?thesis using run h by blast
qed

interpretation pgflush: flushable_index "postgres_ops p" db_view db_claimable db_healthy db_inv
    "\<lambda>lease. interval_in (pg p) lease \<noteq> None" for p
proof (unfold_locales, goal_cases)
  case (1 d)
  have "dom (fst (db_view d)) = fst ` set (stg d)" by (simp add: db_view_def dom_map_option dom_map_of_conv_image_fst)
  then show ?case by simp
next
  case (2 d)
  have "postgresIndex_StageStats d = (Inr (stats_of d), d)"
    using 2(2) by (simp add: postgresIndex_StageStats_def exec_healthy)
  then show ?case using no_claimable_rows [OF 2(1)] by (auto simp: postgres_ops_def stats_of_def)
next
  case (3 d n b lease)
  then show ?case using StageClaim_live [of d n b p lease] by (simp add: postgres_ops_def)
next
  case (4 d recs)
  then show ?case using PromoteStaged_calm by (simp add: postgres_ops_def)
next
  case (5 d ks)
  then show ?case by (auto simp: postgres_ops_def postgresIndex_StageRelease_def exec_healthy db_healthy_def)
qed

subsection \<open>A concrete database\<close>

text \<open>The \<open>C\<close> collation (byte order), an interval reader that takes a duration in nanoseconds, and a small database.\<close>

fun c_collate :: "string \<Rightarrow> string \<Rightarrow> bool" where
  "c_collate [] ys = True"
| "c_collate (x # xs) [] = False"
| "c_collate (x # xs) (y # ys) = ((of_char x :: nat) < of_char y \<or> (x = y \<and> c_collate xs ys))"

lemma c_collate_total: "c_collate x y \<or> c_collate y x"
proof (induction x y rule: c_collate.induct)
  case (3 x xs y ys)
  then show ?case by (metis c_collate.simps(3) linorder_neqE_nat of_char_eq_iff)
qed auto

lemma c_collate_trans: "c_collate x y \<Longrightarrow> c_collate y z \<Longrightarrow> c_collate x z"
proof (induction x y arbitrary: z rule: c_collate.induct)
  case (3 x xs y ys)
  then show ?case by (cases z) (auto dest: less_trans)
qed auto

lemma c_collate_preorder: "total_preorder c_collate"
  unfolding total_preorder_def using c_collate_total c_collate_trans by blast

definition sample_pg :: postgresIndex where
  "sample_pg = \<lparr>table = ''walrus_index'', pg = \<lparr>collate = c_collate, interval_in = Some\<rparr>\<rparr>"

definition sample_db :: db where
  "sample_db = \<lparr>tbl = [], stg = [(''/a'', stage_row 10 ''xyz''), (''/b'', stage_row 5 ''pq'')],
     db_now = 100, faults = []\<rparr>"

definition sample_rec :: IndexRecord where
  "sample_rec = \<lparr>rBlobID = ''B1'', rObjectID = ''O1'', rPatchID = [], rOffset = 0, rSize = 3,
     rEncodedSize = 66034000, rCost = 18446744073709551615, rDeletable = False, rEndEpoch = 53,
     rExpiresAt = Some 500\<rparr>"

lemma sample_db_inv: "db_inv sample_db" and sample_db_healthy: "db_healthy sample_db"
  by (simp_all add: sample_db_def db_inv_def db_healthy_def keys_of_def stage_row_def)

subsection \<open>Properties\<close>

text \<open>
  C22. Whatever round trips fail, each transactional method of \<open>postgresIndex\<close> is atomic: the tables
  keep their primary keys and sizes, success means the whole effect happened, and an error means
  nothing happened or (acknowledgement of the commit lost) everything did.
\<close>

theorem postgres_writes_atomic:
  assumes "db_inv d"
  shows "db_inv (snd (postgresIndex_PutMany recs d))
      \<and> all_or_nothing (put_view recs) (fst (postgresIndex_PutMany recs d))
          (db_view d) (db_view (snd (postgresIndex_PutMany recs d)))
    \<and> db_inv (snd (postgresIndex_StagePutMany es d))
      \<and> all_or_nothing (stage_view es) (fst (postgresIndex_StagePutMany es d))
          (db_view d) (db_view (snd (postgresIndex_StagePutMany es d)))
    \<and> db_inv (snd (postgresIndex_DeleteMany ks d))
      \<and> all_or_nothing (delete_view ks) (fst (postgresIndex_DeleteMany ks d))
          (db_view d) (db_view (snd (postgresIndex_DeleteMany ks d)))
    \<and> db_inv (snd (postgresIndex_PromoteStaged recs d))
      \<and> all_or_nothing (promote_view recs) (fst (postgresIndex_PromoteStaged recs d))
          (db_view d) (db_view (snd (postgresIndex_PromoteStaged recs d)))"
  using PutMany_effect [OF prod.collapse [symmetric] assms, of recs]
    StagePutMany_effect [OF prod.collapse [symmetric] assms, of es]
    DeleteMany_effect [OF prod.collapse [symmetric] assms, of ks]
    PromoteStaged_effect [OF prod.collapse [symmetric] assms, of recs] by blast

theorem postgres_writes_atomic_witness:
  "all_or_nothing (stage_view [(''/c'', ''z'')])
     (fst (postgresIndex_StagePutMany [(''/c'', ''z'')] (sample_db\<lparr>faults := [NoFault, NoFault, Unacked ''eof'']\<rparr>)))
     (db_view sample_db)
     (db_view (snd (postgresIndex_StagePutMany [(''/c'', ''z'')] (sample_db\<lparr>faults := [NoFault, NoFault, Unacked ''eof'']\<rparr>))))"
  using postgres_writes_atomic [of "sample_db\<lparr>faults := [NoFault, NoFault, Unacked ''eof'']\<rparr>" "[]" "[(''/c'', ''z'')]" "[]"]
    sample_db_inv by simp

text \<open>
  C23. A record written by \<open>PutMany\<close> on a database without failures is read back unchanged by \<open>Get\<close>,
  the unsigned cost and end epoch included although they are stored in signed columns.
\<close>

theorem PutMany_Get_roundtrip:
  assumes "db_inv d" and "db_healthy d" and "distinct (map fst recs)" and "(k, r) \<in> set recs"
  shows "fst (postgresIndex_Get k (snd (postgresIndex_PutMany recs d))) = Inr r"
proof -
  let ?d' = "snd (postgresIndex_PutMany recs d)"
  have ok: "fst (postgresIndex_PutMany recs d) = Inr ()" "db_healthy ?d'"
    using tx_healthy(1) [OF assms(2,3)] by auto
  have eff: "db_inv ?d' \<and> db_view ?d' = put_view recs (db_view d)"
    using PutMany_effect [OF prod.collapse [symmetric] assms(1), of recs] ok
    by (simp add: all_or_nothing_def)
  have "snd (db_view ?d') k = Some r"
    using eff upd_all_in [OF assms(3,4)] by (simp add: put_view_def)
  moreover have "fst (postgresIndex_Get k ?d') = probe_value (snd (db_view ?d') k)"
    using pgidx.healthy_Get [where d = ?d' and k = k] eff ok(2) by (simp add: postgres_ops_def)
  ultimately show ?thesis by (simp add: probe_value_def)
qed

theorem PutMany_Get_roundtrip_witness:
  "fst (postgresIndex_Get ''/a'' (snd (postgresIndex_PutMany [(''/a'', sample_rec)] sample_db))) = Inr sample_rec
   \<and> rCost sample_rec = 18446744073709551615"
  using PutMany_Get_roundtrip [OF sample_db_inv sample_db_healthy, of "[(''/a'', sample_rec)]" "''/a''" sample_rec]
  by (simp add: sample_rec_def)

text \<open>
  C24. On a database without failures \<open>StageClaim\<close> leases a prefix of the claimable rows in FIFO order
  (creation time, then key): at least one row when any is claimable, never more than \<open>maxCount\<close>, within
  \<open>maxBytes\<close> unless it is a single row, and as many as fit. It returns their bytes; a claimed row
  becomes claimable again exactly when the clock passes the lease, the other rows are untouched.
\<close>

theorem StageClaim_fifo:
  assumes "db_inv d" and "db_healthy d" and "0 < maxCount" and "0 < maxB"
    and "interval_in (pg p) lease = Some iv"
  shows "\<exists>es d' n. postgresIndex_StageClaim p maxCount maxB lease d = (Inr es, d')
    \<and> fst ` set es = fst ` set (take n (sort_by (claim_le (pg p)) (claimable_rows d)))
    \<and> (\<forall>(k, v)\<in>set es. fst (db_view d) k = Some v)
    \<and> n \<le> nat maxCount \<and> (claimable_rows d \<noteq> [] \<longrightarrow> es \<noteq> [])
    \<and> ((\<Sum>(k, s)\<leftarrow>take n (sort_by (claim_le (pg p)) (claimable_rows d)). ssize s) \<le> maxB \<or> n \<le> 1)
    \<and> (n < length (claimable_rows d) \<longrightarrow> n < nat maxCount \<longrightarrow>
         maxB < (\<Sum>(k, s)\<leftarrow>take (Suc n) (sort_by (claim_le (pg p)) (claimable_rows d)). ssize s))
    \<and> (\<forall>k\<in>fst ` set es. \<forall>t. db_claimable (d'\<lparr>db_now := t\<rparr>) k \<longleftrightarrow> db_now d + iv < t)
    \<and> (\<forall>k. k \<notin> fst ` set es \<longrightarrow> map_of (stg d') k = map_of (stg d) k)"
proof -
  let ?q = "sort_by (claim_le (pg p)) (claimable_rows d)"
  define keys where "keys = claim_scan maxB [] 0 (claim_candidates (pg p) maxCount d)"
  obtain n where n: "keys = map fst (take n ?q)" "n \<le> length ?q" "n \<le> nat maxCount"
    "claimable_rows d \<noteq> [] \<longrightarrow> 0 < n"
    "(\<Sum>(k, s)\<leftarrow>take n ?q. ssize s) \<le> maxB \<or> n \<le> 1"
    "n < length ?q \<longrightarrow> n < nat maxCount \<longrightarrow> maxB < (\<Sum>(k, s)\<leftarrow>take (Suc n) ?q. ssize s)"
    using claim_keys_prefix [OF assms(1), where p = p and maxB = maxB and maxCount = maxCount] assms(3)
    unfolding keys_def by auto
  have sub: "set keys \<subseteq> fst ` set (claimable_rows d)"
    unfolding n(1) by (auto dest!: in_set_takeD)
  obtain es d' where run: "postgresIndex_StageClaim p maxCount maxB lease d = (Inr es, d')"
    and es: "es = leased_entries d keys" and d': "d' = leased_db d keys iv"
    using StageClaim_healthy [OF assms(2-5)] by (simp add: keys_def leased_entries_def leased_db_def)
  note facts = leased_facts(1,2) [OF assms(1) sub, folded es] leased_facts(3,4) [OF assms(1) sub, of iv, folded d']
  have "claimable_rows d \<noteq> [] \<longrightarrow> es \<noteq> []"
    using n(1,2,4) facts(1) by (cases "take n ?q") auto
  then show ?thesis
    using run n facts by (intro exI [of _ es] exI [of _ d'] exI [of _ n]) simp
qed

theorem StageClaim_fifo_witness:
  "\<exists>es d'. postgresIndex_StageClaim sample_pg 1 4 900 sample_db = (Inr es, d') \<and> es \<noteq> []
     \<and> (\<forall>k\<in>fst ` set es. db_claimable (d'\<lparr>db_now := 1001\<rparr>) k \<and> \<not> db_claimable (d'\<lparr>db_now := 1000\<rparr>) k)"
proof -
  have "claimable_rows sample_db \<noteq> []"
    by (simp add: claimable_rows_def sample_db_def stage_row_def row_claimable_def)
  then show ?thesis
    using StageClaim_fifo [OF sample_db_inv sample_db_healthy, of 1 4 sample_pg 900 900]
    by (auto simp: sample_pg_def sample_db_def)
qed





text \<open>
  The prefix is spliced into the \<open>LIKE\<close> pattern unescaped, so an underscore in a queried prefix acts
  as a wildcard: listing \<open>/a_b\<close> also reports \<open>/axb/c\<close>, which is not under it.
\<close>

theorem List_underscore_wildcard:
  "postgresIndex_List sample_pg ''/a_b'' 0 0
     (sample_db\<lparr>stg := [(''/axb/c'', stage_row 1 ''v'')]\<rparr>)
   = (Inr [(''/axb/c'', 1)], sample_db\<lparr>stg := [(''/axb/c'', stage_row 1 ''v'')]\<rparr>)"
  by (simp add: List_healthy db_healthy_def sample_db_def list_union_def list_matches_def page_def
      stage_row_def)

text \<open>
  \<open>UNION\<close> removes duplicate (key, size) pairs, not duplicate keys: a key that is staged again with
  other bytes while its old row is still indexed is reported twice.
\<close>

theorem List_key_twice:
  "\<exists>d items. db_inv d \<and> db_healthy d \<and> postgresIndex_List sample_pg [] 0 0 d = (Inr items, d)
     \<and> \<not> distinct (map fst items)"
proof -
  let ?d' = "\<lparr>tbl = [(''/k'', row_of_rec 1 (sample_rec\<lparr>rSize := 1\<rparr>))],
      stg = [(''/k'', stage_row 2 ''new'')], db_now = 2, faults = []\<rparr>"
  have "db_inv ?d'" "db_healthy ?d'"
    by (simp_all add: db_inv_def db_healthy_def keys_of_def stage_row_def)
  moreover have "postgresIndex_List sample_pg [] 0 0 ?d' = (Inr [(''/k'', 1), (''/k'', 3)], ?d')"
    by (simp add: List_healthy db_healthy_def list_union_def list_matches_def page_def stage_row_def
        row_of_rec_def sample_pg_def)
  ultimately show ?thesis by (intro exI [of _ ?d'] exI conjI) (assumption | simp)+
qed

text \<open>
  \<open>DueForRenewal\<close> names each blob at most once, at most \<open>limit\<close> of them, only blobs with a row that
  expires by the deadline, and the blobs that expire first come first; with room for all it misses none.
\<close>

theorem DueForRenewal_distinct_blobs:
  assumes "db_healthy d"
  shows "\<exists>bs. postgresIndex_DueForRenewal before limit d = (Inr bs, d)
    \<and> distinct bs \<and> length bs \<le> nat limit
    \<and> (\<forall>b\<in>set bs. \<exists>(k, w)\<in>set (tbl d). blob_id w = b \<and> (\<exists>t. expires_at w = Some t \<and> t \<le> before))
    \<and> sorted_wrt (\<lambda>a b. group_min (due_rows before d) a \<le> group_min (due_rows before d) b) bs
    \<and> (length (tbl d) \<le> nat limit \<longrightarrow>
        (\<forall>(k, w)\<in>set (tbl d). \<forall>t. expires_at w = Some t \<longrightarrow> t \<le> before \<longrightarrow> blob_id w \<in> set bs))"
proof -
  let ?rows = "due_rows before d"
  let ?le = "\<lambda>a b. group_min ?rows a \<le> group_min ?rows b"
  let ?all = "sort_by ?le (remdups (map fst ?rows))"
  have sorted: "sorted_wrt ?le ?all" by (rule sorted_sort_by) (auto simp: total_preorder_def)
  have due: "\<exists>(k, w)\<in>set (tbl d). blob_id w = b \<and> (\<exists>t. expires_at w = Some t \<and> t \<le> before)"
    if "b \<in> set (take (nat limit) ?all)" for b
    using in_set_takeD [OF that] due_rows_iff [of b _ before d] by fastforce
  have all: "blob_id w \<in> set ?all" if "(k, w) \<in> set (tbl d)" "expires_at w = Some t" "t \<le> before" for k w t
    using that due_rows_iff [of "blob_id w" t before d] by (auto simp: image_iff intro!: bexI [of _ "(blob_id w, t)"])
  have "length ?all \<le> length ?rows" using length_remdups_leq [of "map fst ?rows"] by simp
  also have "\<dots> \<le> length (tbl d)" by (simp add: due_rows_def List.map_filter_def)
  finally have len: "length ?all \<le> length (tbl d)" .
  show ?thesis
    using DueForRenewal_healthy [OF assms, of before limit] sorted due all len
    by (intro exI [of _ "take (nat limit) ?all"]) (auto simp: sorted_wrt_take distinct_take)
qed

theorem DueForRenewal_distinct_blobs_witness:
  "\<exists>bs. postgresIndex_DueForRenewal 600 256 (sample_db\<lparr>tbl := [(''/k'', row_of_rec 1 sample_rec)]\<rparr>)
      = (Inr bs, sample_db\<lparr>tbl := [(''/k'', row_of_rec 1 sample_rec)]\<rparr>) \<and> ''B1'' \<in> set bs"
proof -
  let ?d = "sample_db\<lparr>tbl := [(''/k'', row_of_rec 1 sample_rec)]\<rparr>"
  have "db_healthy ?d" using sample_db_healthy by (simp add: db_healthy_def)
  from DueForRenewal_distinct_blobs [OF this, of 600 256] show ?thesis
    by (auto simp: row_of_rec_def sample_rec_def)
qed

text \<open>
  \<open>UpdateBlobAfterRenewal\<close> repoints every row of the renewed blob, and only those, to the new blob,
  object, encoded size, cost, epoch and expiry, keeping each row's patch id, byte range and size; an
  error leaves all or none of it done.
\<close>

theorem UpdateBlobAfterRenewal_repoints:
  assumes "db_inv d"
    and "postgresIndex_UpdateBlobAfterRenewal oldB newB newO enc cst ep ex d = (r, d')"
  shows "db_inv d' \<and> all_or_nothing (renew_view oldB newB newO enc cst ep ex) r (db_view d) (db_view d')
    \<and> fst (db_view d') = fst (db_view d)
    \<and> (\<forall>k rec. snd (db_view d) k = Some rec \<longrightarrow>
         (\<exists>rec'. snd (db_view d') k = Some rec' \<and> rPatchID rec' = rPatchID rec
            \<and> rOffset rec' = rOffset rec \<and> rSize rec' = rSize rec
            \<and> (rBlobID rec \<noteq> oldB \<longrightarrow> rec' = rec)
            \<and> (r = Inr () \<longrightarrow> rBlobID rec = oldB \<longrightarrow> rBlobID rec' = newB \<and> rExpiresAt rec' = ex)))"
proof -
  have eff: "db_inv d' \<and> all_or_nothing (renew_view oldB newB newO enc cst ep ex) r (db_view d) (db_view d')"
    by (rule UpdateBlob_effect [OF assms(2,1)])
  then have "db_view d' = db_view d \<and> r \<noteq> Inr () \<or> db_view d' = renew_view oldB newB newO enc cst ep ex (db_view d)"
    by (auto simp: all_or_nothing_def split: sum.splits)
  with eff show ?thesis by (elim disjE) (auto simp: renew_view_def)
qed

theorem UpdateBlobAfterRenewal_repoints_witness:
  "\<exists>r d'. postgresIndex_UpdateBlobAfterRenewal ''B1'' ''B2'' ''O2'' 7 0 60 None
        (sample_db\<lparr>tbl := [(''/k'', row_of_rec 1 sample_rec)]\<rparr>) = (r, d') \<and> db_inv d'"
proof -
  let ?d = "sample_db\<lparr>tbl := [(''/k'', row_of_rec 1 sample_rec)]\<rparr>"
  have inv: "db_inv ?d" using sample_db_inv by (simp add: db_inv_def keys_of_def)
  obtain r d' where run: "postgresIndex_UpdateBlobAfterRenewal ''B1'' ''B2'' ''O2'' 7 0 60 None ?d = (r, d')"
    by fastforce
  from UpdateBlobAfterRenewal_repoints [OF inv run] run show ?thesis by blast
qed

end
