(* ===== verification/Transport.thy ===== *)
theory Transport
  imports GoStd BlobCache
begin

text \<open>
  The transport half of \<open>src/client.go\<close>: the client's configuration and its \<open>Client\<close> value, retries
  with exponential backoff (\<open>doWithRetry\<close>, \<open>backoff\<close>, \<open>sleepWithContext\<close>), and the failover loop over the
  configured endpoints that all five operations run.

  The network, the caller's context, the timers, the clock and the random sources are not this
  program's code: they are the fields of a record \<open>'s net\<close> over a state \<open>'s\<close> of their own, and every
  operation takes and returns that state. Go results \<open>(v, err)\<close> are an \<open>'a res\<close>. A run-time panic is the
  error \<open>PanicErr\<close>, which no handler of the program catches (\<open>is_panic\<close>).
\<close>

subsection \<open>Configuration\<close>

record ClientConfig =
  ccPublisherURLs :: "string list"
  ccAggregatorURLs :: "string list"
  ccRequestTimeout :: duration
  ccMaxRetries :: int
  ccBlobCacheBytes :: int

text \<open>The blob cache is mutable and is threaded as state; the rest of \<open>Client\<close> never changes.\<close>

record Client =
  publishers :: "string list"
  aggregators :: "string list"
  http_timeout :: duration
  maxRetries :: int

definition normalizeURLs :: "string list \<Rightarrow> string list" where
  "normalizeURLs urls =
     filter (\<lambda>u. u \<noteq> []) (map (\<lambda>u. TrimRight (CHR ''/'') (TrimSpace u)) urls)"

definition NewClient :: "ClientConfig \<Rightarrow> Client \<times> blobCache option" where
  "NewClient conf =
     (\<lparr>publishers = normalizeURLs (ccPublisherURLs conf),
       aggregators = normalizeURLs (ccAggregatorURLs conf),
       http_timeout = ccRequestTimeout conf,
       maxRetries = ccMaxRetries conf\<rparr>,
      newBlobCache (ccBlobCacheBytes conf))"

subsection \<open>The outside world\<close>

text \<open>
  A request carries the bytes its body yields and, when the producer of the body failed, the error a
  reader meets after them. A response body likewise yields bytes and possibly ends in an error.
\<close>

record request =
  rq_method :: string
  rq_url :: string
  rq_headers :: "(string \<times> string) list"
  rq_length :: int
  rq_body :: bytes
  rq_body_err :: "err option"

record response =
  StatusCode :: int
  resp_body :: bytes
  resp_err :: "err option"

text \<open>
  \<open>http_Do\<close> sends a request; \<open>url_error\<close> is the error of \<open>http.NewRequestWithContext\<close> on an unusable
  URL; \<open>ctx_Err\<close> is \<open>ctx.Err()\<close>; \<open>timer_first\<close> waits for the timer or the context, whichever comes
  first, and says whether it was the timer; \<open>rand63\<close> is the source behind \<open>math/rand\<close>, \<open>crand\<close>
  \<open>crypto/rand\<close>'s \<open>Read\<close> and \<open>time_Now\<close> the clock.
\<close>

record 's net =
  http_Do :: "request \<Rightarrow> 's \<Rightarrow> response res \<times> 's"
  url_error :: "string \<Rightarrow> err option"
  ctx_Err :: "'s \<Rightarrow> err option \<times> 's"
  timer_first :: "duration \<Rightarrow> 's \<Rightarrow> bool \<times> 's"
  rand63 :: "'s \<Rightarrow> nat \<times> 's"
  crand :: "nat \<Rightarrow> 's \<Rightarrow> bytes res \<times> 's"
  time_Now :: "'s \<Rightarrow> time \<times> 's"

fun is_panic :: "err \<Rightarrow> bool" where
  "is_panic (PanicErr _) = True"
| "is_panic _ = False"

text \<open>\<open>io.ReadAll\<close>, and \<open>io.ReadAll\<close> of a limited reader with its error dropped.\<close>

definition ReadAll :: "response \<Rightarrow> bytes res" where
  "ReadAll res = (case resp_err res of None \<Rightarrow> Inr (resp_body res) | Some e \<Rightarrow> Inl e)"

definition body_excerpt :: "response \<Rightarrow> string" where
  "body_excerpt res = TrimSpace (take 512 (resp_body res))"

subsection \<open>Retries\<close>

definition isRetryableStatus :: "int \<Rightarrow> bool" where
  "isRetryableStatus code \<longleftrightarrow> code = 429 \<or> (code \<ge> 500 \<and> code \<le> 599)"

definition Millisecond :: duration where "Millisecond = 1000000"
definition Second :: duration where "Second = 1000000000"

text \<open>\<open>1 << attempt\<close> on an \<open>int64\<close>, and \<open>rand.Int63n\<close>, which panics on a bound that is not positive.\<close>

definition shl1 :: "int \<Rightarrow> int" where
  "shl1 n = wrap64 (2 ^ nat n)"

definition Int63n :: "'s net \<Rightarrow> int \<Rightarrow> 's \<Rightarrow> int res \<times> 's" where
  "Int63n N n s =
     (if n \<le> 0 then (Inl (PanicErr ''invalid argument to Int63n''), s)
      else (case rand63 N s of (x, s') \<Rightarrow> (Inr (int x mod n), s')))"

definition backoff :: "'s net \<Rightarrow> int \<Rightarrow> 's \<Rightarrow> duration res \<times> 's" where
  "backoff N attempt s =
     (let base = 200 * Millisecond;
          d0 = wrap64 (base * shl1 attempt);
          d = (if d0 > 5 * Second then 5 * Second else d0)
      in case Int63n N (wrap64 (d sdiv 4 + 1)) s of
           (Inl e, s') \<Rightarrow> (Inl e, s')
         | (Inr jitter, s') \<Rightarrow> (Inr (wrap64 (d + jitter)), s'))"

definition sleepWithContext :: "'s net \<Rightarrow> duration \<Rightarrow> 's \<Rightarrow> err option \<times> 's" where
  "sleepWithContext N d s =
     (case timer_first N d s of
        (True, s') \<Rightarrow> (None, s')
      | (False, s') \<Rightarrow> ctx_Err N s')"

text \<open>
  \<open>doWithRetry\<close>: iterations \<open>i\<close> up to \<open>maxRetries\<close>. The result \<open>Inr None\<close> is Go's \<open>(nil, nil)\<close>, which
  only a negative \<open>maxRetries\<close> yields.
\<close>

function retry_loop ::
  "'s net \<Rightarrow> int \<Rightarrow> ('s \<Rightarrow> response res \<times> 's) \<Rightarrow> int \<Rightarrow> err option \<Rightarrow> 's \<Rightarrow> response option res \<times> 's" where
  "retry_loop N maxr attempt i lastErr s =
     (if i \<le> maxr then
        (case ctx_Err N s of
           (Some e, s1) \<Rightarrow> (Inl e, s1)
         | (None, s1) \<Rightarrow>
             (let (r, s2) = attempt s1
              in case (case r of
                         Inl e \<Rightarrow> Inl e
                       | Inr res \<Rightarrow>
                           if isRetryableStatus (StatusCode res)
                           then Inl (Errorf ''walrusds: transient status %d: %s''
                                       [AInt (StatusCode res), AStr (body_excerpt res)])
                           else Inr res) of
                   Inr res \<Rightarrow> (Inr (Some res), s2)
                 | Inl e \<Rightarrow>
                     if is_panic e then (Inl e, s2)
                     else if i < maxr then
                       (case backoff N i s2 of
                          (Inl p, s3) \<Rightarrow> (Inl p, s3)
                        | (Inr d, s3) \<Rightarrow>
                            (case sleepWithContext N d s3 of
                               (Some ce, s4) \<Rightarrow> (Inl ce, s4)
                             | (None, s4) \<Rightarrow> retry_loop N maxr attempt (i + 1) (Some e) s4))
                     else retry_loop N maxr attempt (i + 1) (Some e) s2))
      else (case lastErr of None \<Rightarrow> (Inr None, s) | Some e \<Rightarrow> (Inl e, s)))"
  by pat_completeness auto
termination
  by (relation "measure (\<lambda>(N, maxr, attempt, i, lastErr, s). nat (maxr + 1 - i))") auto

declare retry_loop.simps [simp del]

definition doWithRetry ::
  "'s net \<Rightarrow> Client \<Rightarrow> ('s \<Rightarrow> response res \<times> 's) \<Rightarrow> 's \<Rightarrow> response option res \<times> 's" where
  "doWithRetry N c attempt s = retry_loop N (maxRetries c) attempt 0 None s"

subsection \<open>Failover over the endpoints\<close>

text \<open>
  The loop \<open>for _, base := range bases\<close> of the five operations: an iteration returns from the
  function, or records its error in \<open>lastErr\<close> and continues with the next endpoint. After the last one
  the operation reports \<open>lastErr\<close> under its own message.
\<close>

datatype 'a iter = Return "'a res" | Continue err

fun range_loop ::
  "(string \<Rightarrow> 't \<Rightarrow> 'a iter \<times> 't) \<Rightarrow> string \<Rightarrow> string list \<Rightarrow> err option \<Rightarrow> 't \<Rightarrow> 'a res \<times> 't" where
  "range_loop body msg [] lastErr s =
     (Inl (case lastErr of None \<Rightarrow> Errorf msg [] | Some e \<Rightarrow> Wrapf msg [] e), s)"
| "range_loop body msg (base # bases) lastErr s =
     (case body base s of
        (Return r, s') \<Rightarrow> (r, s')
      | (Continue e, s') \<Rightarrow> range_loop body msg bases (Some e) s')"

text \<open>\<open>err != nil\<close> in an iteration: a panic leaves the function, any other error moves on.\<close>

definition next_endpoint :: "err \<Rightarrow> 'a iter" where
  "next_endpoint e = (if is_panic e then Return (Inl e) else Continue e)"

definition nil_response :: err where
  "nil_response = PanicErr ''invalid memory address or nil pointer dereference''"

text \<open>\<open>http.NewRequestWithContext\<close> followed by the header and length settings and \<open>c.http.Do\<close>.\<close>

definition send :: "'s net \<Rightarrow> request \<Rightarrow> 's \<Rightarrow> response res \<times> 's" where
  "send N rq s = (case url_error N (rq_url rq) of Some e \<Rightarrow> (Inl e, s) | None \<Rightarrow> http_Do N rq s)"

subsection \<open>Backoff and retries\<close>

lemma pow_35:
  assumes "0 \<le> a" "a \<le> 35"
  shows "1 \<le> (2::int) ^ nat a" and "(2::int) ^ nat a \<le> 34359738368"
  using assms power_increasing [of "nat a" 35 "2::int"] by auto

lemma shl1_small: "0 \<le> a \<Longrightarrow> a \<le> 35 \<Longrightarrow> shl1 a = 2 ^ nat a"
  unfolding shl1_def by (rule wrap64_small) (use pow_35 [of a] in linarith)+

definition backoff_base :: "int \<Rightarrow> duration" where
  "backoff_base a = min (5 * Second) (200 * Millisecond * 2 ^ nat a)"

lemma backoff_value:
  assumes "0 \<le> a" "a \<le> 35"
  shows "backoff N a s =
    (Inr (backoff_base a + int (fst (rand63 N s)) mod (backoff_base a div 4 + 1)), snd (rand63 N s))"
proof -
  let ?b = "200 * Millisecond * 2 ^ nat a" and ?d = "backoff_base a"
  note pow = pow_35 [OF assms]
  then have "wrap64 ?b = ?b"
    unfolding Millisecond_def by (intro wrap64_small) linarith+
  then have d: "(if wrap64 (200 * Millisecond * shl1 a) > 5 * Second then 5 * Second
      else wrap64 (200 * Millisecond * shl1 a)) = ?d"
    using shl1_small [OF assms] by (simp add: backoff_base_def)
  have b: "0 < ?d" "?d \<le> 5000000000"
    using pow by (auto simp: backoff_base_def Second_def Millisecond_def)
  have q: "wrap64 (?d sdiv 4 + 1) = ?d div 4 + 1" "0 < ?d div 4 + 1" "?d div 4 + 1 \<le> 1250000001"
    using b by (auto simp: sdiv_nonneg intro!: wrap64_small)
  have j: "0 \<le> int x mod (?d div 4 + 1)" "int x mod (?d div 4 + 1) \<le> 1250000001" for x
    using q pos_mod_bound [of "?d div 4 + 1" "int x"] by (auto simp del: pos_mod_bound)
  have "wrap64 (?d + int x mod (?d div 4 + 1)) = ?d + int x mod (?d div 4 + 1)" for x
    using b j [of x] by (intro wrap64_small) linarith+
  then show ?thesis
    unfolding backoff_def Let_def d using q by (simp add: Int63n_def split: prod.split)
qed

lemma backoff_36: "backoff N 36 s = (Inl (PanicErr ''invalid argument to Int63n''), s)"
  by (simp add: backoff_def shl1_def wrap64_def Let_def Int63n_def Millisecond_def Second_def
      signed_divide_int_def)

definition transient :: "response res \<Rightarrow> bool" where
  "transient r = (case r of Inl e \<Rightarrow> \<not> is_panic e | Inr res \<Rightarrow> isRetryableStatus (StatusCode res))"

definition attempt_error :: "response res \<Rightarrow> err" where
  "attempt_error r = (case r of Inl e \<Rightarrow> e | Inr res \<Rightarrow>
     Errorf ''walrusds: transient status %d: %s'' [AInt (StatusCode res), AStr (body_excerpt res)])"

text \<open>The context stays alive, timers fire, and waiting or drawing does not touch the network.\<close>

definition calm :: "'s net \<Rightarrow> bool" where
  "calm N \<longleftrightarrow> (\<forall>s. ctx_Err N s = (None, s)) \<and> (\<forall>d s. timer_first N d s = (True, s))
     \<and> (\<forall>s. snd (rand63 N s) = s)"

text \<open>The state after \<open>k\<close> attempts.\<close>

primrec after :: "('s \<Rightarrow> response res \<times> 's) \<Rightarrow> nat \<Rightarrow> 's \<Rightarrow> 's" where
  "after A 0 s = s"
| "after A (Suc k) s = after A k (snd (A s))"

lemma retry_step:
  assumes "calm N" "transient (fst (A s))" "0 \<le> i" "i \<le> maxr" "i \<le> 35 \<or> i = maxr"
  shows "retry_loop N maxr A i le s =
    retry_loop N maxr A (i + 1) (Some (attempt_error (fst (A s)))) (snd (A s))"
proof -
  obtain r s2 where A: "A s = (r, s2)" by fastforce
  have c: "ctx_Err N s = (None, s)" "\<And>d s. timer_first N d s = (True, s)" "\<And>s. snd (rand63 N s) = s"
    using assms(1) by (auto simp: calm_def)
  have np: "\<not> is_panic (attempt_error r)" using assms(2) A
    by (auto simp: transient_def attempt_error_def split: sum.splits)
  have r: "(case r of Inl e \<Rightarrow> Inl e | Inr res \<Rightarrow> if isRetryableStatus (StatusCode res)
      then Inl (Errorf ''walrusds: transient status %d: %s''
        [AInt (StatusCode res), AStr (body_excerpt res)]) else Inr res) = Inl (attempt_error r)"
    using assms(2) A by (auto simp: transient_def attempt_error_def split: sum.splits)
  have b: "i < maxr \<Longrightarrow> \<exists>d. backoff N i s2 = (Inr d, s2)"
    using backoff_value [of i N s2] assms(3,5) c by auto
  have sl: "sleepWithContext N d s2 = (None, s2)" for d
    using c by (simp add: sleepWithContext_def)
  show ?thesis
  proof (cases "i < maxr")
    case True
    with b obtain d where "backoff N i s2 = (Inr d, s2)" by blast
    then show ?thesis
      using True assms(4) c np A sl r by (subst retry_loop.simps) simp
  next
    case False
    then show ?thesis using assms(4) c np A r by (subst retry_loop.simps) simp
  qed
qed

lemma retry_run:
  assumes "calm N" "0 < k" "\<forall>j<k. transient (fst (A (after A j s)))" "0 \<le> i"
    and "i + int k \<le> maxr + 1" "i + int k \<le> 36 \<or> i + int k \<le> 37 \<and> i + int k = maxr + 1"
  shows "retry_loop N maxr A i le s =
    retry_loop N maxr A (i + int k) (Some (attempt_error (fst (A (after A (k - 1) s))))) (after A k s)"
  using assms(2-)
proof (induction k arbitrary: i le s)
  case (Suc k)
  have step: "retry_loop N maxr A i le s =
      retry_loop N maxr A (i + 1) (Some (attempt_error (fst (A s)))) (snd (A s))"
    by (rule retry_step [OF assms(1)]) (use Suc.prems in auto)
  show ?case
  proof (cases k)
    case 0
    then show ?thesis using step by simp
  next
    case (Suc k')
    have t: "\<forall>j<k. transient (fst (A (after A j (snd (A s)))))"
      using Suc.prems(2) by (metis Suc_less_eq after.simps(2))
    show ?thesis
      using Suc.IH [of "snd (A s)" "i + 1"] t Suc.prems(3-) step Suc by (simp add: ac_simps)
  qed
qed simp

lemma retry_accept:
  assumes "calm N" "A s = (Inr res, s')" "\<not> isRetryableStatus (StatusCode res)" "i \<le> maxr"
  shows "retry_loop N maxr A i le s = (Inr (Some res), s')"
  using assms by (subst retry_loop.simps) (simp add: calm_def)

lemma retry_end: "maxr < i \<Longrightarrow> retry_loop N maxr A i (Some e) s = (Inl e, s)"
  by (subst retry_loop.simps) simp

lemma retry_panic_at_36:
  assumes "calm N" "transient (fst (A s))" "36 < maxr"
  shows "retry_loop N maxr A 36 le s = (Inl (PanicErr ''invalid argument to Int63n''), snd (A s))"
proof -
  obtain r s2 where A: "A s = (r, s2)" by fastforce
  show ?thesis
    using assms A by (subst retry_loop.simps)
      (auto simp: calm_def transient_def backoff_36 split: sum.splits)
qed

text \<open>
  What holds of every run, whatever the context, the timers and the network do: an accepted response
  came from an attempt made in a state that satisfies every invariant of the surroundings, and the state
  returned is the one that attempt left.
\<close>

definition ambient :: "'s net \<Rightarrow> ('s \<Rightarrow> bool) \<Rightarrow> bool" where
  "ambient N I \<longleftrightarrow> (\<forall>s. I s \<longrightarrow> I (snd (ctx_Err N s)) \<and> (\<forall>d. I (snd (timer_first N d s)))
     \<and> I (snd (rand63 N s)) \<and> (\<forall>n. I (snd (crand N n s))) \<and> I (snd (time_Now N s)))"

lemma backoff_ambient: "ambient N I \<Longrightarrow> I s \<Longrightarrow> backoff N i s = (r, s') \<Longrightarrow> I s'"
  unfolding backoff_def Int63n_def ambient_def Let_def
  by (auto split: if_splits prod.splits sum.splits; metis snd_conv)

lemma sleep_ambient: "ambient N I \<Longrightarrow> I s \<Longrightarrow> sleepWithContext N d s = (r, s') \<Longrightarrow> I s'"
  unfolding sleepWithContext_def ambient_def
  by (auto split: prod.splits bool.splits; metis snd_conv)

lemma retry_indexed:
  assumes "\<And>k. ambient N (J k)" "\<And>k s. J k s \<Longrightarrow> J (k + 1) (snd (A s))"
  shows "J i s \<Longrightarrow> retry_loop N maxr A i le s = (r, s') \<Longrightarrow>
    (\<exists>k. i \<le> k \<and> k \<le> max i (maxr + 1) \<and> J k s') \<and> (\<forall>res. r = Inr (Some res) \<longrightarrow>
      \<not> isRetryableStatus (StatusCode res) \<and> (\<exists>k s0. J k s0 \<and> A s0 = (Inr res, s')))"
proof (induction "nat (maxr + 1 - i)" arbitrary: i le s rule: less_induct)
  case less
  obtain ce s1 where c: "ctx_Err N s = (ce, s1)" by fastforce
  obtain ra s2 where a: "A s1 = (ra, s2)" by fastforce
  obtain rb s3 where b: "backoff N i s2 = (rb, s3)" by fastforce
  have I1: "J i s1" using assms(1) [of i] less.prems(1) c unfolding ambient_def by (metis snd_conv)
  then have I2: "J (i + 1) s2" using assms(2) a by (metis snd_conv)
  then have I3: "J (i + 1) s3" using backoff_ambient [OF assms(1)] b by blast
  have I4: "J (i + 1) s4" if "sleepWithContext N d s3 = (x, s4)" for d x s4
    using sleep_ambient [OF assms(1) I3] that .
  have IH: ?case if "i \<le> maxr" "J (i + 1) t" "retry_loop N maxr A (i + 1) le' t = (r, s')" for le' t
  proof -
    note t = that
    obtain k where k: "i + 1 \<le> k" "k \<le> max (i + 1) (maxr + 1)" "J k s'"
      and rest: "\<forall>res. r = Inr (Some res) \<longrightarrow> \<not> isRetryableStatus (StatusCode res)
        \<and> (\<exists>k s0. J k s0 \<and> A s0 = (Inr res, s'))"
      using less.hyps [OF _ t(2,3)] t(1) by auto
    have "i \<le> k" "k \<le> max i (maxr + 1)" using k t(1) by auto
    then show ?thesis using k(3) by (intro conjI exI [of _ k] rest)
  qed
  have run: "retry_loop N maxr A i le s = (r, s')" by (rule less.prems(2))
  show ?case
  proof (cases "i \<le> maxr \<and> ce = None")
    case False
    then show ?thesis
      using run c I1 less.prems(1) by (subst (asm) retry_loop.simps) (auto split: if_splits option.splits)
  next
    case True
    then have le: "i \<le> maxr" and ce: "ce = None" by auto
    show ?thesis
    proof (cases "\<exists>res. ra = Inr res \<and> \<not> isRetryableStatus (StatusCode res)")
      case True
      then obtain res where res: "ra = Inr res" "\<not> isRetryableStatus (StatusCode res)" by blast
      then have "r = Inr (Some res) \<and> s' = s2"
        using run c ce a le by (subst (asm) retry_loop.simps) simp
      then show ?thesis
        using res a I1 I2 le by (intro conjI exI [of _ "i + 1"]) auto
    next
      case False
      then obtain e where e: "(case ra of Inl e \<Rightarrow> Inl e | Inr res \<Rightarrow>
          if isRetryableStatus (StatusCode res) then Inl (Errorf ''walrusds: transient status %d: %s''
            [AInt (StatusCode res), AStr (body_excerpt res)]) else Inr res) = (Inl e :: err + response)"
        by (cases ra) auto
      have "J (i + 1) s' \<and> (\<exists>e. r = Inl e) \<or> (\<exists>le' t. J (i + 1) t \<and> retry_loop N maxr A (i + 1) le' t = (r, s'))"
        using run by (subst (asm) retry_loop.simps)
          (use c ce a le b e I2 I3 in \<open>auto split: if_splits sum.splits prod.splits option.splits dest: I4\<close>)
      then show ?thesis using IH [OF le] le by (fastforce simp: max_def)
    qed
  qed
qed

lemma doWithRetry_result:
  assumes "ambient N I" "\<And>s. I s \<Longrightarrow> I (snd (A s))" "I s" "doWithRetry N c A s = (r, s')"
  shows "I s'"
    and "r = Inr (Some res) \<Longrightarrow> \<not> isRetryableStatus (StatusCode res) \<and> (\<exists>s0. I s0 \<and> A s0 = (Inr res, s'))"
  using retry_indexed [of N "\<lambda>_. I" A 0 s "maxRetries c" None r s'] assms
  by (auto simp: doWithRetry_def)

subsection \<open>Failover\<close>

lemma range_loop_return:
  assumes "\<And>base s. base \<in> set bases \<Longrightarrow> I s \<Longrightarrow> I (snd (body base s))"
  shows "I s \<Longrightarrow> range_loop body msg bases le s = (r, s') \<Longrightarrow>
    I s' \<and> ((\<exists>base\<in>set bases. \<exists>s0. I s0 \<and> body base s0 = (Return r, s'))
      \<or> (\<exists>e. r = Inl (Wrapf msg [] e)) \<or> r = Inl (Errorf msg []))"
  using assms
proof (induction bases arbitrary: le s)
  case Nil
  then show ?case by (auto split: option.splits)
next
  case (Cons base bases)
  obtain x s1 where b: "body base s = (x, s1)" by fastforce
  have I1: "I s1" using Cons.prems(1,3) b by (metis list.set_intros(1) snd_conv)
  show ?case
  proof (cases x)
    case (Return q)
    then show ?thesis using Cons.prems(1,2) b I1 by auto
  next
    case (Continue e)
    then have "range_loop body msg bases (Some e) s1 = (r, s')" using Cons.prems(2) b by simp
    then show ?thesis using Cons.IH [OF I1] Cons.prems(3) by fastforce
  qed
qed

lemma range_loop_result:
  assumes "\<And>base s. base \<in> set bases \<Longrightarrow> I s \<Longrightarrow> I (snd (body base s))"
    and "I s" and "range_loop body msg bases le s = (r, s')"
  shows "I s' \<and> (\<forall>a. r = Inr a \<longrightarrow> (\<exists>base\<in>set bases. \<exists>s0. I s0 \<and> body base s0 = (Return (Inr a), s')))"
  using range_loop_return [of bases I body, OF assms] by auto

text \<open>The endpoints of \<open>pre\<close> all continue; \<open>skip_all\<close> is the state after them.\<close>

fun skip_all :: "(string \<Rightarrow> 't \<Rightarrow> 'a iter \<times> 't) \<Rightarrow> string list \<Rightarrow> 't \<Rightarrow> 't option" where
  "skip_all body [] s = Some s"
| "skip_all body (b # bs) s =
     (case body b s of (Continue e, s') \<Rightarrow> skip_all body bs s' | (Return r, s') \<Rightarrow> None)"

lemma range_loop_failover:
  assumes "skip_all body pre s = Some s1" "body base s1 = (Return r, s2)"
  shows "range_loop body msg (pre @ base # post) le s = (r, s2)"
  using assms
proof (induction pre arbitrary: le s)
  case (Cons b bs)
  then show ?case by (cases "body b s"; cases "fst (body b s)") auto
qed simp

lemma range_loop_all_fail:
  assumes "skip_all body bases s = Some s1" "bases \<noteq> []"
  shows "\<exists>e. range_loop body msg bases le s = (Inl (Wrapf msg [] e), s1)"
  using assms
proof (induction bases arbitrary: le s)
  case (Cons b bs)
  then obtain e s' where "body b s = (Continue e, s')" "skip_all body bs s' = Some s1"
    by (auto split: prod.splits iter.splits)
  then show ?case using Cons.IH by (cases bs) auto
qed simp

subsection \<open>Properties\<close>

text \<open>A network for witnesses: the context is alive, timers fire, the random sources yield zeros.\<close>

definition calm_net :: "(request \<Rightarrow> 's \<Rightarrow> response res \<times> 's) \<Rightarrow> 's net" where
  "calm_net do_it = \<lparr>http_Do = do_it, url_error = (\<lambda>_. None), ctx_Err = (\<lambda>s. (None, s)),
     timer_first = (\<lambda>d s. (True, s)), rand63 = (\<lambda>s. (0, s)),
     crand = (\<lambda>n s. (Inr (replicate n (CHR 0x00)), s)), time_Now = (\<lambda>s. (0, s))\<rparr>"

definition sample_client :: "int \<Rightarrow> Client" where
  "sample_client retries = \<lparr>publishers = [''http://p''], aggregators = [''http://a''],
     http_timeout = 60 * Second, maxRetries = retries\<rparr>"

lemma calm_net_calm [simp]: "calm (calm_net do_it)"
  by (simp add: calm_def calm_net_def)

lemma calm_net_sel [simp]:
  "http_Do (calm_net f) = f" "url_error (calm_net f) u = None" "time_Now (calm_net f) s = (0, s)"
  "crand (calm_net f) n s = (Inr (replicate n (CHR 0x00)), s)"
  by (simp_all add: calm_net_def)

lemma calm_net_ambient [simp]: "ambient (calm_net do_it) I"
  by (simp add: ambient_def calm_net_def)

text \<open>
  C35. For the first 36 attempts the pause before the next one is the doubling delay from 200 ms capped at
  5 s, lengthened by at most a quarter of itself, whatever the random source yields.
\<close>

theorem backoff_bounds:
  assumes "0 \<le> attempt" and "attempt \<le> 35"
  shows "\<exists>d. backoff N attempt s = (Inr d, snd (rand63 N s))
    \<and> min (5 * Second) (200 * Millisecond * 2 ^ nat attempt) \<le> d
    \<and> 4 * d \<le> 5 * min (5 * Second) (200 * Millisecond * 2 ^ nat attempt)"
proof -
  let ?b = "backoff_base attempt"
  have "0 \<le> ?b" by (simp add: backoff_base_def Second_def Millisecond_def)
  then have j: "0 \<le> int x mod (?b div 4 + 1)" "int x mod (?b div 4 + 1) \<le> ?b div 4" for x
    using pos_mod_bound [of "?b div 4 + 1" "int x"] by (auto simp del: pos_mod_bound)
  have arith: "b \<le> b + m \<and> 4 * (b + m) \<le> 5 * b" if "0 \<le> m" "m \<le> q" "4 * q \<le> b" for b m q :: int
    using that by simp
  have "?b \<le> ?b + int (fst (rand63 N s)) mod (?b div 4 + 1)
    \<and> 4 * (?b + int (fst (rand63 N s)) mod (?b div 4 + 1)) \<le> 5 * ?b"
    by (rule arith [OF j]) simp
  then show ?thesis
    unfolding backoff_value [OF assms] backoff_base_def [symmetric] by blast
qed

theorem backoff_bounds_witness:
  "fst (backoff (calm_net (\<lambda>_ s. (Inl (Opaque ''down''), s))) 2 ()) = Inr (800 * Millisecond)"
proof -
  let ?N = "calm_net (\<lambda>_ s. (Inl (Opaque ''down''), s)) :: unit net"
  have "\<exists>d. backoff ?N 2 () = (Inr d, snd (rand63 ?N ())) \<and> 800 * Millisecond \<le> d"
    using backoff_bounds [of 2 ?N "()"] by (auto simp: Second_def Millisecond_def)
  then show ?thesis
    by (simp add: backoff_value backoff_base_def Second_def Millisecond_def calm_net_def)
qed

text \<open>
  C34. With a live context, \<open>doWithRetry\<close> returns the first response that is not a transient failure,
  right after the attempt that produced it, as long as it comes within \<open>maxRetries\<close> retries (and the
  first 37 attempts).
\<close>

theorem doWithRetry_first_success:
  assumes "calm N" and "\<forall>i<j. transient (fst (A (after A i s)))"
    and "A (after A j s) = (Inr res, s')" and "\<not> isRetryableStatus (StatusCode res)"
    and "int j \<le> maxRetries c" and "j \<le> 36"
  shows "doWithRetry N c A s = (Inr (Some res), s')"
proof (cases j)
  case 0
  then show ?thesis using assms unfolding doWithRetry_def by (simp add: retry_accept)
next
  case (Suc j')
  have "\<exists>le. retry_loop N (maxRetries c) A 0 None s = retry_loop N (maxRetries c) A (int j) le (after A j s)"
    using retry_run [OF assms(1), of j A s 0] assms Suc by fastforce
  then show ?thesis
    using retry_accept [where A = A and s = "after A j s", OF assms(1,3,4,5)] unfolding doWithRetry_def by auto
qed

text \<open>A server for witnesses that fails \<open>n\<close> times before it answers.\<close>

definition flaky :: "response \<Rightarrow> nat \<Rightarrow> response res \<times> nat" where
  "flaky ok n = (if n = 0 then (Inr ok, 0) else (Inl (Opaque ''down''), n - 1))"

definition ok_response :: "bytes \<Rightarrow> response" where
  "ok_response body = \<lparr>StatusCode = 200, resp_body = body, resp_err = None\<rparr>"

lemma after_flaky: "after (flaky ok) i n = n - i"
  by (induction i arbitrary: n) (auto simp: flaky_def)

theorem doWithRetry_first_success_witness:
  "doWithRetry (calm_net (\<lambda>_. flaky (ok_response ''x''))) (sample_client 3) (flaky (ok_response ''x'')) 2
   = (Inr (Some (ok_response ''x'')), 0)"
  by (rule doWithRetry_first_success [of _ 2])
    (auto simp: after_flaky flaky_def transient_def ok_response_def isRetryableStatus_def sample_client_def)

text \<open>
  When every attempt up to the retry limit fails transiently, \<open>doWithRetry\<close> makes exactly
  \<open>maxRetries + 1\<close> attempts and returns the error of the last one.
\<close>

theorem doWithRetry_gives_up:
  assumes "calm N" and "0 \<le> maxRetries c" and "maxRetries c \<le> 36"
    and "\<forall>i\<le>nat (maxRetries c). transient (fst (A (after A i s)))"
  shows "doWithRetry N c A s =
    (Inl (attempt_error (fst (A (after A (nat (maxRetries c)) s)))), after A (Suc (nat (maxRetries c))) s)"
proof -
  let ?m = "maxRetries c"
  have "retry_loop N ?m A 0 None s = retry_loop N ?m A (0 + int (Suc (nat ?m)))
      (Some (attempt_error (fst (A (after A (Suc (nat ?m) - 1) s))))) (after A (Suc (nat ?m)) s)"
    by (rule retry_run [OF assms(1)]) (use assms in auto)
  then show ?thesis
    using assms(2) unfolding doWithRetry_def by (simp add: retry_end)
qed

theorem doWithRetry_gives_up_witness:
  "doWithRetry (calm_net (\<lambda>_. flaky (ok_response ''x''))) (sample_client 3) (flaky (ok_response ''x'')) 9
   = (Inl (Opaque ''down''), 5)"
  using doWithRetry_gives_up [of "calm_net (\<lambda>_. flaky (ok_response ''x''))" "sample_client 3"
      "flaky (ok_response ''x'')" 9]
  by (simp add: after_flaky flaky_def transient_def sample_client_def attempt_error_def)

text \<open>
  Whatever the context, the timers, the network and the random source do, a call makes at most
  \<open>maxRetries + 1\<close> attempts, and a response it returns is not a transient status and is the one its last
  attempt received. The counter \<open>cnt\<close> is any quantity that only attempts increase, by at most one.
\<close>

theorem doWithRetry_attempts:
  assumes "\<And>k. ambient N (\<lambda>s. cnt s \<le> k)" and "\<And>s. cnt (snd (A s)) \<le> cnt s + (1 :: int)"
    and "doWithRetry N c A s = (r, s')" and "0 \<le> maxRetries c"
  shows "cnt s' \<le> cnt s + (maxRetries c + 1)
    \<and> (\<forall>res. r = Inr (Some res) \<longrightarrow>
         \<not> isRetryableStatus (StatusCode res) \<and> (\<exists>s0. A s0 = (Inr res, s')))"
proof -
  let ?J = "\<lambda>k t. cnt t \<le> cnt s + k"
  have amb: "ambient N (?J k)" for k by (rule assms(1))
  have step: "?J (k + 1) (snd (A t))" if "?J k t" for k t
    using assms(2) [of t] that by simp
  show ?thesis
    using retry_indexed [of N ?J A 0 s "maxRetries c" None r s', OF amb step] assms(3,4)
    by (auto simp: doWithRetry_def max_def intro: order.trans)
qed

theorem doWithRetry_attempts_witness:
  "let A = (\<lambda>n. (Inl (Opaque ''down''), n + 1)) in
   snd (doWithRetry (calm_net (\<lambda>_. A)) (sample_client 3) A (0 :: int)) \<le> 4"
proof -
  let ?A = "\<lambda>n :: int. (Inl (Opaque ''down'') :: response res, n + 1)"
  obtain r s' where e: "doWithRetry (calm_net (\<lambda>_. ?A)) (sample_client 3) ?A 0 = (r, s')" by fastforce
  have "s' \<le> 0 + (maxRetries (sample_client 3) + 1)"
    using doWithRetry_attempts [of "calm_net (\<lambda>_. ?A)" "\<lambda>n. n" ?A "sample_client 3" 0 r s', OF _ _ e]
    by (simp add: sample_client_def)
  then show ?thesis using e by (simp add: sample_client_def)
qed

text \<open>
  The doubling overflows \<open>int64\<close> at the 37th pause: with more than 36 retries configured, 37 transient
  failures in a row end in a run-time panic of \<open>rand.Int63n\<close> instead of an error.
\<close>

theorem doWithRetry_overflow_panics:
  assumes "calm N" and "36 < maxRetries c" and "\<forall>i\<le>36. transient (fst (A (after A i s)))"
  shows "fst (doWithRetry N c A s) = Inl (PanicErr ''invalid argument to Int63n'')"
proof -
  have "\<exists>le. retry_loop N (maxRetries c) A 0 None s = retry_loop N (maxRetries c) A (0 + int 36) le (after A 36 s)"
    using retry_run [OF assms(1), of 36 A s 0] assms(2,3) by fastforce
  then show ?thesis
    using retry_panic_at_36 [OF assms(1) _ assms(2), of A "after A 36 s"] assms(3)
    unfolding doWithRetry_def by auto
qed

theorem doWithRetry_overflow_panics_witness:
  "fst (doWithRetry (calm_net (\<lambda>_. flaky (ok_response ''x''))) (sample_client 37)
     (flaky (ok_response ''x'')) 100) = Inl (PanicErr ''invalid argument to Int63n'')"
  by (rule doWithRetry_overflow_panics)
    (auto simp: after_flaky flaky_def transient_def sample_client_def)

end
