(* ===== verification/Multipart.thy ===== *)
theory Multipart
  imports Transport
begin

text \<open>
  The streamed body of a quilt upload in \<open>src/client.go\<close>: \<open>writeMultipartBody\<close>, the length
  \<open>multipartBodyLength\<close> announces for it, and the random boundary. The lemmas show that the two agree, and
  that a reader of the format recovers exactly the parts.
\<close>

subsection \<open>Writer and announced length\<close>

record QuiltPart =
  Identifier :: string
  Data :: bytes

text \<open>\<open>writeMultipartBody\<close>: the bytes written and the error it returns.\<close>

fun write_parts :: "string \<Rightarrow> bool \<Rightarrow> QuiltPart list \<Rightarrow> bytes" where
  "write_parts boundary isFirst [] = []"
| "write_parts boundary isFirst (p # ps) =
     CreateFormFile boundary isFirst (Identifier p) (Identifier p) @ Data p
     @ write_parts boundary False ps"

definition writeMultipartBody :: "QuiltPart list \<Rightarrow> string \<Rightarrow> bytes \<times> err option" where
  "writeMultipartBody parts boundary =
     (case SetBoundary boundary of
        Inl e \<Rightarrow> ([], Some e)
      | Inr b \<Rightarrow> (write_parts b True parts @ multipart_Close b, None))"

text \<open>The loop of \<open>multipartBodyLength\<close> over \<open>(i, p)\<close>, on an \<open>int64\<close> accumulator.\<close>

fun length_parts :: "string \<Rightarrow> nat \<Rightarrow> QuiltPart list \<Rightarrow> int \<Rightarrow> int" where
  "length_parts boundary i [] n = n"
| "length_parts boundary i (p # ps) n =
     (let n1 = wrap64 (n + (if i = 0 then len64 (''--'' @ boundary @ CRLF)
                            else len64 (CRLF @ ''--'' @ boundary @ CRLF)));
          n2 = wrap64 (n1 + len64 (''Content-Disposition: form-data; name='' @ QUOTE @ Identifier p @ QUOTE
                 @ ''; filename='' @ QUOTE @ Identifier p @ QUOTE @ CRLF));
          n3 = wrap64 (n2 + len64 (''Content-Type: application/octet-stream'' @ CRLF));
          n4 = wrap64 (n3 + len64 CRLF);
          n5 = wrap64 (n4 + len64 (Data p))
      in length_parts boundary (Suc i) ps n5)"

definition multipartBodyLength :: "QuiltPart list \<Rightarrow> string \<Rightarrow> int" where
  "multipartBodyLength parts boundary =
     wrap64 (length_parts boundary 0 parts 0 + len64 (CRLF @ ''--'' @ boundary @ ''--'' @ CRLF))"

text \<open>\<open>crand.Read\<close> fills a buffer of 30 bytes.\<close>

definition multipartBoundary :: "'s net \<Rightarrow> 's \<Rightarrow> string res \<times> 's" where
  "multipartBoundary N s =
     (case crand N 30 s of
        (Inl e, s') \<Rightarrow> (Inl e, s')
      | (Inr bs, s') \<Rightarrow> (Inr (hex_EncodeToString (take 30 (bs @ replicate 30 (CHR 0x00)))), s'))"

subsection \<open>The multipart body\<close>

definition plain_id :: "string \<Rightarrow> bool" where
  "plain_id s \<longleftrightarrow> (\<forall>c\<in>set s. c \<noteq> BACKSLASH \<and> [c] \<noteq> QUOTE)"

lemma plain_id_itoa [simp]: "plain_id (nat_digits n)"
  using digits_need_no_escape by (auto simp: plain_id_def)

text \<open>The bytes of one part around its data.\<close>

definition part_overhead :: "string \<Rightarrow> bool \<Rightarrow> QuiltPart \<Rightarrow> int" where
  "part_overhead boundary isFirst p = (if isFirst then 100 else 102) + len64 boundary + 2 * len64 (Identifier p)"

lemma length_CreateFormFile:
  "len64 (CreateFormFile boundary isFirst f n) =
     (if isFirst then 100 else 102) + len64 boundary + len64 (escapeQuotes f) + len64 (escapeQuotes n)"
  by (simp add: CreateFormFile_def CreatePart_def CRLF_def QUOTE_def)

lemma wrap64_length_parts:
  "\<forall>p\<in>set ps. plain_id (Identifier p) \<Longrightarrow>
   wrap64 (length_parts b i ps n + x) = wrap64 (n + len64 (write_parts b (i = 0) ps) + x)"
proof (induction ps arbitrary: i n x)
  case (Cons p ps)
  have esc: "length (escapeQuotes (Identifier p)) = length (Identifier p)"
    using Cons.prems by (simp add: escapeQuotes_id_iff plain_id_def)
  let ?k = "(if i = 0 then 100 else 102) + len64 b + 2 * len64 (Identifier p) + len64 (Data p)"
  have step: "length_parts b i (p # ps) n = length_parts b (Suc i) ps (wrap64 (n + ?k))"
    unfolding length_parts.simps Let_def wrap64_add add.assoc
    by (intro arg_cong [where f = "length_parts b (Suc i) ps"] arg_cong [where f = wrap64])
      (simp add: CRLF_def QUOTE_def)
  have "wrap64 (wrap64 (n + ?k) + len64 (write_parts b False ps) + x)
      = wrap64 (n + ?k + (len64 (write_parts b False ps) + x))"
    using wrap64_add [of "n + ?k" "len64 (write_parts b False ps) + x"] by (simp only: add.assoc)
  also have "n + ?k + (len64 (write_parts b False ps) + x) = n + len64 (write_parts b (i = 0) (p # ps)) + x"
    using length_CreateFormFile [of b "i = 0" "Identifier p" "Identifier p"] esc by simp
  finally show ?case
    using Cons.IH [of "Suc i"] Cons.prems step by simp
qed simp

lemma multipartBodyLength_wrap:
  assumes "SetBoundary b = Inr b" "\<forall>p\<in>set parts. plain_id (Identifier p)"
  shows "multipartBodyLength parts b = wrap64 (len64 (fst (writeMultipartBody parts b)))"
  using wrap64_length_parts [OF assms(2), of b 0 0] assms(1)
  by (simp only: multipartBodyLength_def writeMultipartBody_def multipart_Close_def sum.case fst_conv
      length_append of_nat_add add_0 simp_thms)

lemma length_write_parts:
  "\<forall>p\<in>set ps. plain_id (Identifier p) \<Longrightarrow>
   len64 (write_parts b isFirst ps) \<le> (\<Sum>p\<leftarrow>ps. 102 + len64 b + 2 * len64 (Identifier p) + len64 (Data p))"
proof (induction ps arbitrary: isFirst)
  case (Cons p ps)
  have esc: "length (escapeQuotes (Identifier p)) = length (Identifier p)"
    using Cons.prems by (simp add: escapeQuotes_id_iff plain_id_def)
  show ?case
    using Cons.IH [of False] Cons.prems by (simp add: length_CreateFormFile esc)
qed simp

lemma multipartBoundary_valid:
  "multipartBoundary N s = (Inr b, s') \<Longrightarrow> SetBoundary b = Inr b \<and> length b = 60 \<and> s' = snd (crand N 30 s)"
  by (auto simp: multipartBoundary_def split: prod.splits sum.splits
      intro!: SetBoundary_alnum hex_encode_alnum)

subsection \<open>A reader for the format\<close>

text \<open>The first occurrence of a delimiter: what precedes and what follows it.\<close>

fun cut_at :: "string \<Rightarrow> string \<Rightarrow> (string \<times> string) option" where
  "cut_at d [] = (if d = [] then Some ([], []) else None)"
| "cut_at d (c # cs) =
     (if starts_with d (c # cs) then Some ([], drop (length d) (c # cs))
      else map_option (\<lambda>(x, r). (c # x, r)) (cut_at d cs))"

definition occurs :: "string \<Rightarrow> string \<Rightarrow> bool" where
  "occurs d s \<longleftrightarrow> cut_at d s \<noteq> None"

lemma starts_with_append [simp]: "starts_with d (d @ r)"
  by (simp add: starts_with_def)

lemma cut_at_here: "cut_at d (d @ r) = Some ([], r)"
  by (cases d; cases r) (auto simp: starts_with_def)

text \<open>A delimiter whose first character does not come again in it cannot overlap itself.\<close>

lemma no_overlap:
  assumes "starts_with (c # d) (x @ (c # d) @ r)" "c \<notin> set d" "x \<noteq> []"
  shows "starts_with (c # d) x"
proof (cases "Suc (length d) \<le> length x")
  case True
  then show ?thesis using assms(1) by (simp add: starts_with_def)
next
  case False
  let ?n = "length x"
  have n: "0 < ?n" "?n < Suc (length d)" using False assms(3) by auto
  have "take (Suc (length d)) (x @ (c # d) @ r) ! ?n = (c # d) ! ?n"
    using assms(1) by (simp add: starts_with_def)
  then have "c = (c # d) ! ?n" using n by (simp add: nth_append)
  then have "c = d ! (?n - 1)" using n(1) by (simp add: nth_Cons')
  moreover have "d ! (?n - 1) \<in> set d" using n by (intro nth_mem) linarith
  ultimately show ?thesis using assms(2) by simp
qed

lemma cut_at_append:
  assumes "c \<notin> set d" "\<not> occurs (c # d) x"
  shows "cut_at (c # d) (x @ (c # d) @ r) = Some (x, r)"
  using assms(2)
proof (induction x)
  case Nil
  then show ?case using cut_at_here [of "c # d" r] by simp
next
  case (Cons y ys)
  have ns: "\<not> starts_with (c # d) (y # ys)" and rec: "\<not> occurs (c # d) ys"
    using Cons.prems by (auto simp: occurs_def split: if_splits)
  then have "\<not> starts_with (c # d) ((y # ys) @ (c # d) @ r)"
    using no_overlap [of c d "y # ys" r] assms(1) by blast
  then show ?case using Cons.IH [OF rec] by simp
qed

lemma cut_at_shrinks: "cut_at d s = Some (x, r) \<Longrightarrow> d \<noteq> [] \<Longrightarrow> length r < length s"
  by (induction s arbitrary: x r) (auto split: if_splits)

lemma not_occurs_subset: "c \<in> set d \<Longrightarrow> c \<notin> set s \<Longrightarrow> \<not> occurs d s"
proof (induction s)
  case (Cons y ys)
  have "\<not> starts_with d (y # ys)"
  proof
    assume "starts_with d (y # ys)"
    then have "set d \<subseteq> set (y # ys)" unfolding starts_with_def by (metis set_take_subset)
    then show False using Cons.prems by auto
  qed
  then show ?case using Cons by (simp add: occurs_def)
qed (auto simp: occurs_def)

definition delimiter :: "string \<Rightarrow> string" where
  "delimiter b = CRLF @ ''--'' @ b"

text \<open>
  One part: the rest of the boundary line, the two header lines, an empty line, then the data. The
  field name stands between the first pair of quotes.
\<close>

definition read_line :: "string \<Rightarrow> (string \<times> string) option" where
  "read_line = cut_at CRLF"

definition read_part :: "string \<Rightarrow> QuiltPart option" where
  "read_part seg =
     (case read_line seg of
        None \<Rightarrow> None
      | Some (l0, s1) \<Rightarrow>
     (case read_line s1 of
        None \<Rightarrow> None
      | Some (disp, s2) \<Rightarrow>
     (case read_line s2 of
        None \<Rightarrow> None
      | Some (ctype, s3) \<Rightarrow>
     (case read_line s3 of
        None \<Rightarrow> None
      | Some (l4, dat) \<Rightarrow>
     (case cut_at QUOTE disp of
        None \<Rightarrow> None
      | Some (pre, q1) \<Rightarrow>
     (case cut_at QUOTE q1 of
        None \<Rightarrow> None
      | Some (name, q2) \<Rightarrow> Some \<lparr>Identifier = name, Data = dat\<rparr>))))))"

function read_parts :: "string \<Rightarrow> string \<Rightarrow> QuiltPart list option" where
  "read_parts b r =
     (if starts_with ''--'' r then Some []
      else (case cut_at (delimiter b) r of
              None \<Rightarrow> None
            | Some (seg, r') \<Rightarrow>
                (case read_part seg of
                   None \<Rightarrow> None
                 | Some p \<Rightarrow> map_option (\<lambda>ps. p # ps) (read_parts b r'))))"
  by pat_completeness auto
termination
  by (relation "measure (\<lambda>(b, r). length r)") (auto dest: cut_at_shrinks simp: delimiter_def CRLF_def)

declare read_parts.simps [simp del]

definition read_multipart :: "string \<Rightarrow> bytes \<Rightarrow> QuiltPart list option" where
  "read_multipart b body =
     (case cut_at (delimiter b) (CRLF @ body) of
        Some (preamble, r) \<Rightarrow> read_parts b r
      | None \<Rightarrow> None)"

text \<open>
  Identifiers that stand in a header unescaped on one line, and data in which the delimiter does not
  occur, not even across the empty line before it.
\<close>

definition clean_part :: "string \<Rightarrow> QuiltPart \<Rightarrow> bool" where
  "clean_part b p \<longleftrightarrow> plain_id (Identifier p) \<and> CHR 0x0D \<notin> set (Identifier p)
     \<and> \<not> occurs (delimiter b) (CRLF @ Data p)"

lemma occurs_Cons: "occurs d (c # cs) \<longleftrightarrow> starts_with d (c # cs) \<or> occurs d cs"
  by (auto simp: occurs_def)

lemma not_occurs_skip:
  "c \<notin> set l \<Longrightarrow> \<not> occurs (c # d) s \<Longrightarrow> \<not> occurs (c # d) (l @ s)"
  by (induction l) (auto simp: occurs_Cons starts_with_def)

lemma not_occurs_break:
  "\<not> occurs (delimiter b) (x # s) \<Longrightarrow> x \<noteq> CHR ''-'' \<Longrightarrow> \<not> occurs (delimiter b) (CRLF @ x # s)"
  by (auto simp: occurs_Cons starts_with_def delimiter_def CRLF_def)

definition disposition :: "string \<Rightarrow> string" where
  "disposition n = ''Content-Disposition: form-data; name='' @ QUOTE @ n @ QUOTE @ ''; filename='' @ QUOTE @ n @ QUOTE"

definition segment :: "QuiltPart \<Rightarrow> string" where
  "segment p = CRLF @ disposition (Identifier p) @ CRLF @ ''Content-Type: application/octet-stream'' @ CRLF @ CRLF @ Data p"

lemma escapeQuotes_plain: "plain_id s \<Longrightarrow> escapeQuotes s = s"
  by (induction s) (auto simp: plain_id_def escapeQuotes_def)

lemma CreateFormFile_segment:
  "plain_id (Identifier p) \<Longrightarrow>
   CRLF @ CreateFormFile b True (Identifier p) (Identifier p) @ Data p = delimiter b @ segment p"
  "plain_id (Identifier p) \<Longrightarrow>
   CreateFormFile b False (Identifier p) (Identifier p) @ Data p = delimiter b @ segment p"
proof -
  assume p: "plain_id (Identifier p)"
  from escapeQuotes_plain [OF this] show "CRLF @ CreateFormFile b True (Identifier p) (Identifier p) @ Data p = delimiter b @ segment p"
    and "CreateFormFile b False (Identifier p) (Identifier p) @ Data p = delimiter b @ segment p"
    by (simp_all add: CreateFormFile_def CreatePart_def delimiter_def segment_def disposition_def)
qed

lemma write_parts_segments:
  "\<forall>p\<in>set ps. plain_id (Identifier p) \<Longrightarrow>
   write_parts b False ps = concat (map (\<lambda>p. delimiter b @ segment p) ps)"
  by (induction ps) (auto simp: CreateFormFile_segment)

lemma segment_clean: "clean_part b p \<Longrightarrow> \<not> occurs (delimiter b) (segment p)"
proof -
  assume p: "clean_part b p"
  let ?D = "delimiter b" and ?ct = "''Content-Type: application/octet-stream''"
  have D: "?D = CHR 0x0D # CHR 0x0A # ''--'' @ b" by (simp add: delimiter_def CRLF_def)
  have "\<not> occurs ?D (CRLF @ Data p)" using p by (simp add: clean_part_def)
  then have "\<not> occurs ?D (CRLF @ CRLF @ Data p)"
    using not_occurs_break [of b "CHR 0x0D" "CHR 0x0A # Data p"] by (simp add: CRLF_def)
  then have "\<not> occurs ?D (?ct @ CRLF @ CRLF @ Data p)"
    unfolding D by (rule not_occurs_skip [rotated]) simp
  then have "\<not> occurs ?D (CRLF @ ?ct @ CRLF @ CRLF @ Data p)"
    using not_occurs_break [of b "CHR ''C''"] by simp
  then have "\<not> occurs ?D (disposition (Identifier p) @ CRLF @ ?ct @ CRLF @ CRLF @ Data p)"
    unfolding D by (rule not_occurs_skip [rotated])
      (use p in \<open>auto simp: disposition_def QUOTE_def clean_part_def\<close>)
  then show ?thesis
    using not_occurs_break [of b "CHR ''C''"] by (simp add: segment_def disposition_def)
qed

lemma read_line_append: "CHR 0x0D \<notin> set l \<Longrightarrow> read_line (l @ CRLF @ r) = Some (l, r)"
  unfolding read_line_def CRLF_def
  by (rule cut_at_append)
    (auto dest: not_occurs_subset [where d = "[CHR 0x0D, CHR 0x0A]", rotated])

lemma cut_quote: "CHR 0x22 \<notin> set l \<Longrightarrow> cut_at QUOTE (l @ QUOTE @ r) = Some (l, r)"
  unfolding QUOTE_def
  by (rule cut_at_append) (auto dest: not_occurs_subset [where d = "[CHR 0x22]", rotated])

lemma read_part_segment: "clean_part b p \<Longrightarrow> read_part (segment p) = Some p"
proof -
  assume p: "clean_part b p"
  let ?ct = "''Content-Type: application/octet-stream''" and ?n = "Identifier p"
  have q: "CHR 0x22 \<notin> set ?n" "CHR 0x0D \<notin> set ?n"
    using p by (auto simp: clean_part_def plain_id_def QUOTE_def)
  have l0: "read_line (segment p) = Some ([], disposition ?n @ CRLF @ ?ct @ CRLF @ CRLF @ Data p)"
    using read_line_append [of "[]"] by (simp add: segment_def)
  have l1: "read_line (disposition ?n @ CRLF @ ?ct @ CRLF @ CRLF @ Data p)
      = Some (disposition ?n, ?ct @ CRLF @ CRLF @ Data p)"
    by (rule read_line_append) (use q in \<open>auto simp: disposition_def QUOTE_def\<close>)
  have l2: "read_line (?ct @ CRLF @ CRLF @ Data p) = Some (?ct, CRLF @ Data p)"
    by (rule read_line_append) simp
  have l3: "read_line (CRLF @ Data p) = Some ([], Data p)"
    using read_line_append [of "[]"] by simp
  have n1: "cut_at QUOTE (disposition ?n) = Some (''Content-Disposition: form-data; name='',
      ?n @ QUOTE @ ''; filename='' @ QUOTE @ ?n @ QUOTE)"
    unfolding disposition_def by (rule cut_quote) simp
  have n2: "cut_at QUOTE (?n @ QUOTE @ ''; filename='' @ QUOTE @ ?n @ QUOTE)
      = Some (?n, ''; filename='' @ QUOTE @ ?n @ QUOTE)"
    by (rule cut_quote) (rule q)
  show ?thesis
    unfolding read_part_def l0 l1 l2 l3 option.case prod.case n1 n2 by simp
qed

lemma read_parts_written:
  assumes "CHR 0x0D \<notin> set b" "\<forall>p\<in>set ps. clean_part b p"
  shows "\<exists>r. concat (map (\<lambda>p. delimiter b @ segment p) ps) @ multipart_Close b = delimiter b @ r
    \<and> read_parts b r = Some ps"
  using assms(2)
proof (induction ps)
  case Nil
  have "multipart_Close b = delimiter b @ ''--'' @ CRLF" by (simp add: multipart_Close_def delimiter_def)
  then show ?case by (auto simp: read_parts.simps starts_with_def)
next
  case (Cons p ps)
  obtain r where r: "concat (map (\<lambda>p. delimiter b @ segment p) ps) @ multipart_Close b = delimiter b @ r"
    "read_parts b r = Some ps" using Cons by auto
  have D: "delimiter b = CHR 0x0D # CHR 0x0A # ''--'' @ b" by (simp add: delimiter_def CRLF_def)
  have cut: "cut_at (delimiter b) (segment p @ delimiter b @ r) = Some (segment p, r)"
    unfolding D by (rule cut_at_append) (use assms(1) segment_clean [of b p] Cons.prems D in auto)
  have "\<not> starts_with ''--'' (segment p @ delimiter b @ r)"
    by (simp add: segment_def CRLF_def starts_with_def)
  then have "read_parts b (segment p @ delimiter b @ r) = Some (p # ps)"
    using cut r(2) read_part_segment [of b p] Cons.prems by (subst read_parts.simps) simp
  then show ?case using r(1) by auto
qed

lemma read_multipart_written:
  assumes "SetBoundary b = Inr b" "CHR 0x0D \<notin> set b" "ps \<noteq> []" "\<forall>p\<in>set ps. clean_part b p"
  shows "read_multipart b (fst (writeMultipartBody ps b)) = Some ps"
proof -
  obtain p qs where ps: "ps = p # qs" using assms(3) by (cases ps) auto
  have plain: "\<forall>p\<in>set ps. plain_id (Identifier p)" using assms(4) by (auto simp: clean_part_def)
  have "CRLF @ write_parts b True ps = concat (map (\<lambda>p. delimiter b @ segment p) ps)"
    using CreateFormFile_segment(1) [of p b] write_parts_segments [of qs b] plain ps by simp
  then have "CRLF @ fst (writeMultipartBody ps b)
      = concat (map (\<lambda>p. delimiter b @ segment p) ps) @ multipart_Close b"
    using assms(1) by (simp add: writeMultipartBody_def append_assoc [symmetric] del: append_assoc)
  then show ?thesis
    using read_parts_written [OF assms(2,4)] cut_at_here [of "delimiter b"]
    by (auto simp: read_multipart_def)
qed

subsection \<open>Properties\<close>

text \<open>
  C32. For identifiers that need no quoting, \<open>multipartBodyLength\<close> is the exact number of bytes
  \<open>writeMultipartBody\<close> streams, as the comment in the code demands (as an \<open>int64\<close>, so exact below 2^63 bytes).
\<close>

theorem multipartBodyLength_exact:
  assumes "SetBoundary b = Inr b" and "\<forall>p\<in>set parts. plain_id (Identifier p)"
    and "len64 (fst (writeMultipartBody parts b)) < 2 ^ 63"
  shows "snd (writeMultipartBody parts b) = None
    \<and> multipartBodyLength parts b = len64 (fst (writeMultipartBody parts b))"
proof -
  have "wrap64 (len64 (fst (writeMultipartBody parts b))) = len64 (fst (writeMultipartBody parts b))"
    using assms(3) by (intro wrap64_id) (simp add: in_i64_def)
  then show ?thesis
    using multipartBodyLength_wrap [OF assms(1,2)] assms(1) by (simp add: writeMultipartBody_def)
qed

definition sample_parts :: "QuiltPart list" where
  "sample_parts = [\<lparr>Identifier = ''0'', Data = ''hello''\<rparr>, \<lparr>Identifier = ''1'', Data = []\<rparr>]"

definition sample_boundary :: string where
  "sample_boundary = replicate 60 (CHR ''0'')"

lemma sample_boundary_ok: "SetBoundary sample_boundary = Inr sample_boundary"
  by (rule SetBoundary_alnum) (auto simp: sample_boundary_def is_alnum_def is_digit_def)

lemma length_sample_boundary: "length sample_boundary = 60"
  by (simp add: sample_boundary_def)

lemma sample_clean: "\<forall>p\<in>set sample_parts. clean_part sample_boundary p"
proof -
  have "\<not> occurs (delimiter sample_boundary) (CRLF @ d)" if "set d \<inter> {CHR ''-'', CHR 0x0D} = {}" for d
    by (rule not_occurs_subset [of "CHR ''-''"]) (use that in \<open>auto simp: delimiter_def CRLF_def\<close>)
  from this [of "''hello''"] this [of "[]"] show ?thesis
    by (simp add: sample_parts_def clean_part_def plain_id_def BACKSLASH_def QUOTE_def)
qed

theorem multipartBodyLength_exact_witness:
  "multipartBodyLength sample_parts sample_boundary
   = len64 (fst (writeMultipartBody sample_parts sample_boundary))"
proof -
  have plain: "\<forall>p\<in>set sample_parts. plain_id (Identifier p)"
    by (simp add: sample_parts_def plain_id_def BACKSLASH_def QUOTE_def)
  have "len64 (write_parts sample_boundary True sample_parts) \<le> 1000"
    using length_write_parts [OF plain, of sample_boundary True]
    by (simp add: sample_parts_def length_sample_boundary)
  then have "len64 (fst (writeMultipartBody sample_parts sample_boundary)) < 2 ^ 63"
    by (simp add: writeMultipartBody_def sample_boundary_ok multipart_Close_def CRLF_def length_sample_boundary)
  from multipartBodyLength_exact [OF sample_boundary_ok plain this] show ?thesis by simp
qed

text \<open>
  The announced length is wrong as soon as one identifier needs quoting: the writer escapes backslashes
  and quotes, the length does not count the escapes. (Quilt members are numbered, so the program never
  sends such an identifier.)
\<close>

theorem multipartBodyLength_misses_escapes:
  assumes "SetBoundary b = Inr b" and "\<not> plain_id (Identifier p)"
    and "len64 (fst (writeMultipartBody [p] b)) < 2 ^ 63"
  shows "multipartBodyLength [p] b < len64 (fst (writeMultipartBody [p] b))"
proof -
  have esc: "len64 (Identifier p) < len64 (escapeQuotes (Identifier p))"
    using assms(2) length_escapeQuotes [of "Identifier p"] escapeQuotes_id_iff [of "Identifier p"]
    unfolding plain_id_def by (metis le_neq_implies_less of_nat_less_iff)
  let ?n = "108 + 2 * len64 b + 2 * len64 (Identifier p) + len64 (Data p)"
  have body: "len64 (fst (writeMultipartBody [p] b))
      = 108 + 2 * len64 b + 2 * len64 (escapeQuotes (Identifier p)) + len64 (Data p)"
    using assms(1) length_CreateFormFile [of b True "Identifier p" "Identifier p"]
    by (simp add: writeMultipartBody_def multipart_Close_def CRLF_def)
  have "multipartBodyLength [p] b = wrap64 ?n"
    unfolding multipartBodyLength_def length_parts.simps Let_def wrap64_add add.assoc
    by (intro arg_cong [where f = wrap64]) (simp add: CRLF_def QUOTE_def)
  moreover have "wrap64 ?n = ?n"
  proof (rule wrap64_small)
    show "?n < 9223372036854775808" using esc body assms(3) by simp
  qed simp
  ultimately show ?thesis using esc body by simp
qed

theorem multipartBodyLength_misses_escapes_witness:
  "multipartBodyLength [\<lparr>Identifier = QUOTE, Data = ''x''\<rparr>] sample_boundary
   < len64 (fst (writeMultipartBody [\<lparr>Identifier = QUOTE, Data = ''x''\<rparr>] sample_boundary))"
proof (rule multipartBodyLength_misses_escapes [OF sample_boundary_ok])
  show "\<not> plain_id (Identifier \<lparr>Identifier = QUOTE, Data = ''x''\<rparr>)" by (simp add: plain_id_def QUOTE_def)
  show "len64 (fst (writeMultipartBody [\<lparr>Identifier = QUOTE, Data = ''x''\<rparr>] sample_boundary)) < 2 ^ 63"
    using length_CreateFormFile [of sample_boundary True QUOTE QUOTE]
    by (simp add: writeMultipartBody_def sample_boundary_ok multipart_Close_def CRLF_def
        length_sample_boundary QUOTE_def escapeQuotes_def)
qed

text \<open>
  C33. A reader of the multipart format recovers from the streamed body exactly the parts that were written,
  in order, with their identifiers and bytes, provided the boundary's delimiter does not occur in the data.
\<close>

theorem multipart_roundtrip:
  assumes "SetBoundary b = Inr b" and "CHR 0x0D \<notin> set b" and "parts \<noteq> []"
    and "\<forall>p\<in>set parts. clean_part b p"
  shows "read_multipart b (fst (writeMultipartBody parts b)) = Some parts"
  by (rule read_multipart_written [OF assms])

theorem multipart_roundtrip_witness:
  "read_multipart sample_boundary (fst (writeMultipartBody sample_parts sample_boundary)) = Some sample_parts"
  by (rule multipart_roundtrip [OF sample_boundary_ok _ _ sample_clean])
    (auto simp: sample_boundary_def sample_parts_def)

end
