(* ===== verification/Client.thy ===== *)
theory Client
  imports Multipart Json
begin

text \<open>
  The operations of \<open>src/client.go\<close>: uploads of blobs and quilts, whole, range and quilt-patch reads
  through the blob cache, and the parsing of the publisher's replies. Each operation is its guards followed
  by the failover loop of \<open>Transport\<close>; the body of a quilt upload is in \<open>Multipart\<close>.
\<close>

subsection \<open>Data\<close>

record StoreResult =
  srBlobID :: string
  srObjectID :: string
  srEndEpoch :: "64 word"
  srEncodedSize :: int
  srCost :: "64 word"

record QuiltPatch =
  qpIdentifier :: string
  qpQuiltPatchID :: string

record QuiltStoreResult =
  qsQuiltID :: string
  qsObjectID :: string
  qsEndEpoch :: "64 word"
  qsEncodedSize :: int
  qsCost :: "64 word"
  qsPatches :: "QuiltPatch list"

subsection \<open>Replies of a publisher\<close>

record Storage =
  StartEpoch :: "64 word"
  EndEpoch :: "64 word"
  StorageSize :: int

record BlobObject =
  boID :: string
  boBlobID :: string
  boSize :: int
  boStorage :: Storage

record NewlyCreated =
  ncBlobObject :: BlobObject
  ncRegisterFromScratch :: "int option"
  ncCost :: "64 word"

record AlreadyCertified =
  acBlobID :: string
  acEndEpoch :: "64 word"

record storeResponse =
  NewlyCreated :: "NewlyCreated option"
  AlreadyCertified :: "AlreadyCertified option"

record quiltBlob =
  qbIdentifier :: string
  qbQuiltPatchID :: string

record quiltStoreResponse =
  BlobStoreResult :: storeResponse
  StoredQuiltBlobs :: "quiltBlob list"

text \<open>The zero values and the field decoders the \<open>json\<close> tags describe.\<close>

definition zero_Storage :: Storage where
  "zero_Storage = \<lparr>StartEpoch = 0, EndEpoch = 0, StorageSize = 0\<rparr>"

definition zero_NewlyCreated :: NewlyCreated where
  "zero_NewlyCreated =
     \<lparr>ncBlobObject = \<lparr>boID = [], boBlobID = [], boSize = 0, boStorage = zero_Storage\<rparr>,
      ncRegisterFromScratch = None, ncCost = 0\<rparr>"

definition zero_storeResponse :: storeResponse where
  "zero_storeResponse = \<lparr>NewlyCreated = None, AlreadyCertified = None\<rparr>"

definition dec_Storage :: "Storage decoder" where
  "dec_Storage = dec_struct
     [(''startEpoch'', at_field StartEpoch (\<lambda>v x. x\<lparr>StartEpoch := v\<rparr>) dec_uint64),
      (''endEpoch'', at_field EndEpoch (\<lambda>v x. x\<lparr>EndEpoch := v\<rparr>) dec_uint64),
      (''storageSize'', at_field StorageSize (\<lambda>v x. x\<lparr>StorageSize := v\<rparr>) dec_int64)]"

definition dec_BlobObject :: "BlobObject decoder" where
  "dec_BlobObject = dec_struct
     [(''id'', at_field boID (\<lambda>v x. x\<lparr>boID := v\<rparr>) dec_string),
      (''blobId'', at_field boBlobID (\<lambda>v x. x\<lparr>boBlobID := v\<rparr>) dec_string),
      (''size'', at_field boSize (\<lambda>v x. x\<lparr>boSize := v\<rparr>) dec_int64),
      (''storage'', at_field boStorage (\<lambda>v x. x\<lparr>boStorage := v\<rparr>) dec_Storage)]"

text \<open>\<open>resourceOperation\<close> is a struct with one pointer field, kept as that pointer.\<close>

definition dec_ResourceOperation :: "int option decoder" where
  "dec_ResourceOperation = dec_struct
     [(''registerFromScratch'',
       dec_ptr 0 (dec_struct [(''encodedLength'', dec_int64)]))]"

definition dec_NewlyCreated :: "NewlyCreated decoder" where
  "dec_NewlyCreated = dec_struct
     [(''blobObject'', at_field ncBlobObject (\<lambda>v x. x\<lparr>ncBlobObject := v\<rparr>) dec_BlobObject),
      (''resourceOperation'',
       at_field ncRegisterFromScratch (\<lambda>v x. x\<lparr>ncRegisterFromScratch := v\<rparr>) dec_ResourceOperation),
      (''cost'', at_field ncCost (\<lambda>v x. x\<lparr>ncCost := v\<rparr>) dec_uint64)]"

definition dec_AlreadyCertified :: "AlreadyCertified decoder" where
  "dec_AlreadyCertified = dec_struct
     [(''blobId'', at_field acBlobID (\<lambda>v x. x\<lparr>acBlobID := v\<rparr>) dec_string),
      (''endEpoch'', at_field acEndEpoch (\<lambda>v x. x\<lparr>acEndEpoch := v\<rparr>) dec_uint64)]"

definition dec_storeResponse :: "storeResponse decoder" where
  "dec_storeResponse = dec_struct
     [(''newlyCreated'', at_field NewlyCreated (\<lambda>v x. x\<lparr>NewlyCreated := v\<rparr>)
         (dec_ptr zero_NewlyCreated dec_NewlyCreated)),
      (''alreadyCertified'', at_field AlreadyCertified (\<lambda>v x. x\<lparr>AlreadyCertified := v\<rparr>)
         (dec_ptr \<lparr>acBlobID = [], acEndEpoch = 0\<rparr> dec_AlreadyCertified))]"

definition dec_quiltBlob :: "quiltBlob decoder" where
  "dec_quiltBlob = dec_struct
     [(''identifier'', at_field qbIdentifier (\<lambda>v x. x\<lparr>qbIdentifier := v\<rparr>) dec_string),
      (''quiltPatchId'', at_field qbQuiltPatchID (\<lambda>v x. x\<lparr>qbQuiltPatchID := v\<rparr>) dec_string)]"

definition dec_quiltStoreResponse :: "quiltStoreResponse decoder" where
  "dec_quiltStoreResponse = dec_struct
     [(''blobStoreResult'', at_field BlobStoreResult (\<lambda>v x. x\<lparr>BlobStoreResult := v\<rparr>) dec_storeResponse),
      (''storedQuiltBlobs'', at_field StoredQuiltBlobs (\<lambda>v x. x\<lparr>StoredQuiltBlobs := v\<rparr>)
         (dec_slice \<lparr>qbIdentifier = [], qbQuiltPatchID = []\<rparr> dec_quiltBlob))]"

text \<open>
  \<open>json.NewDecoder(res.Body).Decode\<close>: the first value of the body decides; when the body ends or
  fails before the value is complete the call fails.
\<close>

definition json_Decode :: "'a \<Rightarrow> 'a decoder \<Rightarrow> response \<Rightarrow> 'a res" where
  "json_Decode zero dec res =
     (case parse_first (resp_body res) of
        None \<Rightarrow> Inl (case resp_err res of Some e \<Rightarrow> e | None \<Rightarrow> Opaque ''encoding/json: bad input'')
      | Some j \<Rightarrow> (case dec zero j of
                     None \<Rightarrow> Inl (Opaque ''encoding/json: cannot unmarshal'')
                   | Some v \<Rightarrow> Inr v))"

text \<open>The second and third case of \<open>result\<close>'s switch.\<close>

definition certified_result :: "AlreadyCertified option \<Rightarrow> StoreResult res" where
  "certified_result ac =
     (case ac of
        Some a \<Rightarrow>
          if acBlobID a \<noteq> [] then
            Inr \<lparr>srBlobID = acBlobID a, srObjectID = [], srEndEpoch = acEndEpoch a,
                 srEncodedSize = 0, srCost = 0\<rparr>
          else Inl (Errorf ''walrusds: store response missing blob ID'' [])
      | None \<Rightarrow> Inl (Errorf ''walrusds: store response missing blob ID'' []))"

definition storeResponse_result :: "storeResponse \<Rightarrow> StoreResult res" where
  "storeResponse_result sr =
     (case NewlyCreated sr of
        Some nc \<Rightarrow>
          if boBlobID (ncBlobObject nc) \<noteq> [] then
            (let encoded0 = StorageSize (boStorage (ncBlobObject nc));
                 encoded = (case ncRegisterFromScratch nc of
                              Some el \<Rightarrow> if encoded0 = 0 then el else encoded0
                            | None \<Rightarrow> encoded0)
             in Inr \<lparr>srBlobID = boBlobID (ncBlobObject nc), srObjectID = boID (ncBlobObject nc),
                     srEndEpoch = EndEpoch (boStorage (ncBlobObject nc)),
                     srEncodedSize = encoded, srCost = ncCost nc\<rparr>)
          else certified_result (AlreadyCertified sr)
      | None \<Rightarrow> certified_result (AlreadyCertified sr))"

definition status_error :: "string \<Rightarrow> response \<Rightarrow> err" where
  "status_error msg res = Errorf msg [AInt (StatusCode res), AStr (body_excerpt res)]"

definition parseStoreResponse :: "response \<Rightarrow> StoreResult res" where
  "parseStoreResponse res =
     (if StatusCode res < 200 \<or> StatusCode res \<ge> 300
      then Inl (status_error ''walrusds: publisher returned %d: %s'' res)
      else (case json_Decode zero_storeResponse dec_storeResponse res of
              Inl e \<Rightarrow> Inl (Wrapf ''walrusds: decoding store response: %w'' [] e)
            | Inr sr \<Rightarrow> storeResponse_result sr))"

fun quilt_patches :: "quiltBlob list \<Rightarrow> QuiltPatch list res" where
  "quilt_patches [] = Inr []"
| "quilt_patches (sb # sbs) =
     (if qbQuiltPatchID sb = []
      then Inl (Errorf ''walrusds: quilt store response missing patch ID for %q'' [AStr (qbIdentifier sb)])
      else (case quilt_patches sbs of
              Inl e \<Rightarrow> Inl e
            | Inr ps \<Rightarrow> Inr (\<lparr>qpIdentifier = qbIdentifier sb, qpQuiltPatchID = qbQuiltPatchID sb\<rparr> # ps)))"

definition parseQuiltStoreResponse :: "response \<Rightarrow> QuiltStoreResult res" where
  "parseQuiltStoreResponse res =
     (if StatusCode res < 200 \<or> StatusCode res \<ge> 300
      then Inl (status_error ''walrusds: publisher returned %d: %s'' res)
      else (case json_Decode \<lparr>BlobStoreResult = zero_storeResponse, StoredQuiltBlobs = []\<rparr>
                   dec_quiltStoreResponse res of
              Inl e \<Rightarrow> Inl (Wrapf ''walrusds: decoding quilt store response: %w'' [] e)
            | Inr qr \<Rightarrow>
                (case storeResponse_result (BlobStoreResult qr) of
                   Inl e \<Rightarrow> Inl e
                 | Inr blob \<Rightarrow>
                     if StoredQuiltBlobs qr = []
                     then Inl (Errorf ''walrusds: quilt store response missing stored blobs'' [])
                     else (case quilt_patches (StoredQuiltBlobs qr) of
                             Inl e \<Rightarrow> Inl e
                           | Inr ps \<Rightarrow>
                               Inr \<lparr>qsQuiltID = srBlobID blob, qsObjectID = srObjectID blob,
                                    qsEndEpoch = srEndEpoch blob, qsEncodedSize = srEncodedSize blob,
                                    qsCost = srCost blob, qsPatches = ps\<rparr>))))"

subsection \<open>Uploads\<close>

definition store_query :: "int \<Rightarrow> bool \<Rightarrow> url_Values" where
  "store_query epochs deletable =
     (let q0 = [];
          q1 = (if epochs > 0 then Values_Set ''epochs'' (itoa epochs) q0 else q0)
      in if deletable then Values_Set ''deletable'' ''true'' q1 else q1)"

definition endpoint_with :: "string \<Rightarrow> url_Values \<Rightarrow> string" where
  "endpoint_with url q = (let enc = Values_Encode q in if enc \<noteq> [] then url @ ''?'' @ enc else url)"

definition store_request :: "string \<Rightarrow> bytes \<Rightarrow> request" where
  "store_request endpoint value =
     \<lparr>rq_method = ''PUT'', rq_url = endpoint, rq_headers = [(''Content-Type'', ''application/octet-stream'')],
      rq_length = len64 value, rq_body = value, rq_body_err = None\<rparr>"

definition store_iter ::
  "'s net \<Rightarrow> Client \<Rightarrow> bytes \<Rightarrow> url_Values \<Rightarrow> string \<Rightarrow> 's \<Rightarrow> StoreResult iter \<times> 's" where
  "store_iter N c value q base s =
     (let endpoint = endpoint_with (base @ ''/v1/blobs'') q
      in case doWithRetry N c (send N (store_request endpoint value)) s of
           (Inl e, s') \<Rightarrow> (next_endpoint e, s')
         | (Inr None, s') \<Rightarrow> (Return (Inl nil_response), s')
         | (Inr (Some res), s') \<Rightarrow>
             (case parseStoreResponse res of
                Inl e \<Rightarrow> (next_endpoint e, s')
              | Inr result \<Rightarrow> (Return (Inr result), s')))"

definition Client_Store ::
  "'s net \<Rightarrow> Client \<Rightarrow> bytes \<Rightarrow> int \<Rightarrow> bool \<Rightarrow> 's \<Rightarrow> StoreResult res \<times> 's" where
  "Client_Store N c value epochs deletable s =
     (if publishers c = [] then (Inl (Errorf ''walrusds: no publisher URLs configured'' []), s)
      else range_loop (store_iter N c value (store_query epochs deletable))
             ''walrusds: store failed on all publishers: %w'' (publishers c) None s)"

definition quilt_request :: "string \<Rightarrow> QuiltPart list \<Rightarrow> string \<Rightarrow> request" where
  "quilt_request endpoint parts boundary =
     \<lparr>rq_method = ''PUT'', rq_url = endpoint,
      rq_headers = [(''Content-Type'', ''multipart/form-data; boundary='' @ boundary)],
      rq_length = multipartBodyLength parts boundary,
      rq_body = fst (writeMultipartBody parts boundary),
      rq_body_err = snd (writeMultipartBody parts boundary)\<rparr>"

definition quilt_iter ::
  "'s net \<Rightarrow> Client \<Rightarrow> QuiltPart list \<Rightarrow> string \<Rightarrow> url_Values \<Rightarrow> string \<Rightarrow> 's
     \<Rightarrow> QuiltStoreResult iter \<times> 's" where
  "quilt_iter N c parts boundary q base s =
     (let endpoint = endpoint_with (base @ ''/v1/quilts'') q
      in case doWithRetry N c (send N (quilt_request endpoint parts boundary)) s of
           (Inl e, s') \<Rightarrow> (next_endpoint e, s')
         | (Inr None, s') \<Rightarrow> (Return (Inl nil_response), s')
         | (Inr (Some res), s') \<Rightarrow>
             (case parseQuiltStoreResponse res of
                Inl e \<Rightarrow> (next_endpoint e, s')
              | Inr result \<Rightarrow> (Return (Inr result), s')))"

definition StoreQuilt ::
  "'s net \<Rightarrow> Client \<Rightarrow> QuiltPart list \<Rightarrow> int \<Rightarrow> bool \<Rightarrow> 's \<Rightarrow> QuiltStoreResult res \<times> 's" where
  "StoreQuilt N c parts epochs deletable s =
     (if publishers c = [] then (Inl (Errorf ''walrusds: no publisher URLs configured'' []), s)
      else if parts = [] then (Inl (Errorf ''walrusds: store-quilt called with no parts'' []), s)
      else (case multipartBoundary N s of
              (Inl e, s') \<Rightarrow> (Inl (Wrapf ''walrusds: building quilt body: %w'' [] e), s')
            | (Inr boundary, s') \<Rightarrow>
                range_loop (quilt_iter N c parts boundary (store_query epochs deletable))
                  ''walrusds: store-quilt failed on all publishers: %w'' (publishers c) None s'))"

subsection \<open>Reads\<close>

definition get_request :: "string \<Rightarrow> (string \<times> string) list \<Rightarrow> request" where
  "get_request endpoint headers =
     \<lparr>rq_method = ''GET'', rq_url = endpoint, rq_headers = headers, rq_length = 0, rq_body = [],
      rq_body_err = None\<rparr>"

definition blob_url :: "string \<Rightarrow> string \<Rightarrow> string" where
  "blob_url base blobID = base @ ''/v1/blobs/'' @ PathEscape blobID"

definition patch_url :: "string \<Rightarrow> string \<Rightarrow> string" where
  "patch_url base patchID = base @ ''/v1/blobs/by-quilt-patch-id/'' @ PathEscape patchID"

definition readBlobResponse :: "response \<Rightarrow> bytes res" where
  "readBlobResponse res =
     (if StatusCode res = 404 then Inl ErrBlobNotFound
      else if StatusCode res \<ge> 200 \<and> StatusCode res < 300 then ReadAll res
      else Inl (status_error ''walrusds: aggregator returned %d: %s'' res))"

text \<open>
  \<open>make([]byte, end-offset)\<close> panics when \<open>end\<close> is below \<open>offset\<close>: the difference is then a negative length, or,
  when it wraps around (only after \<open>offset + length\<close> itself overflowed), one beyond any allocation.
\<close>

definition sliceBlob :: "bytes \<Rightarrow> int \<Rightarrow> int \<Rightarrow> bytes res" where
  "sliceBlob full offset len =
     (if offset < 0 \<or> offset > len64 full
      then Inl (Errorf ''walrusds: offset %d out of range for %d-byte blob'' [AInt offset, AInt (len64 full)])
      else (let end0 = wrap64 (offset + len);
                end1 = (if end0 > len64 full then len64 full else end0)
            in if end1 < offset then Inl (PanicErr ''makeslice: len out of range'')
               else Inr (take (nat (end1 - offset)) (drop (nat offset) full))))"

definition readRangeResponse ::
  "response \<Rightarrow> string \<Rightarrow> int \<Rightarrow> int \<Rightarrow> blobCache option \<Rightarrow> bytes res \<times> blobCache option" where
  "readRangeResponse res blobID offset len cc =
     (if StatusCode res = 404 then (Inl ErrBlobNotFound, cc)
      else if StatusCode res = 206 then
        (case ReadAll res of
           Inl e \<Rightarrow> (Inl e, cc)
         | Inr body \<Rightarrow>
             if len64 body \<noteq> len
             then (Inl (Errorf ''walrusds: aggregator returned %d partial bytes, want %d''
                     [AInt (len64 body), AInt len]), cc)
             else (Inr body, cc))
      else if StatusCode res \<ge> 200 \<and> StatusCode res < 300 then
        (case ReadAll res of
           Inl e \<Rightarrow> (Inl e, cc)
         | Inr body \<Rightarrow> (sliceBlob body offset len, blobCache_add cc blobID body))
      else (Inl (status_error ''walrusds: aggregator returned %d: %s'' res), cc))"

text \<open>The error branch shared by the three reads: a missing blob returns at once.\<close>

definition read_failed :: "err \<Rightarrow> 'a iter" where
  "read_failed e = (if errors_Is e ErrBlobNotFound then Return (Inl ErrBlobNotFound) else next_endpoint e)"

definition read_iter :: "'s net \<Rightarrow> Client \<Rightarrow> string \<Rightarrow> string \<Rightarrow> 's \<Rightarrow> bytes iter \<times> 's" where
  "read_iter N c blobID base s =
     (case doWithRetry N c (send N (get_request (blob_url base blobID) [])) s of
        (Inl e, s') \<Rightarrow> (next_endpoint e, s')
      | (Inr None, s') \<Rightarrow> (Return (Inl nil_response), s')
      | (Inr (Some res), s') \<Rightarrow>
          (case readBlobResponse res of
             Inl e \<Rightarrow> (read_failed e, s')
           | Inr data \<Rightarrow> (Return (Inr data), s')))"

definition Client_Read :: "'s net \<Rightarrow> Client \<Rightarrow> string \<Rightarrow> 's \<Rightarrow> bytes res \<times> 's" where
  "Client_Read N c blobID s =
     (if aggregators c = [] then (Inl (Errorf ''walrusds: no aggregator URLs configured'' []), s)
      else range_loop (read_iter N c blobID) ''walrusds: read failed on all aggregators: %w''
             (aggregators c) None s)"

definition range_header :: "int \<Rightarrow> int \<Rightarrow> string" where
  "range_header offset len =
     ''bytes='' @ itoa offset @ ''-'' @ itoa (wrap64 (wrap64 (offset + len) - 1))"

type_synonym 's cstate = "blobCache option \<times> 's"

definition range_iter ::
  "'s net \<Rightarrow> Client \<Rightarrow> string \<Rightarrow> int \<Rightarrow> int \<Rightarrow> string \<Rightarrow> 's cstate \<Rightarrow> bytes iter \<times> 's cstate" where
  "range_iter N c blobID offset len base = (\<lambda>(cc, s).
     (case doWithRetry N c
             (send N (get_request (blob_url base blobID) [(''Range'', range_header offset len)])) s of
        (Inl e, s') \<Rightarrow> (next_endpoint e, cc, s')
      | (Inr None, s') \<Rightarrow> (Return (Inl nil_response), cc, s')
      | (Inr (Some res), s') \<Rightarrow>
          (case readRangeResponse res blobID offset len cc of
             (Inl e, cc') \<Rightarrow> (read_failed e, cc', s')
           | (Inr data, cc') \<Rightarrow> (Return (Inr data), cc', s'))))"

definition ReadRange ::
  "'s net \<Rightarrow> Client \<Rightarrow> string \<Rightarrow> int \<Rightarrow> int \<Rightarrow> 's cstate \<Rightarrow> bytes res \<times> 's cstate" where
  "ReadRange N c blobID offset len = (\<lambda>(cc, s).
     (if len = 0 then (Inr [], cc, s)
      else if aggregators c = [] then (Inl (Errorf ''walrusds: no aggregator URLs configured'' []), cc, s)
      else (case blobCache_get cc blobID of
              (Some full, cc') \<Rightarrow> (sliceBlob full offset len, cc', s)
            | (None, cc') \<Rightarrow>
                range_loop (range_iter N c blobID offset len)
                  ''walrusds: range read failed on all aggregators: %w'' (aggregators c) None (cc', s))))"

definition patch_iter ::
  "'s net \<Rightarrow> Client \<Rightarrow> string \<Rightarrow> string \<Rightarrow> 's cstate \<Rightarrow> bytes iter \<times> 's cstate" where
  "patch_iter N c patchID base = (\<lambda>(cc, s).
     (case doWithRetry N c (send N (get_request (patch_url base patchID) [])) s of
        (Inl e, s') \<Rightarrow> (next_endpoint e, cc, s')
      | (Inr None, s') \<Rightarrow> (Return (Inl nil_response), cc, s')
      | (Inr (Some res), s') \<Rightarrow>
          (case readBlobResponse res of
             Inl e \<Rightarrow> (read_failed e, cc, s')
           | Inr data \<Rightarrow> (Return (Inr data), blobCache_add cc patchID data, s'))))"

definition ReadQuiltPatch ::
  "'s net \<Rightarrow> Client \<Rightarrow> string \<Rightarrow> 's cstate \<Rightarrow> bytes res \<times> 's cstate" where
  "ReadQuiltPatch N c patchID = (\<lambda>(cc, s).
     (if aggregators c = [] then (Inl (Errorf ''walrusds: no aggregator URLs configured'' []), cc, s)
      else (case blobCache_get cc patchID of
              (Some data, cc') \<Rightarrow> (Inr data, cc', s)
            | (None, cc') \<Rightarrow>
                range_loop (patch_iter N c patchID)
                  ''walrusds: quilt patch read failed on all aggregators: %w'' (aggregators c) None (cc', s))))"

subsection \<open>Framing of requests\<close>

text \<open>What the transport requires of a body whose length was announced.\<close>

definition framed :: "request \<Rightarrow> bool" where
  "framed rq \<longleftrightarrow> rq_body_err rq = None \<and> rq_length rq = len64 (rq_body rq)"

definition quilt_bytes :: "QuiltPart list \<Rightarrow> int" where
  "quilt_bytes parts = (\<Sum>p\<leftarrow>parts. 162 + 2 * len64 (Identifier p) + len64 (Data p))"

lemma quilt_request_framed:
  assumes "SetBoundary b = Inr b" "length b = 60" "\<forall>p\<in>set parts. plain_id (Identifier p)"
    "quilt_bytes parts < 2 ^ 63 - 100"
  shows "framed (quilt_request endpoint parts b)"
proof -
  have "len64 (write_parts b True parts) \<le> quilt_bytes parts"
    using length_write_parts [OF assms(3), of b True] assms(2) by (simp add: quilt_bytes_def)
  then have "len64 (fst (writeMultipartBody parts b)) < 2 ^ 63"
    using assms by (simp add: writeMultipartBody_def multipart_Close_def CRLF_def)
  then have "wrap64 (len64 (fst (writeMultipartBody parts b))) = len64 (fst (writeMultipartBody parts b))"
    by (intro wrap64_id) (simp add: in_i64_def)
  then show ?thesis
    using multipartBodyLength_wrap [OF assms(1,3)] assms(1)
    by (simp add: framed_def quilt_request_def writeMultipartBody_def)
qed

subsection \<open>Provenance of results\<close>

lemma send_Inr: "send N rq s = (Inr res, s') \<Longrightarrow> http_Do N rq s = (Inr res, s')"
  by (auto simp: send_def split: option.splits)

lemma send_inv: "(\<And>s. I s \<Longrightarrow> I (snd (http_Do N rq s))) \<Longrightarrow> I s \<Longrightarrow> I (snd (send N rq s))"
  by (auto simp: send_def split: option.splits)

lemma request_result:
  assumes "ambient N I" "\<And>s. I s \<Longrightarrow> I (snd (http_Do N rq s))" "I s"
    "doWithRetry N c (send N rq) s = (r, s')"
  shows "I s'" and "r = Inr (Some res) \<Longrightarrow> \<exists>s0. I s0 \<and> http_Do N rq s0 = (Inr res, s')"
proof -
  have inv: "\<And>t. I t \<Longrightarrow> I (snd (send N rq t))" by (rule send_inv [of I]) (rule assms(2))
  show "I s'" by (rule doWithRetry_result(1) [OF assms(1) inv assms(3,4)])
  show "\<exists>s0. I s0 \<and> http_Do N rq s0 = (Inr res, s')" if "r = Inr (Some res)"
  proof -
    have "\<exists>s0. I s0 \<and> send N rq s0 = (Inr res, s')"
      using doWithRetry_result(2) [where I = I and A = "send N rq", OF assms(1) _ assms(3,4) that] inv
      by simp
    then show ?thesis by (auto dest: send_Inr)
  qed
qed

lemma result_nonempty:
  "storeResponse_result sr = Inr r \<Longrightarrow> srBlobID r \<noteq> []"
  by (auto simp: storeResponse_result_def certified_result_def Let_def split: if_splits option.splits)

lemma quilt_patches_facts:
  "quilt_patches sbs = Inr ps \<Longrightarrow>
   map qpIdentifier ps = map qbIdentifier sbs \<and> map qpQuiltPatchID ps = map qbQuiltPatchID sbs
   \<and> (\<forall>p\<in>set ps. qpQuiltPatchID p \<noteq> [])"
  by (induction sbs arbitrary: ps) (auto split: if_splits sum.splits)

lemma parseStore_facts:
  "parseStoreResponse res = Inr r \<Longrightarrow> srBlobID r \<noteq> [] \<and> 200 \<le> StatusCode res \<and> StatusCode res < 300"
  by (auto simp: parseStoreResponse_def split: if_splits sum.splits dest: result_nonempty)

lemma parseQuilt_facts:
  assumes "parseQuiltStoreResponse res = Inr r"
  shows "qsQuiltID r \<noteq> [] \<and> qsPatches r \<noteq> [] \<and> (\<forall>p\<in>set (qsPatches r). qpQuiltPatchID p \<noteq> [])
    \<and> 200 \<le> StatusCode res \<and> StatusCode res < 300"
  using assms by (auto simp: parseQuiltStoreResponse_def split: if_splits sum.splits
      dest!: result_nonempty quilt_patches_facts)

lemma store_iter_result:
  assumes "ambient N I" "\<And>ep s. I s \<Longrightarrow> I (snd (http_Do N (store_request ep value) s))" "I s"
    "store_iter N c value q base s = (x, s')"
  shows "I s'" and "x = Return (Inr r) \<Longrightarrow> \<exists>ep s0 res. I s0
    \<and> http_Do N (store_request ep value) s0 = (Inr res, s') \<and> parseStoreResponse res = Inr r"
proof -
  let ?rq = "store_request (endpoint_with (base @ ''/v1/blobs'') q) value"
  obtain y t where d: "doWithRetry N c (send N ?rq) s = (y, t)" by fastforce
  note rr = request_result [OF assms(1) assms(2) assms(3) d]
  have t: "t = s'" using assms(4) d
    by (auto simp: store_iter_def Let_def split: sum.splits option.splits)
  then show "I s'" using rr(1) by simp
  show "\<exists>ep s0 res. I s0 \<and> http_Do N (store_request ep value) s0 = (Inr res, s')
      \<and> parseStoreResponse res = Inr r" if "x = Return (Inr r)"
    using that assms(4) d rr(2) t
    by (auto simp: store_iter_def Let_def next_endpoint_def split: sum.splits option.splits if_splits)
qed

lemma Store_result:
  assumes "ambient N I" "\<And>ep s. I s \<Longrightarrow> I (snd (http_Do N (store_request ep value) s))" "I s"
    "Client_Store N c value epochs deletable s = (x, s')"
  shows "I s'" and "x = Inr r \<Longrightarrow> \<exists>ep s0 res. I s0
    \<and> http_Do N (store_request ep value) s0 = (Inr res, s') \<and> parseStoreResponse res = Inr r"
proof -
  let ?body = "store_iter N c value (store_query epochs deletable)"
  have inv: "I (snd (?body base t))" if "I t" for base t
    using store_iter_result(1) [OF assms(1,2) that] by (metis prod.collapse)
  have run: "x = Inl (Errorf ''walrusds: no publisher URLs configured'' []) \<and> s' = s
      \<or> range_loop ?body ''walrusds: store failed on all publishers: %w'' (publishers c) None s = (x, s')"
    using assms(4) by (auto simp: Client_Store_def split: if_splits)
  show "I s'" using run range_loop_result [of _ I ?body, OF inv assms(3)] assms(3) by blast
  show "\<exists>ep s0 res. I s0 \<and> http_Do N (store_request ep value) s0 = (Inr res, s')
      \<and> parseStoreResponse res = Inr r" if "x = Inr r"
    using run that range_loop_result [of _ I ?body, OF inv assms(3)] store_iter_result(2) [OF assms(1,2)]
    by blast
qed

lemma quilt_iter_result:
  assumes "ambient N I" "\<And>ep s. I s \<Longrightarrow> I (snd (http_Do N (quilt_request ep parts b) s))" "I s"
    "quilt_iter N c parts b q base s = (x, s')"
  shows "I s'" and "x = Return (Inr r) \<Longrightarrow> \<exists>ep s0 res. I s0
    \<and> http_Do N (quilt_request ep parts b) s0 = (Inr res, s') \<and> parseQuiltStoreResponse res = Inr r"
proof -
  let ?rq = "quilt_request (endpoint_with (base @ ''/v1/quilts'') q) parts b"
  obtain y t where d: "doWithRetry N c (send N ?rq) s = (y, t)" by fastforce
  note rr = request_result [OF assms(1) assms(2) assms(3) d]
  have t: "t = s'" using assms(4) d
    by (auto simp: quilt_iter_def Let_def split: sum.splits option.splits)
  then show "I s'" using rr(1) by simp
  show "\<exists>ep s0 res. I s0 \<and> http_Do N (quilt_request ep parts b) s0 = (Inr res, s')
      \<and> parseQuiltStoreResponse res = Inr r" if "x = Return (Inr r)"
    using that assms(4) d rr(2) t
    by (auto simp: quilt_iter_def Let_def next_endpoint_def split: sum.splits option.splits if_splits)
qed

lemma StoreQuilt_result:
  assumes "ambient N I" "I s" "StoreQuilt N c parts epochs deletable s = (x, s')"
    "\<And>ep b s. SetBoundary b = Inr b \<Longrightarrow> length b = 60 \<Longrightarrow> I s \<Longrightarrow>
       I (snd (http_Do N (quilt_request ep parts b) s))"
  shows "I s'" and "x = Inr r \<Longrightarrow> \<exists>ep b s0 res. fst (multipartBoundary N s) = Inr b \<and> SetBoundary b = Inr b \<and> I s0
    \<and> http_Do N (quilt_request ep parts b) s0 = (Inr res, s') \<and> parseQuiltStoreResponse res = Inr r"
proof -
  let ?body = "\<lambda>b. quilt_iter N c parts b (store_query epochs deletable)"
  let ?msg = "''walrusds: store-quilt failed on all publishers: %w''"
  obtain rb t where mb: "multipartBoundary N s = (rb, t)" by fastforce
  have t: "t = snd (crand N 30 s)"
    using mb by (auto simp: multipartBoundary_def split: prod.splits sum.splits)
  have It: "I t" using assms(1,2) t by (simp add: ambient_def)
  have run: "(\<exists>e. x = Inl e \<and> (s' = s \<or> s' = t)) \<or> (\<exists>b. rb = Inr b
      \<and> range_loop (?body b) ?msg (publishers c) None t = (x, s'))"
    using assms(3) mb by (auto simp: StoreQuilt_def split: if_splits sum.splits)
  have inv: "I (snd (?body b base u))" if "SetBoundary b = Inr b" "length b = 60" "I u" for b base u
    using quilt_iter_result(1) [OF assms(1) assms(4) [OF that(1,2)] that(3)] by (metis prod.collapse)
  have loop: "I s' \<and> (\<forall>a. x = Inr a \<longrightarrow> (\<exists>base\<in>set (publishers c). \<exists>s0. I s0 \<and> ?body b base s0 = (Return (Inr a), s')))"
    if "rb = Inr b" "range_loop (?body b) ?msg (publishers c) None t = (x, s')" for b
    using range_loop_result [of _ I "?body b", OF _ It that(2)] inv multipartBoundary_valid [of N s b t] mb that(1)
    by auto
  show "I s'" using run loop It assms(2) by blast
  show "\<exists>ep b s0 res. fst (multipartBoundary N s) = Inr b \<and> SetBoundary b = Inr b \<and> I s0
      \<and> http_Do N (quilt_request ep parts b) s0 = (Inr res, s') \<and> parseQuiltStoreResponse res = Inr r"
    if x: "x = Inr r"
  proof -
    obtain b base s0 where b: "rb = Inr b" and s0: "I s0" "?body b base s0 = (Return (Inr r), s')"
      using run loop x by blast
    have v: "SetBoundary b = Inr b" "length b = 60" using multipartBoundary_valid [of N s b t] mb b by simp_all
    show ?thesis
      using quilt_iter_result(2) [where I = I, OF assms(1) _ s0 refl] assms(4) [OF v] v(1) mb b by fastforce
  qed
qed

subsection \<open>What the aggregators and publishers promise\<close>

text \<open>
  \<open>blobs s\<close> gives the bytes Walrus holds under a blob id or a quilt patch id when the network is in
  state \<open>s\<close>. The Walrus documentation promises: objects are immutable; a publisher's success reply names
  the object that holds the uploaded bytes, and for a quilt one patch per member with that member's bytes
  (as long as the body can be read back, \<open>clean_part\<close>); an aggregator's success reply carries the object's bytes, or,
  with status 206, exactly the requested range of them; 404 means there is no such object. An
  error met while reading a body is not the client's own \<open>ErrBlobNotFound\<close>.
\<close>

definition is_2xx :: "response \<Rightarrow> bool" where
  "is_2xx res \<longleftrightarrow> StatusCode res \<ge> 200 \<and> StatusCode res < 300"

definition immutable :: "'s net \<Rightarrow> ('s \<Rightarrow> string \<Rightarrow> bytes option) \<Rightarrow> bool" where
  "immutable N blobs \<longleftrightarrow> (\<forall>m. ambient N (\<lambda>s. m \<subseteq>\<^sub>m blobs s))
     \<and> (\<forall>rq s. blobs s \<subseteq>\<^sub>m blobs (snd (http_Do N rq s)))"

definition honest_publisher :: "'s net \<Rightarrow> ('s \<Rightarrow> string \<Rightarrow> bytes option) \<Rightarrow> bool" where
  "honest_publisher N blobs \<longleftrightarrow>
     (\<forall>ep v s res s' r. http_Do N (store_request ep v) s = (Inr res, s') \<longrightarrow>
        parseStoreResponse res = Inr r \<longrightarrow> blobs s' (srBlobID r) = Some v)
   \<and> (\<forall>ep parts b s res s' r p q. http_Do N (quilt_request ep parts b) s = (Inr res, s') \<longrightarrow>
        parseQuiltStoreResponse res = Inr r \<longrightarrow> SetBoundary b = Inr b \<longrightarrow>
        (\<forall>p\<in>set parts. clean_part b p) \<longrightarrow> distinct (map Identifier parts) \<longrightarrow>
        p \<in> set parts \<longrightarrow> q \<in> set (qsPatches r) \<longrightarrow> qpIdentifier q = Identifier p \<longrightarrow>
        blobs s' (qpQuiltPatchID q) = Some (Data p))"

definition honest_aggregator :: "'s net \<Rightarrow> string list \<Rightarrow> ('s \<Rightarrow> string \<Rightarrow> bytes option) \<Rightarrow> bool" where
  "honest_aggregator N aggs blobs \<longleftrightarrow>
     (\<forall>base\<in>set aggs. \<forall>bid s res s'.
        (http_Do N (get_request (blob_url base bid) []) s = (Inr res, s') \<or>
         http_Do N (get_request (patch_url base bid) []) s = (Inr res, s')) \<longrightarrow>
        (is_2xx res \<longrightarrow> resp_err res = None \<longrightarrow> blobs s' bid = Some (resp_body res))
        \<and> (StatusCode res = 404 \<longrightarrow> blobs s' bid = None))
   \<and> (\<forall>base\<in>set aggs. \<forall>bid off len s res s'. 0 \<le> off \<longrightarrow> 0 < len \<longrightarrow> off + len < 2 ^ 63 \<longrightarrow>
        http_Do N (get_request (blob_url base bid) [(''Range'', range_header off len)]) s = (Inr res, s') \<longrightarrow>
        (is_2xx res \<longrightarrow> resp_err res = None \<longrightarrow>
           (\<exists>full. blobs s' bid = Some full
              \<and> resp_body res = (if StatusCode res = 206 then take (nat len) (drop (nat off) full) else full)))
        \<and> (StatusCode res = 404 \<longrightarrow> blobs s' bid = None))
   \<and> (\<forall>rq s res s' e. http_Do N rq s = (Inr res, s') \<longrightarrow> resp_err res = Some e \<longrightarrow> \<not> errors_Is e ErrBlobNotFound)"

lemma immutable_send: "immutable N blobs \<Longrightarrow> m \<subseteq>\<^sub>m blobs s \<Longrightarrow> m \<subseteq>\<^sub>m blobs (snd (http_Do N rq s))"
  unfolding immutable_def by (metis map_le_trans)

lemma immutable_ambient: "immutable N blobs \<Longrightarrow> ambient N (\<lambda>s. m \<subseteq>\<^sub>m blobs s)"
  by (simp add: immutable_def)

lemma immutable_request:
  assumes "immutable N blobs" "doWithRetry N c (send N rq) s = (y, t)"
  shows "blobs s \<subseteq>\<^sub>m blobs t" and "y = Inr (Some res) \<Longrightarrow> \<exists>s0. http_Do N rq s0 = (Inr res, t)"
proof -
  let ?I = "\<lambda>u. blobs s \<subseteq>\<^sub>m blobs u"
  have send: "?I (snd (http_Do N rq u))" if "?I u" for u by (rule immutable_send [OF assms(1) that])
  note rr = request_result [where I = ?I, OF immutable_ambient [OF assms(1)] _ map_le_refl assms(2)]
  show "blobs s \<subseteq>\<^sub>m blobs t" using rr(1) send by simp
  show "\<exists>s0. http_Do N rq s0 = (Inr res, t)" if "y = Inr (Some res)" using rr(2) send that by blast
qed

lemma sliceBlob_not_missing: "sliceBlob f off len = Inl e \<Longrightarrow> \<not> errors_Is e ErrBlobNotFound"
  by (auto simp: sliceBlob_def Let_def split: if_splits)

lemma body_error:
  "honest_aggregator N aggs blobs \<Longrightarrow> http_Do N rq s = (Inr res, s') \<Longrightarrow> resp_err res = Some e \<Longrightarrow>
   \<not> errors_Is e ErrBlobNotFound"
  unfolding honest_aggregator_def by blast

lemma read_failed_missing: "read_failed e = Return (Inl ErrBlobNotFound) \<Longrightarrow> errors_Is e ErrBlobNotFound"
  by (auto simp: read_failed_def next_endpoint_def split: if_splits)

lemma sliceBlob_value:
  assumes "0 \<le> off" "0 \<le> len" "off + len < 2 ^ 63" "sliceBlob full off len = Inr d"
  shows "d = take (nat len) (drop (nat off) full) \<and> off \<le> len64 full"
proof -
  have w: "wrap64 (off + len) = off + len" using assms(1-3) by (intro wrap64_id) (simp add: in_i64_def)
  have off: "off \<le> len64 full" using assms(1,4) by (auto simp: sliceBlob_def split: if_splits)
  let ?e = "if off + len > len64 full then len64 full else off + len"
  have "d = take (nat (?e - off)) (drop (nat off) full)"
    using assms(1,4) off w by (auto simp: sliceBlob_def Let_def split: if_splits)
  moreover have "take (nat (len64 full - off)) (drop (nat off) full) = take (nat len) (drop (nat off) full)"
    if "off + len > len64 full"
    using that off assms(1) by (simp add: nat_diff_distrib' nat_le_iff le_nat_iff)
  ultimately show ?thesis using off by (auto split: if_splits)
qed

text \<open>One aggregator's answer to a range read, and to a whole-object read.\<close>

lemma range_iter_result:
  assumes "immutable N blobs" "honest_aggregator N (aggregators c) blobs" "base \<in> set (aggregators c)"
    "0 \<le> off" "0 < len" "off + len < 2 ^ 63"
    "lru_cache.coherent (blobs s) cc" "range_iter N c bid off len base (cc, s) = (x, cc', s')"
  shows "lru_cache.coherent (blobs s') cc' \<and> blobs s \<subseteq>\<^sub>m blobs s' \<and> (\<forall>d. x = Return (Inr d) \<longrightarrow>
    (\<exists>full. blobs s' bid = Some full \<and> d = take (nat len) (drop (nat off) full)))
    \<and> (x = Return (Inl ErrBlobNotFound) \<longrightarrow> blobs s' bid = None)"
proof -
  let ?rq = "get_request (blob_url base bid) [(''Range'', range_header off len)]"
  obtain y t where d: "doWithRetry N c (send N ?rq) s = (y, t)" by fastforce
  have t: "t = s'" using assms(8) d
    by (auto simp: range_iter_def split: sum.splits option.splits prod.splits)
  note rr = immutable_request [OF assms(1) d]
  have co: "lru_cache.coherent (blobs s') cc"
    using assms(7) rr(1) t unfolding lru_cache.coherent_def by (metis map_le_trans)
  have nf: "blobs s' bid = None" if "y = Inr (Some res)" "StatusCode res = 404" for res
    using rr(2) [OF that(1)] assms(2-6) that(2) t unfolding honest_aggregator_def by blast
  have be: "\<not> errors_Is e ErrBlobNotFound" if "y = Inr (Some res)" "resp_err res = Some e" for res e
    using rr(2) [OF that(1)] body_error [OF assms(2)] that(2) by blast
  show ?thesis
  proof (cases "\<exists>res. y = Inr (Some res) \<and> is_2xx res \<and> resp_err res = None")
    case True
    then obtain res where y: "y = Inr (Some res)" "is_2xx res" "resp_err res = None" by blast
    then obtain s0 where "http_Do N ?rq s0 = (Inr res, t)" using rr(2) by blast
    then obtain full where full: "blobs s' bid = Some full"
      "resp_body res = (if StatusCode res = 206 then take (nat len) (drop (nat off) full) else full)"
      using assms(2-6) y t unfolding honest_aggregator_def by blast
    have sl: "b = take (nat len) (drop (nat off) f)" if "sliceBlob f off len = Inr b" for b f
      using sliceBlob_value [OF assms(4) _ assms(6) that] assms(5) by simp
    show ?thesis
      using assms(8) d y full co rr(1) t lru_cache.coherent_add [OF co full(1)]
      by (auto simp: range_iter_def readRangeResponse_def ReadAll_def is_2xx_def read_failed_def
          next_endpoint_def split: if_splits sum.splits dest: sl sliceBlob_not_missing)
  next
    case False
    then show ?thesis
      using assms(8) d co rr(1) t nf be
      by (auto simp: range_iter_def readRangeResponse_def ReadAll_def is_2xx_def read_failed_def status_error_def
          next_endpoint_def nil_response_def split: if_splits sum.splits option.splits)
  qed
qed

lemma ReadRange_result:
  assumes "immutable N blobs" "honest_aggregator N (aggregators c) blobs"
    "0 \<le> off" "0 < len" "off + len < 2 ^ 63"
    "lru_cache.coherent (blobs s) cc" "ReadRange N c bid off len (cc, s) = (r, cc', s')"
  shows "lru_cache.coherent (blobs s') cc' \<and> blobs s \<subseteq>\<^sub>m blobs s' \<and> (\<forall>d. r = Inr d \<longrightarrow>
    (\<exists>full. blobs s' bid = Some full \<and> d = take (nat len) (drop (nat off) full)))
    \<and> (r = Inl ErrBlobNotFound \<longrightarrow> blobs s' bid = None)"
proof (cases "aggregators c = []")
  case True
  then show ?thesis using assms by (auto simp: ReadRange_def)
next
  case ne: False
  obtain h cc1 where g: "blobCache_get cc bid = (h, cc1)" by fastforce
  note co = lru_cache.coherent_get [OF assms(6) g]
  show ?thesis
  proof (cases h)
    case (Some full)
    then show ?thesis
      using assms(3-5,7) g ne co lru_cache.coherent_hit [OF assms(6)] sliceBlob_value [OF assms(3) _ assms(5)]
        sliceBlob_not_missing by (fastforce simp: ReadRange_def)
  next
    case None
    let ?I = "\<lambda>(k, t). lru_cache.coherent (blobs t) k \<and> blobs s \<subseteq>\<^sub>m blobs t"
    have step: "?I (snd (range_iter N c bid off len base u))" if "base \<in> set (aggregators c)" "?I u" for base u
      using range_iter_result [OF assms(1,2) that(1) assms(3-5), of "snd u" "fst u" bid] that(2)
      by (cases "range_iter N c bid off len base u"; cases u) (auto intro: map_le_trans)
    have "range_loop (range_iter N c bid off len) ''walrusds: range read failed on all aggregators: %w''
        (aggregators c) None (cc1, s) = (r, cc', s')"
      using assms(4,7) g ne None by (simp add: ReadRange_def)
    from range_loop_return [of _ ?I "range_iter N c bid off len", OF step _ this] co
    have I: "?I (cc', s')" and ret: "(\<exists>base\<in>set (aggregators c). \<exists>u. ?I u
        \<and> range_iter N c bid off len base u = (Return r, cc', s')) \<or> (\<exists>e. r = Inl e \<and> e \<noteq> ErrBlobNotFound)" by auto
    have "(\<forall>d. r = Inr d \<longrightarrow> (\<exists>full. blobs s' bid = Some full \<and> d = take (nat len) (drop (nat off) full)))
        \<and> (r = Inl ErrBlobNotFound \<longrightarrow> blobs s' bid = None)"
      using ret range_iter_result [OF assms(1,2) _ assms(3-5)] by fastforce
    then show ?thesis using I by simp
  qed
qed

lemma patch_iter_result:
  assumes "immutable N blobs" "honest_aggregator N (aggregators c) blobs" "base \<in> set (aggregators c)"
    "lru_cache.coherent (blobs s) cc" "patch_iter N c pid base (cc, s) = (x, cc', s')"
  shows "lru_cache.coherent (blobs s') cc' \<and> blobs s \<subseteq>\<^sub>m blobs s' \<and>
    (\<forall>d. x = Return (Inr d) \<longrightarrow> blobs s' pid = Some d)
    \<and> (x = Return (Inl ErrBlobNotFound) \<longrightarrow> blobs s' pid = None)"
proof -
  let ?rq = "get_request (patch_url base pid) []"
  obtain y t where d: "doWithRetry N c (send N ?rq) s = (y, t)" by fastforce
  have t: "t = s'" using assms(5) d
    by (auto simp: patch_iter_def split: sum.splits option.splits prod.splits)
  note rr = immutable_request [OF assms(1) d]
  have co: "lru_cache.coherent (blobs s') cc"
    using assms(4) rr(1) t unfolding lru_cache.coherent_def by (metis map_le_trans)
  have b: "blobs s' pid = Some (resp_body res)" if y: "y = Inr (Some res)" "is_2xx res" "resp_err res = None" for res
    using rr(2) [OF y(1)] assms(2,3) y t unfolding honest_aggregator_def by blast
  have nf: "blobs s' pid = None" if "y = Inr (Some res)" "StatusCode res = 404" for res
    using rr(2) [OF that(1)] assms(2,3) that(2) t unfolding honest_aggregator_def by blast
  have be: "\<not> errors_Is e ErrBlobNotFound" if "y = Inr (Some res)" "resp_err res = Some e" for res e
    using rr(2) [OF that(1)] body_error [OF assms(2)] that(2) by blast
  show ?thesis
    using assms(5) d co rr(1) t b nf be lru_cache.coherent_add [OF co]
    by (auto simp: patch_iter_def readBlobResponse_def ReadAll_def is_2xx_def read_failed_def status_error_def
        next_endpoint_def nil_response_def split: if_splits sum.splits option.splits)
qed

lemma ReadQuiltPatch_result:
  assumes "immutable N blobs" "honest_aggregator N (aggregators c) blobs"
    "lru_cache.coherent (blobs s) cc" "ReadQuiltPatch N c pid (cc, s) = (r, cc', s')"
  shows "lru_cache.coherent (blobs s') cc' \<and> blobs s \<subseteq>\<^sub>m blobs s' \<and>
    (\<forall>d. r = Inr d \<longrightarrow> blobs s' pid = Some d) \<and> (r = Inl ErrBlobNotFound \<longrightarrow> blobs s' pid = None)"
proof (cases "aggregators c = []")
  case True
  then show ?thesis using assms by (auto simp: ReadQuiltPatch_def)
next
  case ne: False
  obtain h cc1 where g: "blobCache_get cc pid = (h, cc1)" by fastforce
  note co = lru_cache.coherent_get [OF assms(3) g]
  show ?thesis
  proof (cases h)
    case (Some full)
    then show ?thesis
      using assms(4) g ne co lru_cache.coherent_hit [OF assms(3)] by (fastforce simp: ReadQuiltPatch_def)
  next
    case None
    let ?I = "\<lambda>(k, t). lru_cache.coherent (blobs t) k \<and> blobs s \<subseteq>\<^sub>m blobs t"
    have step: "?I (snd (patch_iter N c pid base u))" if "base \<in> set (aggregators c)" "?I u" for base u
      using patch_iter_result [OF assms(1,2) that(1), of "snd u" "fst u" pid] that(2)
      by (cases "patch_iter N c pid base u"; cases u) (auto intro: map_le_trans)
    have "range_loop (patch_iter N c pid) ''walrusds: quilt patch read failed on all aggregators: %w''
        (aggregators c) None (cc1, s) = (r, cc', s')"
      using assms(4) g ne None by (simp add: ReadQuiltPatch_def)
    from range_loop_return [of _ ?I "patch_iter N c pid", OF step _ this] co
    have I: "?I (cc', s')" and ret: "(\<exists>base\<in>set (aggregators c). \<exists>u. ?I u
        \<and> patch_iter N c pid base u = (Return r, cc', s')) \<or> (\<exists>e. r = Inl e \<and> e \<noteq> ErrBlobNotFound)" by auto
    have "(\<forall>d. r = Inr d \<longrightarrow> blobs s' pid = Some d) \<and> (r = Inl ErrBlobNotFound \<longrightarrow> blobs s' pid = None)"
      using ret patch_iter_result [OF assms(1,2)] by fastforce
    then show ?thesis using I by simp
  qed
qed

lemma Read_result:
  assumes "immutable N blobs" "honest_aggregator N (aggregators c) blobs"
    "Client_Read N c bid s = (r, s')"
  shows "blobs s \<subseteq>\<^sub>m blobs s' \<and> (\<forall>d. r = Inr d \<longrightarrow> blobs s' bid = Some d)"
proof (cases "aggregators c = []")
  case True
  then show ?thesis using assms(3) by (auto simp: Client_Read_def)
next
  case False
  have iter: "blobs t \<subseteq>\<^sub>m blobs t' \<and> (\<forall>d. x = Return (Inr d) \<longrightarrow> blobs t' bid = Some d)"
    if base: "base \<in> set (aggregators c)" and it: "read_iter N c bid base t = (x, t')" for base t x t'
  proof -
    let ?rq = "get_request (blob_url base bid) []"
    obtain y u where d: "doWithRetry N c (send N ?rq) t = (y, u)" by fastforce
    have u: "u = t'" using it d by (auto simp: read_iter_def split: sum.splits option.splits)
    note rr = immutable_request [OF assms(1) d]
    have b: "blobs t' bid = Some (resp_body res)"
      if y: "y = Inr (Some res)" "is_2xx res" "resp_err res = None" for res
      using rr(2) [OF y(1)] assms(2) base y u unfolding honest_aggregator_def by blast
    show ?thesis
      using it d rr(1) u b
      by (auto simp: read_iter_def readBlobResponse_def ReadAll_def is_2xx_def read_failed_def
          next_endpoint_def split: if_splits sum.splits option.splits)
  qed
  let ?I = "\<lambda>t. blobs s \<subseteq>\<^sub>m blobs t"
  have step: "?I (snd (read_iter N c bid base u))" if "base \<in> set (aggregators c)" "?I u" for base u
    using iter [OF that(1)] that(2) by (metis map_le_trans prod.collapse)
  have "range_loop (read_iter N c bid) ''walrusds: read failed on all aggregators: %w''
      (aggregators c) None s = (r, s')" using assms(3) False by (simp add: Client_Read_def)
  from range_loop_result [of _ ?I "read_iter N c bid", OF step _ this] show ?thesis
    using iter by auto
qed

subsection \<open>Successful uploads\<close>

lemma Store_stores:
  assumes "immutable N blobs" and "honest_publisher N blobs"
    and "Client_Store N c value epochs deletable s = (Inr r, s')"
  shows "blobs s' (srBlobID r) = Some value \<and> srBlobID r \<noteq> [] \<and> blobs s \<subseteq>\<^sub>m blobs s'"
proof -
  note res = Store_result [where I = "\<lambda>u. blobs s \<subseteq>\<^sub>m blobs u", OF immutable_ambient [OF assms(1)]
      immutable_send [OF assms(1)] map_le_refl assms(3)]
  obtain ep s0 rs where "http_Do N (store_request ep value) s0 = (Inr rs, s')" and p: "parseStoreResponse rs = Inr r"
    using res(2) by blast
  then have "blobs s' (srBlobID r) = Some value" using assms(2) unfolding honest_publisher_def by blast
  then show ?thesis using res(1) parseStore_facts [OF p] by simp
qed

lemma StoreQuilt_stores:
  assumes "immutable N blobs" and "honest_publisher N blobs" and "distinct (map Identifier parts)"
    and "\<And>b. SetBoundary b = Inr b \<Longrightarrow> fst (multipartBoundary N s) = Inr b \<Longrightarrow> \<forall>p\<in>set parts. clean_part b p"
    and "StoreQuilt N c parts epochs deletable s = (Inr r, s')"
  shows "blobs s \<subseteq>\<^sub>m blobs s' \<and> qsQuiltID r \<noteq> [] \<and> qsPatches r \<noteq> []
    \<and> (\<forall>q\<in>set (qsPatches r). qpQuiltPatchID q \<noteq> []
         \<and> (\<forall>p\<in>set parts. qpIdentifier q = Identifier p \<longrightarrow> blobs s' (qpQuiltPatchID q) = Some (Data p)))"
proof -
  note res = StoreQuilt_result [where I = "\<lambda>u. blobs s \<subseteq>\<^sub>m blobs u", OF immutable_ambient [OF assms(1)]
      map_le_refl assms(5) immutable_send [OF assms(1)]]
  obtain ep b s0 rs where b: "fst (multipartBoundary N s) = Inr b" "SetBoundary b = Inr b"
    and d: "http_Do N (quilt_request ep parts b) s0 = (Inr rs, s')" "parseQuiltStoreResponse rs = Inr r"
    using res(2) by blast
  have "blobs s' (qpQuiltPatchID q) = Some (Data p)"
    if "q \<in> set (qsPatches r)" "p \<in> set parts" "qpIdentifier q = Identifier p" for p q
    using assms(2,3) assms(4) [OF b(2,1)] d b(2) that unfolding honest_publisher_def by blast
  then show ?thesis using res(1) parseQuilt_facts [OF d(2)] by simp
qed

subsection \<open>A small Walrus for witnesses\<close>

text \<open>
  One publisher \<open>http://p\<close> and one aggregator \<open>http://a\<close>. The publisher accepts one blob and one quilt, the
  aggregator ignores \<open>Range\<close> headers; everything else fails. The state lists the ids stored so far.
\<close>

definition quoted :: "string \<Rightarrow> string" where
  "quoted s = QUOTE @ s @ QUOTE"

definition sim_store_reply :: string where
  "sim_store_reply = ''{'' @ quoted ''newlyCreated'' @ '':{'' @ quoted ''blobObject'' @ '':{''
     @ quoted ''id'' @ '':'' @ quoted ''0x1'' @ '','' @ quoted ''blobId'' @ '':'' @ quoted ''B1'' @ '',''
     @ quoted ''storage'' @ '':{'' @ quoted ''endEpoch'' @ '':9}},'' @ quoted ''cost'' @ '':7}}''"

definition sim_quilt_reply :: string where
  "sim_quilt_reply = ''{'' @ quoted ''blobStoreResult'' @ '':{'' @ quoted ''alreadyCertified'' @ '':{''
     @ quoted ''blobId'' @ '':'' @ quoted ''Q'' @ '','' @ quoted ''endEpoch'' @ '':9}},''
     @ quoted ''storedQuiltBlobs'' @ '': [{'' @ quoted ''identifier'' @ '':'' @ quoted ''0'' @ '',''
     @ quoted ''quiltPatchId'' @ '':'' @ quoted ''P0'' @ ''},{'' @ quoted ''identifier'' @ '':'' @ quoted ''1'' @ '',''
     @ quoted ''quiltPatchId'' @ '':'' @ quoted ''P1'' @ ''}]}''"

definition sim_objects :: "(string \<times> bytes) list" where
  "sim_objects = [(''B1'', ''hello''), (''P0'', ''hello''), (''P1'', [])]"

definition sim_blobs :: "string list \<Rightarrow> string \<Rightarrow> bytes option" where
  "sim_blobs s k = (if k \<in> set s then map_of sim_objects k else None)"

definition sim_quilt_request :: request where
  "sim_quilt_request = quilt_request ''http://p/v1/quilts?epochs=1'' sample_parts sample_boundary"

definition sim_Do :: "request \<Rightarrow> string list \<Rightarrow> response res \<times> string list" where
  "sim_Do rq s =
     (if rq = store_request ''http://p/v1/blobs?epochs=1'' ''hello'' then (Inr (ok_response sim_store_reply), ''B1'' # s)
      else if rq = sim_quilt_request then (Inr (ok_response sim_quilt_reply), ''P0'' # ''P1'' # s)
      else if rq_method rq = ''GET'' then
        (case find (\<lambda>(k, v). k \<in> set s \<and> rq_url rq \<in> {blob_url ''http://a'' k, patch_url ''http://a'' k}) sim_objects of
           Some (k, v) \<Rightarrow> (Inr (ok_response v), s)
         | None \<Rightarrow> (Inl (Opaque ''down''), s))
      else (Inl (Opaque ''down''), s))"

abbreviation sim_net :: "string list net" where
  "sim_net \<equiv> calm_net sim_Do"

lemma sim_store_parsed: "parseStoreResponse (ok_response sim_store_reply) =
  Inr \<lparr>srBlobID = ''B1'', srObjectID = ''0x1'', srEndEpoch = 9, srEncodedSize = 0, srCost = 7\<rparr>"
  by code_simp

lemma sim_quilt_parsed: "parseQuiltStoreResponse (ok_response sim_quilt_reply) =
  Inr \<lparr>qsQuiltID = ''Q'', qsObjectID = [], qsEndEpoch = 9, qsEncodedSize = 0, qsCost = 0,
       qsPatches = [\<lparr>qpIdentifier = ''0'', qpQuiltPatchID = ''P0''\<rparr>, \<lparr>qpIdentifier = ''1'', qpQuiltPatchID = ''P1''\<rparr>]\<rparr>"
  by code_simp

lemma sim_immutable: "immutable sim_net sim_blobs"
  by (auto simp: immutable_def sim_Do_def sim_blobs_def map_le_def dom_def split: option.splits)

lemma sim_urls:
  "blob_url b i = blob_url b j \<longleftrightarrow> i = j" "patch_url b i = patch_url b j \<longleftrightarrow> i = j"
  "blob_url b i \<noteq> patch_url b j" "patch_url b j \<noteq> blob_url b i"
proof -
  have "blob_url b i \<noteq> patch_url b j"
  proof
    assume "blob_url b i = patch_url b j"
    then have "PathEscape i = ''by-quilt-patch-id/'' @ PathEscape j" by (simp add: blob_url_def patch_url_def)
    then show False using PathEscape_no_slash [of i] by simp
  qed
  then show "blob_url b i \<noteq> patch_url b j" "patch_url b j \<noteq> blob_url b i" by auto
qed (auto simp: blob_url_def patch_url_def)

lemma sim_honest_aggregator: "honest_aggregator sim_net [''http://a''] sim_blobs"
proof -
  have err: "resp_err res = None" if "sim_Do rq s = (Inr res, s')" for rq s res s'
    using that by (auto simp: sim_Do_def ok_response_def split: if_splits option.splits)
  have get: "sim_blobs s' bid = Some (resp_body res) \<and> StatusCode res = 200"
    if "sim_Do rq s = (Inr res, s')" "rq_method rq = ''GET''"
      "rq_url rq = blob_url ''http://a'' bid \<or> rq_url rq = patch_url ''http://a'' bid" for rq bid s res s'
  proof -
    have "rq \<noteq> store_request ''http://p/v1/blobs?epochs=1'' ''hello''" "rq \<noteq> sim_quilt_request"
      using that(2) by (auto simp: store_request_def sim_quilt_request_def quilt_request_def)
    then show ?thesis using that
      by (auto simp: sim_Do_def sim_blobs_def sim_urls ok_response_def sim_objects_def split: option.splits if_splits)
  qed
  show ?thesis
    unfolding honest_aggregator_def
    by (intro conjI) ((auto simp: get_request_def dest!: get)[2], auto dest: err)
qed

lemma sim_quilt_parts:
  assumes "quilt_request ep parts b = sim_quilt_request" "SetBoundary b = Inr b" "\<forall>p\<in>set parts. clean_part b p" "parts \<noteq> []"
  shows "parts = sample_parts"
proof -
  have b: "b = sample_boundary" and body: "fst (writeMultipartBody parts b) = fst (writeMultipartBody sample_parts sample_boundary)"
    using assms(1) by (auto simp: sim_quilt_request_def quilt_request_def)
  have cr: "CHR 0x0D \<notin> set sample_boundary" by (simp add: sample_boundary_def)
  have "Some parts = Some sample_parts"
    using read_multipart_written [OF assms(2) _ assms(4,3)] read_multipart_written [OF sample_boundary_ok cr] sample_clean
      body b cr by (simp add: sample_parts_def)
  then show ?thesis by simp
qed

lemma sim_honest_publisher: "honest_publisher sim_net sim_blobs"
proof -
  have put: "rq = store_request ''http://p/v1/blobs?epochs=1'' ''hello''
        \<and> res = ok_response sim_store_reply \<and> s' = ''B1'' # s
      \<or> rq = sim_quilt_request \<and> res = ok_response sim_quilt_reply \<and> s' = ''P0'' # ''P1'' # s"
    if "sim_Do rq s = (Inr res, s')" "rq_method rq = ''PUT''" for rq s res s'
    using that by (auto simp: sim_Do_def split: if_splits)
  have differ: "store_request ep v \<noteq> sim_quilt_request" "quilt_request ep' parts b \<noteq> store_request ep v" for ep v ep' parts b
    by (auto simp: store_request_def quilt_request_def sim_quilt_request_def)
  have store: "sim_blobs s' (srBlobID r) = Some v"
    if "sim_Do (store_request ep v) s = (Inr res, s')" "parseStoreResponse res = Inr r" for ep v s res s' r
  proof -
    have "store_request ep v = store_request ''http://p/v1/blobs?epochs=1'' ''hello''"
      "res = ok_response sim_store_reply" "s' = ''B1'' # s"
      using put [OF that(1)] differ by (auto simp: store_request_def)
    then show ?thesis
      using that(2) sim_store_parsed by (auto simp: store_request_def sim_blobs_def sim_objects_def)
  qed
  have quilt: "sim_blobs s' (qpQuiltPatchID q) = Some (Data p)"
    if "sim_Do (quilt_request ep parts b) s = (Inr res, s')" "parseQuiltStoreResponse res = Inr r"
      "SetBoundary b = Inr b" "\<forall>p\<in>set parts. clean_part b p" "p \<in> set parts" "q \<in> set (qsPatches r)"
      "qpIdentifier q = Identifier p" for ep parts b s res s' r p q
  proof -
    have *: "quilt_request ep parts b = sim_quilt_request" "res = ok_response sim_quilt_reply" "s' = ''P0'' # ''P1'' # s"
      using put [OF that(1)] differ by (auto simp: quilt_request_def)
    have "parts = sample_parts" using sim_quilt_parts [OF *(1) that(3,4)] that(5) by (cases parts) auto
    then show ?thesis
      using that(2,5-) * sim_quilt_parsed by (auto simp: sample_parts_def sim_blobs_def sim_objects_def)
  qed
  show ?thesis
    unfolding honest_publisher_def using store quilt by simp
qed

subsection \<open>Properties\<close>

text \<open>
  Every request a quilt upload sends, on every retry and to every publisher, streams a complete body whose
  length is exactly the announced \<open>Content-Length\<close>: any property of the world that such requests (and the
  passage of time) keep is kept by \<open>StoreQuilt\<close>.
\<close>

theorem StoreQuilt_framed:
  assumes "ambient N I" and "\<And>rq s. framed rq \<Longrightarrow> I s \<Longrightarrow> I (snd (http_Do N rq s))"
    and "\<forall>p\<in>set parts. plain_id (Identifier p)" and "quilt_bytes parts < 2 ^ 63 - 100" and "I s"
  shows "I (snd (StoreQuilt N c parts epochs deletable s))"
proof -
  obtain x s' where r: "StoreQuilt N c parts epochs deletable s = (x, s')" by fastforce
  have "I s'"
    by (rule StoreQuilt_result(1) [OF assms(1,5) r]) (rule assms(2) [OF quilt_request_framed [OF _ _ assms(3,4)]])
  then show ?thesis using r by simp
qed

text \<open>A network that remembers whether it has ever seen a badly framed request.\<close>

theorem StoreQuilt_framed_witness:
  "snd (StoreQuilt (calm_net (\<lambda>rq ok. (Inl (Opaque ''down''), ok \<and> framed rq))) (sample_client 0) sample_parts 1 False True)"
proof (rule StoreQuilt_framed [where I = "\<lambda>ok. ok"])
  show "\<forall>p\<in>set sample_parts. plain_id (Identifier p)" "quilt_bytes sample_parts < 2 ^ 63 - 100"
    by (simp_all add: sample_parts_def plain_id_def BACKSLASH_def QUOTE_def quilt_bytes_def)
qed simp_all







text \<open>
  A successful \<open>Read\<close> or \<open>ReadQuiltPatch\<close> returns all bytes of the blob or patch it names; a patch read keeps
  the cache coherent with the stored objects.
\<close>

theorem Read_correct:
  assumes "immutable N blobs" and "honest_aggregator N (aggregators c) blobs"
    and "cache_ok cc" and "cache_contents cc \<subseteq>\<^sub>m blobs s"
    and "Client_Read N c bid s = (r, s1)" and "ReadQuiltPatch N c pid (cc, s) = (q, cc', s2)"
  shows "(\<forall>d. r = Inr d \<longrightarrow> blobs s1 bid = Some d)
    \<and> (\<forall>d. q = Inr d \<longrightarrow> blobs s2 pid = Some d) \<and> cache_ok cc' \<and> cache_contents cc' \<subseteq>\<^sub>m blobs s2"
  using Read_result [OF assms(1,2,5)] ReadQuiltPatch_result [OF assms(1,2) _ assms(6)] assms(3,4)
  by (simp add: lru_cache.coherent_def)

theorem Read_correct_witness:
  "\<exists>s1 cc' s2. Client_Read sim_net (sample_client 3) ''B1'' [''B1'', ''P0''] = (Inr ''hello'', s1)
     \<and> ReadQuiltPatch sim_net (sample_client 3) ''P0'' (None, [''B1'', ''P0'']) = (Inr ''hello'', cc', s2)
     \<and> sim_blobs s1 ''B1'' = Some ''hello'' \<and> sim_blobs s2 ''P0'' = Some ''hello''"
proof -
  have "fst (Client_Read sim_net (sample_client 3) ''B1'' [''B1'', ''P0'']) = Inr ''hello''" by code_simp
  then obtain s1 where 1: "Client_Read sim_net (sample_client 3) ''B1'' [''B1'', ''P0''] = (Inr ''hello'', s1)"
    by (metis prod.collapse)
  have "fst (ReadQuiltPatch sim_net (sample_client 3) ''P0'' (None, [''B1'', ''P0''])) = Inr ''hello''" by code_simp
  then obtain cc' s2 where 2:
    "ReadQuiltPatch sim_net (sample_client 3) ''P0'' (None, [''B1'', ''P0'']) = (Inr ''hello'', cc', s2)"
    by (metis prod.collapse)
  have agg: "honest_aggregator sim_net (aggregators (sample_client 3)) sim_blobs"
    using sim_honest_aggregator by (simp add: sample_client_def)
  show ?thesis
    using Read_correct [OF sim_immutable agg _ _ 1 2] 1 2 by (simp add: cache_ok_def cache_contents_def)
qed

text \<open>
  A parsed store reply always carries a blob id, comes from a 2xx status, and reports the publisher's own
  encoded size when it is given (storage size first, then the registered length); for an already certified blob the
  object id is empty and size and cost are zero. A parsed quilt reply has at least one patch and no empty patch id.
\<close>

theorem store_replies_valid:
  "(\<forall>r. parseStoreResponse res = Inr r \<longrightarrow> srBlobID r \<noteq> [] \<and> 200 \<le> StatusCode res \<and> StatusCode res < 300)
   \<and> (\<forall>r. parseQuiltStoreResponse res = Inr r \<longrightarrow> qsQuiltID r \<noteq> [] \<and> qsPatches r \<noteq> []
        \<and> (\<forall>p\<in>set (qsPatches r). qpQuiltPatchID p \<noteq> []))
   \<and> (\<forall>nc. NewlyCreated sr = Some nc \<and> boBlobID (ncBlobObject nc) \<noteq> [] \<longrightarrow>
        (\<exists>r. storeResponse_result sr = Inr r \<and> srBlobID r = boBlobID (ncBlobObject nc)
           \<and> (StorageSize (boStorage (ncBlobObject nc)) \<noteq> 0 \<longrightarrow>
                srEncodedSize r = StorageSize (boStorage (ncBlobObject nc)))))
   \<and> (NewlyCreated sr = None \<longrightarrow> (\<forall>r. storeResponse_result sr = Inr r \<longrightarrow>
        srObjectID r = [] \<and> srEncodedSize r = 0 \<and> srCost r = 0))"
  using parseStore_facts parseQuilt_facts
  by (auto simp: storeResponse_result_def certified_result_def Let_def split: option.splits if_splits)

theorem store_replies_valid_witness:
  "\<exists>r. parseQuiltStoreResponse (ok_response sim_quilt_reply) = Inr r \<and> qsPatches r \<noteq> []"
  using store_replies_valid [of "ok_response sim_quilt_reply"] sim_quilt_parsed by blast

text \<open>
  \<open>sliceBlob\<close> on every input: an offset outside the blob is an error; otherwise a negative length, or a range
  whose end overflows \<open>int64\<close>, panics in \<open>make\<close>; in all other cases the result is a copy of the range cut at the
  end of the blob.
\<close>

theorem sliceBlob_cases:
  assumes "in_i64 off" and "in_i64 len" and "len64 full < 2 ^ 63"
  shows "sliceBlob full off len =
    (if off < 0 \<or> len64 full < off then Inl (Errorf ''walrusds: offset %d out of range for %d-byte blob''
         [AInt off, AInt (len64 full)])
     else if len < 0 \<or> 2 ^ 63 \<le> off + len then Inl (PanicErr ''makeslice: len out of range'')
     else Inr (take (nat len) (drop (nat off) full)))"
proof (cases "off < 0 \<or> len64 full < off")
  case True
  then show ?thesis by (auto simp: sliceBlob_def)
next
  case False
  then have off: "0 \<le> off" "off \<le> len64 full" by auto
  consider (neg) "len < 0" | (over) "0 \<le> len" "2 ^ 63 \<le> off + len" | (fine) "0 \<le> len" "off + len < 2 ^ 63" by linarith
  then show ?thesis
  proof cases
    case neg
    then have "wrap64 (off + len) = off + len"
      using off assms by (auto intro!: wrap64_id simp: in_i64_def)
    then show ?thesis using neg off by (auto simp: sliceBlob_def)
  next
    case over
    have "off + len < 2 ^ 64" using off assms by (simp add: in_i64_def)
    then have "wrap64 (off + len) = off + len - 2 ^ 64"
      using over minus_mod_self2 [of "off + len + 2 ^ 63" "2 ^ 64"]
        mod_pos_pos_trivial [of "off + len + 2 ^ 63 - 2 ^ 64" "2 ^ 64"] unfolding wrap64_def by simp
    then show ?thesis using over off assms by (auto simp: sliceBlob_def in_i64_def)
  next
    case fine
    have "wrap64 (off + len) = off + len"
      using fine off assms by (auto intro!: wrap64_id simp: in_i64_def)
    then have "\<exists>d. sliceBlob full off len = Inr d" using fine off by (auto simp: sliceBlob_def Let_def)
    then show ?thesis using sliceBlob_value [OF off(1) fine] fine False by auto
  qed
qed

theorem sliceBlob_cases_witness:
  "sliceBlob ''hello'' 3 9 = Inr ''lo'' \<and> sliceBlob ''hello'' 1 (- 1) = Inl (PanicErr ''makeslice: len out of range'')"
  using sliceBlob_cases [of 3 9 "''hello''"] sliceBlob_cases [of 1 "- 1" "''hello''"] by (simp add: in_i64_def)

text \<open>
  Failover: when the endpoints before \<open>base\<close> in the configured order all fail, \<open>Store\<close> and \<open>Read\<close> return what
  \<open>base\<close> yields and do not contact the later ones; when all endpoints fail the result is an error that wraps the
  last endpoint's.
\<close>

theorem endpoints_failover:
  assumes "publishers c = pre @ base # post" and "skip_all (store_iter N c value (store_query epochs deletable)) pre s = Some s1"
    and "store_iter N c value (store_query epochs deletable) base s1 = (Return r, s2)"
    and "aggregators c \<noteq> []" and "skip_all (read_iter N c bid) (aggregators c) t = Some t1"
  shows "Client_Store N c value epochs deletable s = (r, s2)
    \<and> (\<exists>e. Client_Read N c bid t = (Inl (Wrapf ''walrusds: read failed on all aggregators: %w'' [] e), t1))"
  using range_loop_failover [OF assms(2,3)] range_loop_all_fail [OF assms(5)] assms(1,4)
  by (simp add: Client_Store_def Client_Read_def)

theorem endpoints_failover_witness:
  "fst (Client_Store sim_net ((sample_client 0)\<lparr>publishers := [''http://x'', ''http://p'', ''http://y'']\<rparr>) ''hello'' 1 False [])
     = Inr \<lparr>srBlobID = ''B1'', srObjectID = ''0x1'', srEndEpoch = 9, srEncodedSize = 0, srCost = 7\<rparr>"
proof -
  let ?c = "(sample_client 0)\<lparr>publishers := [''http://x'', ''http://p'', ''http://y'']\<rparr>"
  have 1: "skip_all (store_iter sim_net ?c ''hello'' (store_query 1 False)) [''http://x''] [] = Some []" by code_simp
  have 2: "store_iter sim_net ?c ''hello'' (store_query 1 False) ''http://p'' [] =
      (Return (Inr \<lparr>srBlobID = ''B1'', srObjectID = ''0x1'', srEndEpoch = 9, srEncodedSize = 0, srCost = 7\<rparr>), [''B1''])"
    by code_simp
  have 3: "skip_all (read_iter sim_net ?c ''B1'') (aggregators ?c) [] = Some []" by code_simp
  have pub: "publishers ?c = [''http://x''] @ ''http://p'' # [''http://y'']" and agg: "aggregators ?c \<noteq> []"
    by (simp_all add: sample_client_def)
  show ?thesis
    using endpoints_failover [OF pub 1 2 agg 3] by simp
qed

end
