(* ===== verification/Datastore.thy ===== *)
theory Datastore
  imports Client Encoding Postgres
begin

text \<open>
  \<open>src/walrus.go\<close>: the configuration with its defaults, the datastore operations (\<open>Put\<close>, \<open>Get\<close>, \<open>Has\<close>,
  \<open>GetSize\<close>, \<open>Delete\<close>, \<open>Query\<close>, batches) and the upload of packs. The datastore value is a record of its
  configuration, its HTTP client and the methods of its index; what changes while it runs is the \<open>world\<close>:
  the database, the blob cache, the network and the pending kick of the flusher. The client's network is a
  parameter \<open>N\<close>. Lemmas about the operations are proved for every index that meets the contract
  \<open>durable_index\<close>; the properties state them for the Postgres index.
\<close>

subsection \<open>Configuration\<close>

record Config =
  PublisherURLs :: "string list"
  AggregatorURLs :: "string list"
  PostgresURL :: string
  Table :: string
  Epochs :: int
  NShards :: int
  Deletable :: bool
  Workers :: int
  MaxOpenConns :: int
  PackTargetSize :: int
  DisableQuilt :: bool
  PackMaxAge :: duration
  PackIdleFlush :: duration
  PackFlushInterval :: duration
  BlobCacheBytes :: int
  RequestTimeout :: duration
  MaxRetries :: int
  EpochDuration :: duration
  RenewInterval :: duration
  RenewLead :: duration

definition Minute :: duration where "Minute = 60 * Second"

definition defaultWorkers :: int where "defaultWorkers = 16"
definition defaultMaxOpenConns :: int where "defaultMaxOpenConns = 32"
definition defaultEpochs :: int where "defaultEpochs = 1"
definition defaultRequestTimeout :: duration where "defaultRequestTimeout = 60 * Second"
definition defaultMaxRetries :: int where "defaultMaxRetries = 3"
definition defaultPackTargetSize :: int where "defaultPackTargetSize = 256 * 2 ^ 20"
definition defaultBlobCacheBytes :: int where "defaultBlobCacheBytes = 2 ^ 30"
definition quiltMaxPatches :: int where "quiltMaxPatches = 666"
definition concatMaxBlocks :: int where "concatMaxBlocks = 10000"
definition defaultPackMaxAge :: duration where "defaultPackMaxAge = 5 * Minute"
definition defaultPackIdleFlush :: duration where "defaultPackIdleFlush = 30 * Second"
definition defaultPackFlushInterval :: duration where "defaultPackFlushInterval = 5 * Second"
definition stageLease :: duration where "stageLease = 15 * Minute"

definition positive_or :: "int \<Rightarrow> int \<Rightarrow> int" where
  "positive_or x dflt = (if x \<le> 0 then dflt else x)"

text \<open>The sequence of defaulting assignments of \<open>NewWalrusDatastore\<close>.\<close>

definition with_defaults :: "Config \<Rightarrow> Config" where
  "with_defaults c =
     c\<lparr>Epochs := positive_or (Epochs c) defaultEpochs,
       NShards := positive_or (NShards c) DefaultNShards,
       Workers := positive_or (Workers c) defaultWorkers,
       MaxOpenConns := positive_or (MaxOpenConns c) defaultMaxOpenConns,
       RequestTimeout := positive_or (RequestTimeout c) defaultRequestTimeout,
       MaxRetries := (if MaxRetries c < 0 then defaultMaxRetries else MaxRetries c),
       PackTargetSize := positive_or (PackTargetSize c) defaultPackTargetSize,
       PackMaxAge := positive_or (PackMaxAge c) defaultPackMaxAge,
       PackIdleFlush := positive_or (PackIdleFlush c) defaultPackIdleFlush,
       PackFlushInterval := positive_or (PackFlushInterval c) defaultPackFlushInterval\<rparr>"

definition cacheBytes :: "Config \<Rightarrow> int" where
  "cacheBytes c =
     (if BlobCacheBytes c = 0 then defaultBlobCacheBytes
      else if BlobCacheBytes c < 0 then 0 else BlobCacheBytes c)"

record 'd WalrusDatastore =
  conf :: Config
  client :: Client
  index :: "'d Index"

record ('d, 's) world =
  wdb :: 'd
  wcache :: "blobCache option"
  wnet :: 's
  flushKick :: bool

text \<open>
  What \<open>NewWalrusDatastore\<close> builds: the datastore, its empty cache, and whether the renewal worker is
  started (the flush worker always is). \<open>open_index\<close> is \<open>newPostgresIndex\<close> with its arguments.
\<close>

record 'd started =
  st_datastore :: "'d WalrusDatastore"
  st_cache :: "blobCache option"
  st_renewal :: bool

definition NewWalrusDatastore ::
  "(string \<Rightarrow> string \<Rightarrow> int \<Rightarrow> 'd Index res) \<Rightarrow> Config \<Rightarrow> 'd started res" where
  "NewWalrusDatastore open_index conf0 =
     (if PublisherURLs conf0 = [] then Inl (Errorf ''walrusds: at least one publisher URL is required'' [])
      else if AggregatorURLs conf0 = [] then Inl (Errorf ''walrusds: at least one aggregator URL is required'' [])
      else if PostgresURL conf0 = [] then Inl (Errorf ''walrusds: postgres URL is required'' [])
      else let c = with_defaults conf0
           in case open_index (PostgresURL c) (Table c) (MaxOpenConns c) of
                Inl e \<Rightarrow> Inl e
              | Inr ix \<Rightarrow>
                  (let (cl, cc) = NewClient \<lparr>ccPublisherURLs = PublisherURLs c,
                         ccAggregatorURLs = AggregatorURLs c, ccRequestTimeout = RequestTimeout c,
                         ccMaxRetries = MaxRetries c, ccBlobCacheBytes = cacheBytes c\<rparr>
                   in Inr \<lparr>st_datastore = \<lparr>conf = c, client = cl, index = ix\<rparr>, st_cache = cc,
                           st_renewal = (RenewInterval c > 0 \<and> EpochDuration c > 0)\<rparr>))"

subsection \<open>Access to the parts of the world\<close>

definition on_db :: "('d \<Rightarrow> 'a \<times> 'd) \<Rightarrow> ('d, 's) world \<Rightarrow> 'a \<times> ('d, 's) world" where
  "on_db f w = (case f (wdb w) of (a, d) \<Rightarrow> (a, w\<lparr>wdb := d\<rparr>))"

definition on_net :: "('s \<Rightarrow> 'a \<times> 's) \<Rightarrow> ('d, 's) world \<Rightarrow> 'a \<times> ('d, 's) world" where
  "on_net f w = (case f (wnet w) of (a, s) \<Rightarrow> (a, w\<lparr>wnet := s\<rparr>))"

definition on_cache :: "('s cstate \<Rightarrow> 'a \<times> 's cstate) \<Rightarrow> ('d, 's) world \<Rightarrow> 'a \<times> ('d, 's) world" where
  "on_cache f w = (case f (wcache w, wnet w) of (a, cc, s) \<Rightarrow> (a, w\<lparr>wcache := cc, wnet := s\<rparr>))"

text \<open>\<open>fmt.Errorf("...: %w", err)\<close> around an error a call returned; a panic is not returned.\<close>

definition wrap_err :: "string \<Rightarrow> earg list \<Rightarrow> err \<Rightarrow> err" where
  "wrap_err msg as e = (if is_panic e then e else Wrapf msg as e)"

definition kickFlusher :: "('d, 's) world \<Rightarrow> ('d, 's) world" where
  "kickFlusher w = w\<lparr>flushKick := True\<rparr>"

subsection \<open>Uploading packs\<close>

type_synonym blockEntry = "ds_key \<times> bytes"

definition expiry :: "'s net \<Rightarrow> Config \<Rightarrow> 's \<Rightarrow> time option \<times> 's" where
  "expiry N c s =
     (if EpochDuration c \<le> 0 then (None, s)
      else (case time_Now N s of (t, s') \<Rightarrow> (Some (t + wrap64 (Epochs c * EpochDuration c)), s')))"

definition encodedSize :: "Config \<Rightarrow> int \<Rightarrow> int \<Rightarrow> int" where
  "encodedSize c reported unencoded =
     (if reported > 0 then reported else EncodedBlobLength unencoded (NShards c))"

definition uploadSingleBlock ::
  "'s net \<Rightarrow> 'd WalrusDatastore \<Rightarrow> blockEntry \<Rightarrow> 's \<Rightarrow> KeyRecord list res \<times> 's" where
  "uploadSingleBlock N ds e s =
     (case Client_Store N (client ds) (snd e) (Epochs (conf ds)) (Deletable (conf ds)) s of
        (Inl err, s') \<Rightarrow> (Inl (wrap_err ''walrusds: storing block %s: %w'' [AStr (fst e)] err), s')
      | (Inr res, s') \<Rightarrow>
          (case expiry N (conf ds) s' of
             (ex, s'') \<Rightarrow>
               (Inr [(fst e, \<lparr>rBlobID = srBlobID res, rObjectID = srObjectID res, rPatchID = [], rOffset = 0,
                       rSize = len64 (snd e),
                       rEncodedSize = encodedSize (conf ds) (srEncodedSize res) (len64 (snd e)),
                       rCost = srCost res, rDeletable = Deletable (conf ds), rEndEpoch = srEndEpoch res,
                       rExpiresAt = ex\<rparr>)], s'')))"

text \<open>The running total of the members' lengths, an \<open>int64\<close>.\<close>

definition total_unencoded :: "blockEntry list \<Rightarrow> int" where
  "total_unencoded pack = fold (\<lambda>e n. wrap64 (n + len64 (snd e))) pack 0"

definition quilt_parts :: "blockEntry list \<Rightarrow> QuiltPart list" where
  "quilt_parts pack = map (\<lambda>(i, e). \<lparr>Identifier = itoa (int i), Data = snd e\<rparr>) (enumerate 0 pack)"

text \<open>\<open>keyByID\<close> and \<open>sizeByID\<close> as one map from an identifier to the block.\<close>

definition blockByID :: "blockEntry list \<Rightarrow> string \<Rightarrow> blockEntry option" where
  "blockByID pack = map_of (map (\<lambda>(i, e). (itoa (int i), e)) (enumerate 0 pack))"

fun quilt_recs ::
  "Config \<Rightarrow> blockEntry list \<Rightarrow> QuiltStoreResult \<Rightarrow> int \<Rightarrow> time option \<Rightarrow> QuiltPatch list \<Rightarrow> KeyRecord list res" where
  "quilt_recs c pack res encoded ex [] = Inr []"
| "quilt_recs c pack res encoded ex (q # qs) =
     (case blockByID pack (qpIdentifier q) of
        None \<Rightarrow> Inl (Errorf ''walrusds: quilt returned unknown identifier %q'' [AStr (qpIdentifier q)])
      | Some e \<Rightarrow>
          (case quilt_recs c pack res encoded ex qs of
             Inl err \<Rightarrow> Inl err
           | Inr recs \<Rightarrow>
               Inr ((fst e, \<lparr>rBlobID = qsQuiltID res, rObjectID = qsObjectID res, rPatchID = qpQuiltPatchID q,
                      rOffset = 0, rSize = len64 (snd e), rEncodedSize = encoded, rCost = qsCost res,
                      rDeletable = Deletable c, rEndEpoch = qsEndEpoch res, rExpiresAt = ex\<rparr>) # recs)))"

definition uploadQuiltPack ::
  "'s net \<Rightarrow> 'd WalrusDatastore \<Rightarrow> blockEntry list \<Rightarrow> 's \<Rightarrow> KeyRecord list res \<times> 's" where
  "uploadQuiltPack N ds pack s =
     (case StoreQuilt N (client ds) (quilt_parts pack) (Epochs (conf ds)) (Deletable (conf ds)) s of
        (Inl err, s') \<Rightarrow> (Inl (wrap_err ''walrusds: storing quilt of %d blocks: %w'' [AInt (len64 pack)] err), s')
      | (Inr res, s') \<Rightarrow>
          if length (qsPatches res) \<noteq> length pack
          then (Inl (Errorf ''walrusds: quilt stored %d patches, expected %d''
                  [AInt (len64 (qsPatches res)), AInt (len64 pack)]), s')
          else (case expiry N (conf ds) s' of
                  (ex, s'') \<Rightarrow>
                    (quilt_recs (conf ds) pack res
                       (encodedSize (conf ds) (qsEncodedSize res) (total_unencoded pack)) ex (qsPatches res), s'')))"

text \<open>The first loop of \<open>uploadConcatPack\<close>: the rows with their offsets, the buffer and the next offset.\<close>

fun concat_rows :: "blockEntry list \<Rightarrow> int \<Rightarrow> (ds_key \<times> int \<times> int) list" where
  "concat_rows [] offset = []"
| "concat_rows (e # es) offset =
     (fst e, offset, len64 (snd e)) # concat_rows es (wrap64 (offset + len64 (snd e)))"

definition uploadConcatPack ::
  "'s net \<Rightarrow> 'd WalrusDatastore \<Rightarrow> blockEntry list \<Rightarrow> 's \<Rightarrow> KeyRecord list res \<times> 's" where
  "uploadConcatPack N ds pack s =
     (let buf = concat (map snd pack); total = total_unencoded pack
      in case Client_Store N (client ds) buf (Epochs (conf ds)) (Deletable (conf ds)) s of
           (Inl err, s') \<Rightarrow> (Inl (wrap_err ''walrusds: storing pack of %d blocks: %w'' [AInt (len64 pack)] err), s')
         | (Inr res, s') \<Rightarrow>
             (let encoded = encodedSize (conf ds) (srEncodedSize res) total
              in case expiry N (conf ds) s' of
                   (ex, s'') \<Rightarrow>
                     (Inr (map (\<lambda>(k, off, sz). (k, \<lparr>rBlobID = srBlobID res, rObjectID = srObjectID res,
                             rPatchID = [], rOffset = off, rSize = sz, rEncodedSize = encoded,
                             rCost = srCost res, rDeletable = Deletable (conf ds),
                             rEndEpoch = srEndEpoch res, rExpiresAt = ex\<rparr>)) (concat_rows pack 0)), s'')))"

definition uploadPack ::
  "'s net \<Rightarrow> 'd WalrusDatastore \<Rightarrow> blockEntry list \<Rightarrow> 's \<Rightarrow> KeyRecord list res \<times> 's" where
  "uploadPack N ds pack s =
     (case pack of
        [] \<Rightarrow> (Inr [], s)
      | [e] \<Rightarrow> uploadSingleBlock N ds e s
      | _ \<Rightarrow> if DisableQuilt (conf ds) then uploadConcatPack N ds pack s else uploadQuiltPack N ds pack s)"

subsection \<open>Operations\<close>

definition ds_Put ::
  "'s net \<Rightarrow> 'd WalrusDatastore \<Rightarrow> ds_key \<Rightarrow> bytes \<Rightarrow> ('d, 's) world \<Rightarrow> unit res \<times> ('d, 's) world" where
  "ds_Put N ds k value w =
     (if len64 value \<ge> PackTargetSize (conf ds) then
        (case on_net (uploadPack N ds [(k, value)]) w of
           (Inl e, w') \<Rightarrow> (Inl e, w')
         | (Inr recs, w') \<Rightarrow> on_db (ix_PutMany (index ds) recs) w')
      else
        (case on_db (ix_StagePutMany (index ds) [(k, value)]) w of
           (Inl e, w') \<Rightarrow> (Inl e, w')
         | (Inr _, w') \<Rightarrow> (Inr (), kickFlusher w')))"

definition ds_Sync :: "ds_key \<Rightarrow> ('d, 's) world \<Rightarrow> unit res \<times> ('d, 's) world" where
  "ds_Sync pfx w = (Inr (), w)"

text \<open>The read \<open>Get\<close> does for a record: by patch for a quilt member, else by byte range.\<close>

definition read_record :: "'s net \<Rightarrow> Client \<Rightarrow> IndexRecord \<Rightarrow> 's cstate \<Rightarrow> bytes res \<times> 's cstate" where
  "read_record N c rec =
     (if rPatchID rec \<noteq> [] then ReadQuiltPatch N c (rPatchID rec)
      else ReadRange N c (rBlobID rec) (rOffset rec) (rSize rec))"

definition ds_Get ::
  "'s net \<Rightarrow> 'd WalrusDatastore \<Rightarrow> ds_key \<Rightarrow> ('d, 's) world \<Rightarrow> bytes res \<times> ('d, 's) world" where
  "ds_Get N ds k w =
     (case on_db (ix_StageGet (index ds) k) w of
        (Inr val, w1) \<Rightarrow> (Inr val, w1)
      | (Inl e, w1) \<Rightarrow>
          if e \<noteq> ErrNotFound then (Inl e, w1)
          else (case on_db (ix_Get (index ds) k) w1 of
                  (Inl e2, w2) \<Rightarrow> (Inl e2, w2)
                | (Inr rec, w2) \<Rightarrow>
                    (case on_cache (read_record N (client ds) rec) w2 of
                       (Inr dat, w3) \<Rightarrow> (Inr dat, w3)
                     | (Inl e3, w3) \<Rightarrow>
                         (Inl (if e3 = ErrBlobNotFound then ErrNotFound
                               else wrap_err ''walrusds: reading blob %s for key %s: %w''
                                      [AStr (rBlobID rec), AStr k] e3), w3))))"

definition ds_Has :: "'d WalrusDatastore \<Rightarrow> ds_key \<Rightarrow> ('d, 's) world \<Rightarrow> bool res \<times> ('d, 's) world" where
  "ds_Has ds k w =
     (case on_db (ix_StageGetSize (index ds) k) w of
        (Inr _, w1) \<Rightarrow> (Inr True, w1)
      | (Inl e, w1) \<Rightarrow>
          if e \<noteq> ErrNotFound then (Inl e, w1)
          else (case on_db (ix_Get (index ds) k) w1 of
                  (Inr _, w2) \<Rightarrow> (Inr True, w2)
                | (Inl e2, w2) \<Rightarrow> if e2 = ErrNotFound then (Inr False, w2) else (Inl e2, w2)))"

definition ds_GetSize :: "'d WalrusDatastore \<Rightarrow> ds_key \<Rightarrow> ('d, 's) world \<Rightarrow> int res \<times> ('d, 's) world" where
  "ds_GetSize ds k w =
     (case on_db (ix_StageGetSize (index ds) k) w of
        (Inr sz, w1) \<Rightarrow> (Inr sz, w1)
      | (Inl e, w1) \<Rightarrow>
          if e \<noteq> ErrNotFound then (Inl e, w1)
          else (case on_db (ix_Get (index ds) k) w1 of
                  (Inl e2, w2) \<Rightarrow> (Inl e2, w2)
                | (Inr rec, w2) \<Rightarrow> (Inr (rSize rec), w2)))"

definition ds_Delete :: "'d WalrusDatastore \<Rightarrow> ds_key \<Rightarrow> ('d, 's) world \<Rightarrow> unit res \<times> ('d, 's) world" where
  "ds_Delete ds k w = on_db (ix_Delete (index ds) k) w"

subsection \<open>Batches\<close>

text \<open>
  A buffered operation is \<open>Some value\<close> for a put and \<open>None\<close> for a delete. \<open>ops\<close> is a Go map: the latest
  operation per key counts, and \<open>Commit\<close> visits the keys in an arbitrary order, the argument \<open>order\<close>.
\<close>

type_synonym batchOp = "bytes option"
type_synonym walrusBatch = "ds_key \<Rightarrow> batchOp option"

definition ds_Batch :: walrusBatch where
  "ds_Batch = Map.empty"

definition batch_Put :: "ds_key \<Rightarrow> bytes \<Rightarrow> walrusBatch \<Rightarrow> walrusBatch" where
  "batch_Put k val ops = ops(k \<mapsto> Some val)"

definition batch_Delete :: "ds_key \<Rightarrow> walrusBatch \<Rightarrow> walrusBatch" where
  "batch_Delete k ops = ops(k \<mapsto> None)"

definition iteration_order :: "walrusBatch \<Rightarrow> (ds_key \<times> batchOp) list \<Rightarrow> bool" where
  "iteration_order ops order \<longleftrightarrow> distinct (map fst order) \<and> map_of order = ops"

text \<open>The three lists the first loop of \<open>Commit\<close> builds.\<close>

definition batch_deletes :: "(ds_key \<times> batchOp) list \<Rightarrow> ds_key list" where
  "batch_deletes order = [k. (k, None) \<leftarrow> order]"

definition batch_oversize :: "int \<Rightarrow> (ds_key \<times> batchOp) list \<Rightarrow> blockEntry list" where
  "batch_oversize target order = [(k, v). (k, Some v) \<leftarrow> order, len64 v \<ge> target]"

definition batch_stage :: "int \<Rightarrow> (ds_key \<times> batchOp) list \<Rightarrow> StageEntry list" where
  "batch_stage target order = [(k, v). (k, Some v) \<leftarrow> order, \<not> len64 v \<ge> target]"

text \<open>The body of the loop over the oversize blocks, and the loop: the errors met, or the panic that ends it.\<close>

definition err_list :: "unit res \<Rightarrow> err list" where
  "err_list r = (case r of Inl e \<Rightarrow> [e] | Inr _ \<Rightarrow> [])"

definition commit_one ::
  "'s net \<Rightarrow> 'd WalrusDatastore \<Rightarrow> blockEntry \<Rightarrow> ('d, 's) world \<Rightarrow> err list res \<times> ('d, 's) world" where
  "commit_one N ds e w =
     (case on_net (uploadPack N ds [e]) w of
        (Inl err, w1) \<Rightarrow> (if is_panic err then Inl err else Inr [err], w1)
      | (Inr recs, w1) \<Rightarrow>
          (case on_db (ix_PutMany (index ds) recs) w1 of (r, w2) \<Rightarrow> (Inr (err_list r), w2)))"

fun commit_oversize ::
  "'s net \<Rightarrow> 'd WalrusDatastore \<Rightarrow> blockEntry list \<Rightarrow> ('d, 's) world \<Rightarrow> err list res \<times> ('d, 's) world" where
  "commit_oversize N ds [] w = (Inr [], w)"
| "commit_oversize N ds (e # es) w =
     (case commit_one N ds e w of
        (Inl p, w1) \<Rightarrow> (Inl p, w1)
      | (Inr errs, w1) \<Rightarrow>
          (case commit_oversize N ds es w1 of
             (Inl p, w2) \<Rightarrow> (Inl p, w2)
           | (Inr errs', w2) \<Rightarrow> (Inr (errs @ errs'), w2)))"

definition batch_Commit ::
  "'s net \<Rightarrow> 'd WalrusDatastore \<Rightarrow> (ds_key \<times> batchOp) list \<Rightarrow> ('d, 's) world \<Rightarrow> unit res \<times> ('d, 's) world" where
  "batch_Commit N ds order w =
     (let stage = batch_stage (PackTargetSize (conf ds)) order;
          oversize = batch_oversize (PackTargetSize (conf ds)) order;
          deletes = batch_deletes order;
          (r1, w1) = on_db (ix_StagePutMany (index ds) stage) w
      in case commit_oversize N ds oversize w1 of
           (Inl p, w2) \<Rightarrow> (Inl p, w2)
         | (Inr errs2, w2) \<Rightarrow>
             (let (r3, w3) = (if deletes \<noteq> [] then on_db (ix_DeleteMany (index ds) deletes) w2 else (Inr (), w2));
                  errs = err_list r1 @ errs2 @ err_list r3
              in if errs \<noteq> [] then (Inl (Joinf ''walrusds: failed batch operation:'' errs), w3)
                 else (Inr (), if stage \<noteq> [] then kickFlusher w3 else w3)))"

subsection \<open>Queries\<close>

text \<open>
  \<open>dsq.Query\<close> restricted to the fields the code reads. \<open>NewKey\<close> is go-datastore's \<open>ds.NewKey(s).String()\<close>.
  The results are those of an iterator drained to its end.
\<close>

record Query =
  qPrefix :: string
  qFilters :: bool
  qOrders :: bool
  qLimit :: int
  qOffset :: int
  qKeysOnly :: bool

record Entry =
  eKey :: ds_key
  eValue :: "bytes option"
  eSize :: int

definition normalizePrefix :: "(string \<Rightarrow> string) \<Rightarrow> string \<Rightarrow> string" where
  "normalizePrefix NewKey pfx = (if pfx = [] then ''/'' else NewKey pfx)"

fun query_results ::
  "'s net \<Rightarrow> 'd WalrusDatastore \<Rightarrow> (string \<Rightarrow> string) \<Rightarrow> bool \<Rightarrow> ListItem list \<Rightarrow> ('d, 's) world
     \<Rightarrow> Entry res list \<times> ('d, 's) world" where
  "query_results N ds NewKey keysOnly [] w = ([], w)"
| "query_results N ds NewKey keysOnly (it # its) w =
     (let (res, w1) =
            (if keysOnly then (Inr \<lparr>eKey = fst it, eValue = None, eSize = snd it\<rparr>, w)
             else (case ds_Get N ds (NewKey (fst it)) w of
                     (Inl e, w1) \<Rightarrow> (Inl e, w1)
                   | (Inr val, w1) \<Rightarrow> (Inr \<lparr>eKey = fst it, eValue = Some val, eSize = len64 val\<rparr>, w1)));
          (rest, w2) = query_results N ds NewKey keysOnly its w1
      in (res # rest, w2))"

definition ds_Query ::
  "'s net \<Rightarrow> 'd WalrusDatastore \<Rightarrow> (string \<Rightarrow> string) \<Rightarrow> Query \<Rightarrow> ('d, 's) world
     \<Rightarrow> Entry res list res \<times> ('d, 's) world" where
  "ds_Query N ds NewKey q w =
     (if qOrders q \<or> qFilters q then (Inl (Errorf ''walrusds: filters or orders are not supported'' []), w)
      else (case on_db (ix_List (index ds) (normalizePrefix NewKey (qPrefix q)) (qLimit q) (qOffset q)) w of
              (Inl e, w1) \<Rightarrow> (Inl e, w1)
            | (Inr found, w1) \<Rightarrow>
                (case query_results N ds NewKey (qKeysOnly q) found w1 of (rs, w2) \<Rightarrow> (Inr rs, w2))))"

subsection \<open>What a world stands for\<close>

text \<open>
  A record locates the bytes \<open>v\<close> when its size is their length and it points at a quilt patch that holds
  them, or at a range of a blob that holds them. A world stands for the map \<open>m\<close> from keys to bytes when
  every key is either staged with its bytes, or indexed by a record that locates them, or absent from all
  three; a row shadowed by a staged key is not constrained.
\<close>

definition rec_ok :: "(string \<Rightarrow> bytes option) \<Rightarrow> IndexRecord \<Rightarrow> bytes \<Rightarrow> bool" where
  "rec_ok blobs r v \<longleftrightarrow> rSize r = len64 v
     \<and> (if rPatchID r \<noteq> [] then blobs (rPatchID r) = Some v
        else 0 \<le> rOffset r \<and> rOffset r + len64 v < 2 ^ 63
          \<and> (v = [] \<or> (\<exists>full. blobs (rBlobID r) = Some full \<and> take (length v) (drop (nat (rOffset r)) full) = v)))"

fun key_ok :: "(string \<Rightarrow> bytes option) \<Rightarrow> bytes option \<Rightarrow> IndexRecord option \<Rightarrow> bytes option \<Rightarrow> bool" where
  "key_ok blobs (Some b) _ x = (x = Some b)"
| "key_ok blobs None (Some r) x = (\<exists>b. x = Some b \<and> rec_ok blobs r b)"
| "key_ok blobs None None x = (x = None)"

definition implements :: "view \<Rightarrow> (string \<Rightarrow> bytes option) \<Rightarrow> (ds_key \<Rightarrow> bytes option) \<Rightarrow> bool" where
  "implements vw blobs m \<longleftrightarrow> (\<forall>k. key_ok blobs (fst vw k) (snd vw k) (m k))"

definition stands_for ::
  "('d \<Rightarrow> bool) \<Rightarrow> ('d \<Rightarrow> view) \<Rightarrow> ('s \<Rightarrow> string \<Rightarrow> bytes option) \<Rightarrow> ('d, 's) world
     \<Rightarrow> (ds_key \<Rightarrow> bytes option) \<Rightarrow> bool" where
  "stands_for invar vw blobs w m \<longleftrightarrow>
     invar (wdb w) \<and> cache_ok (wcache w) \<and> cache_contents (wcache w) \<subseteq>\<^sub>m blobs (wnet w)
     \<and> implements (vw (wdb w)) (blobs (wnet w)) m"

text \<open>The documented behaviour of Walrus the datastore relies on.\<close>

definition honest_walrus :: "'s net \<Rightarrow> Client \<Rightarrow> ('s \<Rightarrow> string \<Rightarrow> bytes option) \<Rightarrow> bool" where
  "honest_walrus N c blobs \<longleftrightarrow>
     immutable N blobs \<and> honest_publisher N blobs \<and> honest_aggregator N (aggregators c) blobs"

text \<open>The random boundary never occurs in the bytes of a block.\<close>

definition boundary_free :: "'s net \<Rightarrow> bytes \<Rightarrow> bool" where
  "boundary_free N v \<longleftrightarrow>
     (\<forall>s b. fst (multipartBoundary N s) = Inr b \<longrightarrow> \<not> occurs (delimiter b) (CRLF @ v))"

lemma rec_ok_mono:
  assumes "blobs \<subseteq>\<^sub>m blobs'" "rec_ok blobs r v"
  shows "rec_ok blobs' r v"
proof -
  have "blobs k = Some x \<Longrightarrow> blobs' k = Some x" for k x
    using assms(1) by (metis domI map_le_def)
  then show ?thesis using assms(2) unfolding rec_ok_def by (cases "rPatchID r = []") auto
qed

lemma key_ok_mono: "blobs \<subseteq>\<^sub>m blobs' \<Longrightarrow> key_ok blobs st ix x \<Longrightarrow> key_ok blobs' st ix x"
  by (cases st; cases ix) (auto dest: rec_ok_mono)

lemma implements_mono: "blobs \<subseteq>\<^sub>m blobs' \<Longrightarrow> implements vw blobs m \<Longrightarrow> implements vw blobs' m"
  unfolding implements_def by (blast intro: key_ok_mono)

lemma implements_stage: "implements vw blobs m \<Longrightarrow> implements (stage_view es vw) blobs (upd_all es m)"
  by (auto simp: implements_def stage_view_def upd_all_conv map_add_def split: option.split)

lemma implements_delete: "implements vw blobs m \<Longrightarrow> implements (delete_view ks vw) blobs (m |` (- set ks))"
  by (simp add: implements_def delete_view_def restrict_map_def)

text \<open>Rows for the members of a pack: each row's key is a member's key and the row locates that member's bytes.\<close>

definition recs_for :: "(string \<Rightarrow> bytes option) \<Rightarrow> blockEntry list \<Rightarrow> KeyRecord list \<Rightarrow> bool" where
  "recs_for blobs pack recs \<longleftrightarrow> (\<forall>(k, r)\<in>set recs. \<exists>v. (k, v) \<in> set pack \<and> rec_ok blobs r v)"

lemma implements_promote:
  assumes "implements vw blobs m" "recs_for blobs pack recs" "\<forall>(k, v)\<in>set pack. fst vw k \<in> {None, Some v}"
  shows "implements (promote_view recs vw) blobs m"
  unfolding implements_def
proof
  fix k
  let ?live = "filter (\<lambda>(k, r). fst vw k \<noteq> None) recs"
  have old: "key_ok blobs (fst vw k) (snd vw k) (m k)" using assms(1) by (simp add: implements_def)
  show "key_ok blobs (fst (promote_view recs vw) k) (snd (promote_view recs vw) k) (m k)"
  proof (cases "k \<in> fst ` set ?live")
    case False
    then have "upd_all ?live (snd vw) k = snd vw k" "k \<notin> fst ` set recs \<or> fst vw k = None"
      using upd_all_notin [of k ?live] by (auto simp: image_iff)
    then show ?thesis using old by (auto simp: promote_view_def restrict_map_def)
  next
    case True
    then obtain r where r: "(k, r) \<in> set ?live" "upd_all ?live (snd vw) k = Some r"
      using upd_all_last [OF True] by blast
    then obtain v where v: "(k, v) \<in> set pack" "rec_ok blobs r v" using assms(2) by (auto simp: recs_for_def)
    have "fst vw k = Some v" using assms(3) v(1) r(1) by auto
    then have "m k = Some v" using old by simp
    moreover have "k \<in> fst ` set recs" using True by auto
    ultimately show ?thesis using r(2) v(2) by (simp add: promote_view_def)
  qed
qed

lemma implements_put:
  assumes "implements vw blobs m" "recs_for blobs pack recs" "distinct (map fst pack)"
    and "fst ` set recs = fst ` set pack" and "\<forall>(k, v)\<in>set pack. fst vw k \<in> {None, Some v}"
  shows "implements (put_view recs vw) blobs (upd_all pack m)"
  unfolding implements_def
proof
  fix k
  have old: "key_ok blobs (fst vw k) (snd vw k) (m k)" using assms(1) by (simp add: implements_def)
  show "key_ok blobs (fst (put_view recs vw) k) (snd (put_view recs vw) k) (upd_all pack m k)"
  proof (cases "k \<in> fst ` set recs")
    case False
    then show ?thesis using old upd_all_notin [of k recs] upd_all_notin [of k pack] assms(4)
      by (simp add: put_view_def)
  next
    case True
    then obtain r where r: "(k, r) \<in> set recs" "upd_all recs (snd vw) k = Some r"
      using upd_all_last [OF True] by blast
    then obtain v where v: "(k, v) \<in> set pack" "rec_ok blobs r v"
      using assms(2) by (fastforce simp: recs_for_def)
    have "upd_all pack m k = Some v" using upd_all_in [OF assms(3) v(1)] .
    moreover have "fst vw k \<in> {None, Some v}" using assms(5) v(1) by auto
    ultimately show ?thesis using r(2) v(2) by (auto simp: put_view_def)
  qed
qed

subsection \<open>Uploads locate their blocks\<close>

text \<open>What is known after an upload that returned rows.\<close>

definition uploaded ::
  "('s \<Rightarrow> string \<Rightarrow> bytes option) \<Rightarrow> blockEntry list \<Rightarrow> 's \<Rightarrow> KeyRecord list res \<Rightarrow> 's \<Rightarrow> bool" where
  "uploaded blobs pack s r s' \<longleftrightarrow> blobs s \<subseteq>\<^sub>m blobs s'
     \<and> (\<forall>recs. r = Inr recs \<longrightarrow> recs_for (blobs s') pack recs \<and> length recs = length pack)"

lemma expiry_mono: "immutable N blobs \<Longrightarrow> expiry N c s = (ex, s') \<Longrightarrow> blobs s \<subseteq>\<^sub>m blobs s'"
proof -
  assume *: "immutable N blobs" "expiry N c s = (ex, s')"
  have "blobs s \<subseteq>\<^sub>m blobs (snd (time_Now N s))"
    using immutable_ambient [OF *(1), of "blobs s"] by (simp add: ambient_def)
  then show ?thesis using *(2) by (auto simp: expiry_def split: if_splits prod.splits)
qed

lemma Store_mono:
  assumes "immutable N blobs" "Client_Store N c val eps dl s = (r, s')"
  shows "blobs s \<subseteq>\<^sub>m blobs s'"
  using Store_result(1) [where I = "\<lambda>u. blobs s \<subseteq>\<^sub>m blobs u", OF immutable_ambient [OF assms(1)]
      immutable_send [OF assms(1)] map_le_refl assms(2)] .

lemma StoreQuilt_mono:
  assumes "immutable N blobs" "StoreQuilt N c parts eps dl s = (r, s')"
  shows "blobs s \<subseteq>\<^sub>m blobs s'"
  using StoreQuilt_result(1) [where I = "\<lambda>u. blobs s \<subseteq>\<^sub>m blobs u", OF immutable_ambient [OF assms(1)]
      map_le_refl assms(2) immutable_send [OF assms(1)]] .

lemma uploadSingleBlock_ok:
  assumes "honest_walrus N (client ds) blobs" "len64 (snd e) < 2 ^ 63"
    "uploadSingleBlock N ds e s = (r, s')"
  shows "uploaded blobs [e] s r s'"
proof -
  have im: "immutable N blobs" and pub: "honest_publisher N blobs" using assms(1) by (auto simp: honest_walrus_def)
  obtain x t where st: "Client_Store N (client ds) (snd e) (Epochs (conf ds)) (Deletable (conf ds)) s = (x, t)"
    by fastforce
  obtain ex u where ex: "expiry N (conf ds) t = (ex, u)" by fastforce
  note mono = Store_mono [OF im st] expiry_mono [OF im ex]
  show ?thesis
  proof (cases x)
    case (Inl err)
    then show ?thesis using assms(3) st mono by (auto simp: uploadSingleBlock_def uploaded_def)
  next
    case (Inr res)
    then have "blobs t (srBlobID res) = Some (snd e)" using Store_stores [OF im pub] st by blast
    then have "blobs u (srBlobID res) = Some (snd e)" using mono(2) by (metis domI map_le_def)
    then show ?thesis
      using assms(2,3) st ex Inr mono by (cases e) (auto simp: uploadSingleBlock_def uploaded_def recs_for_def rec_ok_def
          intro: map_le_trans)
  qed
qed

lemma concat_rows_ok:
  assumes "len64 (p @ concat (map snd es)) < 2 ^ 63"
  shows "\<forall>(k, off, sz)\<in>set (concat_rows es (len64 p)). \<exists>v. (k, v) \<in> set es \<and> sz = len64 v \<and> 0 \<le> off
    \<and> off + len64 v < 2 ^ 63 \<and> take (length v) (drop (nat off) (p @ concat (map snd es))) = v"
  using assms
proof (induction es arbitrary: p)
  case (Cons e es)
  have w: "wrap64 (len64 p + len64 (snd e)) = len64 (p @ snd e)"
    using Cons.prems by (intro trans [OF wrap64_id]) (simp_all add: in_i64_def)
  have IH: "\<forall>(k, off, sz)\<in>set (concat_rows es (len64 (p @ snd e))). \<exists>v. (k, v) \<in> set es \<and> sz = len64 v \<and> 0 \<le> off
    \<and> off + len64 v < 2 ^ 63 \<and> take (length v) (drop (nat off) ((p @ snd e) @ concat (map snd es))) = v"
    by (rule Cons.IH) (use Cons.prems in simp)
  have hd: "\<exists>v. (fst e, v) \<in> set (e # es) \<and> len64 (snd e) = len64 v \<and> (0::int) \<le> len64 p
    \<and> len64 p + len64 v < 2 ^ 63 \<and> take (length v) (drop (nat (len64 p)) (p @ concat (map snd (e # es)))) = v"
    using Cons.prems by (intro exI [of _ "snd e"]) auto
  show ?case
    unfolding concat_rows.simps w using IH hd by (auto simp del: of_nat_add)
qed simp

lemma length_concat_rows [simp]: "length (concat_rows es off) = length es"
  by (induction es arbitrary: off) auto

lemma uploadConcatPack_ok:
  assumes "honest_walrus N (client ds) blobs" "len64 (concat (map snd pack)) < 2 ^ 63"
    "uploadConcatPack N ds pack s = (r, s')"
  shows "uploaded blobs pack s r s'"
proof -
  have im: "immutable N blobs" and pub: "honest_publisher N blobs" using assms(1) by (auto simp: honest_walrus_def)
  let ?buf = "concat (map snd pack)"
  obtain x t where st: "Client_Store N (client ds) ?buf (Epochs (conf ds)) (Deletable (conf ds)) s = (x, t)"
    by fastforce
  obtain ex u where ex: "expiry N (conf ds) t = (ex, u)" by fastforce
  note mono = Store_mono [OF im st] expiry_mono [OF im ex]
  show ?thesis
  proof (cases x)
    case (Inl err)
    then show ?thesis using assms(3) st mono by (auto simp: uploadConcatPack_def uploaded_def Let_def)
  next
    case (Inr res)
    then have "blobs t (srBlobID res) = Some ?buf" using Store_stores [OF im pub] st by blast
    then have b: "blobs u (srBlobID res) = Some ?buf" using mono(2) by (metis domI map_le_def)
    have rows: "\<forall>(k, off, sz)\<in>set (concat_rows pack 0). \<exists>v. (k, v) \<in> set pack \<and> sz = len64 v \<and> 0 \<le> off
        \<and> off + len64 v < 2 ^ 63 \<and> take (length v) (drop (nat off) ?buf) = v"
      using concat_rows_ok [of "[]" pack] assms(2) by simp
    show ?thesis
      using assms(3) st ex Inr mono b rows
      by (auto simp: uploadConcatPack_def uploaded_def Let_def recs_for_def rec_ok_def intro: map_le_trans)
        fastforce
  qed
qed

lemma set_enumerate_0: "(i, e) \<in> set (enumerate 0 pack) \<longleftrightarrow> i < length pack \<and> pack ! i = e"
  by (auto simp: in_set_enumerate_eq)

lemma quilt_ids_distinct: "distinct (map Identifier (quilt_parts pack))"
proof -
  have "map Identifier (quilt_parts pack) = map (\<lambda>i. itoa (int i)) [0..<length pack]"
    by (rule nth_equalityI) (simp_all add: quilt_parts_def nth_enumerate_eq)
  then show ?thesis by (simp add: distinct_map inj_on_def)
qed

lemma blockByID_Some:
  assumes "blockByID pack i = Some e"
  shows "e \<in> set pack \<and> \<lparr>Identifier = i, Data = snd e\<rparr> \<in> set (quilt_parts pack)"
proof -
  obtain n where n: "(n, e) \<in> set (enumerate 0 pack)" "i = itoa (int n)"
    using map_of_SomeD [OF assms [unfolded blockByID_def]] by auto
  then have "e \<in> set pack" by (auto simp: set_enumerate_0)
  moreover have "\<lparr>Identifier = i, Data = snd e\<rparr> \<in> set (quilt_parts pack)"
    unfolding quilt_parts_def using n by (force simp: image_def)
  ultimately show ?thesis by simp
qed

lemma quilt_part_in_pack: "p \<in> set (quilt_parts pack) \<Longrightarrow> Data p \<in> snd ` set pack \<and> (\<exists>n. Identifier p = nat_digits n)"
proof -
  assume "p \<in> set (quilt_parts pack)"
  then obtain i e where ie: "(i, e) \<in> set (enumerate 0 pack)" "p = \<lparr>Identifier = itoa (int i), Data = snd e\<rparr>"
    unfolding quilt_parts_def by auto
  then have "e \<in> set pack" by (auto simp: set_enumerate_0)
  then show ?thesis using ie(2) by auto
qed

lemma quilt_recs_ok:
  assumes "quilt_recs c pack res encoded ex qs = Inr recs"
    and "\<forall>q\<in>set qs. qpQuiltPatchID q \<noteq> [] \<and> (\<forall>p\<in>set (quilt_parts pack).
      qpIdentifier q = Identifier p \<longrightarrow> blobs (qpQuiltPatchID q) = Some (Data p))"
  shows "recs_for blobs pack recs \<and> length recs = length qs"
  using assms
proof (induction qs arbitrary: recs)
  case Nil
  then show ?case by (simp add: recs_for_def)
next
  case (Cons q qs)
  obtain e where e: "blockByID pack (qpIdentifier q) = Some e"
    using Cons.prems(1) by (auto split: option.splits)
  obtain recs' where r: "quilt_recs c pack res encoded ex qs = Inr recs'"
    using Cons.prems(1) e by (auto split: sum.splits)
  have IH: "recs_for blobs pack recs' \<and> length recs' = length qs" using Cons.IH [OF r] Cons.prems(2) by simp
  have "blobs (qpQuiltPatchID q) = Some (snd e)" "qpQuiltPatchID q \<noteq> []"
    using Cons.prems(2) blockByID_Some [OF e] by fastforce+
  then have hd: "rec_ok blobs \<lparr>rBlobID = qsQuiltID res, rObjectID = qsObjectID res, rPatchID = qpQuiltPatchID q,
      rOffset = 0, rSize = len64 (snd e), rEncodedSize = encoded, rCost = qsCost res, rDeletable = Deletable c,
      rEndEpoch = qsEndEpoch res, rExpiresAt = ex\<rparr> (snd e)" by (simp add: rec_ok_def)
  show ?case
    using Cons.prems(1) e r IH blockByID_Some [OF e] hd by (cases e) (auto simp: recs_for_def)
qed

lemma quilt_parts_clean:
  assumes "\<forall>v\<in>snd ` set pack. boundary_free N v" "fst (multipartBoundary N s) = Inr b"
  shows "\<forall>p\<in>set (quilt_parts pack). clean_part b p"
proof
  fix p assume "p \<in> set (quilt_parts pack)"
  then obtain n where d: "Data p \<in> snd ` set pack" and n: "Identifier p = nat_digits n"
    using quilt_part_in_pack by blast
  have "CHR 0x0D \<notin> set (nat_digits n)" using nat_digits_all [of "CHR 0x0D" n] by (auto simp: is_digit_def)
  then show "clean_part b p"
    using assms d n by (auto simp: clean_part_def boundary_free_def)
qed

lemma uploadQuiltPack_ok:
  assumes "honest_walrus N (client ds) blobs" "\<forall>v\<in>snd ` set pack. boundary_free N v"
    "uploadQuiltPack N ds pack s = (r, s')"
  shows "uploaded blobs pack s r s'"
proof -
  have im: "immutable N blobs" and pub: "honest_publisher N blobs" using assms(1) by (auto simp: honest_walrus_def)
  obtain x t where st: "StoreQuilt N (client ds) (quilt_parts pack) (Epochs (conf ds)) (Deletable (conf ds)) s = (x, t)"
    by fastforce
  obtain ex u where ex: "expiry N (conf ds) t = (ex, u)" by fastforce
  note mono = StoreQuilt_mono [OF im st] expiry_mono [OF im ex]
  show ?thesis
  proof (cases "\<exists>res. x = Inr res \<and> length (qsPatches res) = length pack")
    case False
    then show ?thesis
      using assms(3) st mono by (auto simp: uploadQuiltPack_def uploaded_def split: if_splits sum.splits)
  next
    case True
    then obtain res where x: "x = Inr res" "length (qsPatches res) = length pack" by blast
    have cl: "\<And>b. fst (multipartBoundary N s) = Inr b \<Longrightarrow> \<forall>p\<in>set (quilt_parts pack). clean_part b p"
      by (rule quilt_parts_clean [OF assms(2)])
    have "\<forall>q\<in>set (qsPatches res). qpQuiltPatchID q \<noteq> [] \<and> (\<forall>p\<in>set (quilt_parts pack).
        qpIdentifier q = Identifier p \<longrightarrow> blobs t (qpQuiltPatchID q) = Some (Data p))"
      using StoreQuilt_stores [OF im pub quilt_ids_distinct cl st [unfolded x(1)]] by blast
    then have q: "\<forall>q\<in>set (qsPatches res). qpQuiltPatchID q \<noteq> [] \<and> (\<forall>p\<in>set (quilt_parts pack).
        qpIdentifier q = Identifier p \<longrightarrow> blobs u (qpQuiltPatchID q) = Some (Data p))"
      using mono(2) unfolding map_le_def by (metis domI)
    show ?thesis
      using assms(3) st ex x mono quilt_recs_ok [OF _ q]
      by (auto simp: uploadQuiltPack_def uploaded_def intro: map_le_trans)
  qed
qed

lemma uploadPack_ok:
  assumes "honest_walrus N (client ds) blobs" "\<forall>v\<in>snd ` set pack. boundary_free N v"
    "len64 (concat (map snd pack)) < 2 ^ 63" "uploadPack N ds pack s = (r, s')"
  shows "uploaded blobs pack s r s'"
proof -
  consider "pack = []" | e where "pack = [e]" | e f es where "pack = e # f # es" by (cases pack; cases "tl pack") auto
  then show ?thesis
  proof cases
    case 1
    then show ?thesis using assms(4) by (auto simp: uploadPack_def uploaded_def recs_for_def)
  next
    case (2 e)
    then show ?thesis using uploadSingleBlock_ok [OF assms(1), of e s r s'] assms(3,4) by (simp add: uploadPack_def)
  next
    case 3
    then show ?thesis
      using uploadConcatPack_ok [OF assms(1,3)] uploadQuiltPack_ok [OF assms(1,2)] assms(4)
      by (auto simp: uploadPack_def split: if_splits)
  qed
qed

subsection \<open>Operations refine the map\<close>

text \<open>How the map follows a change of one part of the world.\<close>

lemma stands_for_db:
  "stands_for invar view blobs w m \<Longrightarrow> invar d \<Longrightarrow> implements (view d) (blobs (wnet w)) m'
     \<Longrightarrow> stands_for invar view blobs (w\<lparr>wdb := d\<rparr>) m'"
  by (simp add: stands_for_def)

lemma stands_for_net:
  assumes "stands_for invar view blobs w m" "blobs (wnet w) \<subseteq>\<^sub>m blobs s"
  shows "stands_for invar view blobs (w\<lparr>wnet := s\<rparr>) m"
  using assms by (auto simp: stands_for_def intro: map_le_trans implements_mono)

lemma stands_for_cache:
  assumes "stands_for invar view blobs w m" "blobs (wnet w) \<subseteq>\<^sub>m blobs s" "lru_cache.coherent (blobs s) cc"
  shows "stands_for invar view blobs (w\<lparr>wcache := cc, wnet := s\<rparr>) m"
  using assms by (auto simp: stands_for_def lru_cache.coherent_def intro: implements_mono)

lemma stands_for_kick [simp]: "stands_for invar view blobs (kickFlusher w) m = stands_for invar view blobs w m"
  by (simp add: stands_for_def kickFlusher_def)

lemma stands_for_coherent: "stands_for invar view blobs w m \<Longrightarrow> lru_cache.coherent (blobs (wnet w)) (wcache w)"
  by (simp add: stands_for_def lru_cache.coherent_def)

lemma on_net_mono:
  assumes "stands_for invar view blobs w m" "on_net f w = (r, w')" "\<And>s'. f (wnet w) = (r, s') \<Longrightarrow> uploaded blobs pack (wnet w) r s'"
  shows "stands_for invar view blobs w' m \<and> wdb w' = wdb w \<and> uploaded blobs pack (wnet w) r (wnet w')"
  using assms stands_for_net [OF assms(1)] by (auto simp: on_net_def uploaded_def split: prod.splits)

lemma read_record_ok:
  assumes hw: "honest_walrus N c blobs" and st: "stands_for invar view blobs w m" and ro: "rec_ok (blobs (wnet w)) rec v"
    and rd: "on_cache (read_record N c rec) w = (r, w')"
  shows "stands_for invar view blobs w' m \<and> (\<forall>d. r = Inr d \<longrightarrow> d = v) \<and> r \<noteq> Inl ErrBlobNotFound"
proof -
  obtain cc s where x: "read_record N c rec (wcache w, wnet w) = (r, cc, s)" "w' = w\<lparr>wcache := cc, wnet := s\<rparr>"
    using rd by (auto simp: on_cache_def split: prod.splits)
  have im: "immutable N blobs" and ag: "honest_aggregator N (aggregators c) blobs" using hw by (auto simp: honest_walrus_def)
  note co = stands_for_coherent [OF st]
  have "lru_cache.coherent (blobs s) cc \<and> blobs (wnet w) \<subseteq>\<^sub>m blobs s \<and> (\<forall>d. r = Inr d \<longrightarrow> d = v) \<and> r \<noteq> Inl ErrBlobNotFound"
  proof (cases "rPatchID rec = []")
    case False
    then have pv: "blobs (wnet w) (rPatchID rec) = Some v" using ro by (simp add: rec_ok_def)
    have "ReadQuiltPatch N c (rPatchID rec) (wcache w, wnet w) = (r, cc, s)" using x(1) False by (simp add: read_record_def)
    note res = ReadQuiltPatch_result [OF im ag co this]
    have "blobs s (rPatchID rec) = Some v" using res pv by (metis domI map_le_def)
    then show ?thesis using res by auto
  next
    case pe: True
    have rr: "ReadRange N c (rBlobID rec) (rOffset rec) (len64 v) (wcache w, wnet w) = (r, cc, s)"
      using x(1) pe ro by (simp add: read_record_def rec_ok_def)
    show ?thesis
    proof (cases "v = []")
      case True
      then show ?thesis using rr co by (auto simp: ReadRange_def)
    next
      case False
      then obtain full where f: "0 \<le> rOffset rec" "rOffset rec + len64 v < 2 ^ 63"
        "blobs (wnet w) (rBlobID rec) = Some full" "take (length v) (drop (nat (rOffset rec)) full) = v"
        using ro pe by (auto simp: rec_ok_def)
      have "0 < len64 v" using False by simp
      note res = ReadRange_result [OF im ag f(1) this f(2) co rr]
      have "blobs s (rBlobID rec) = Some full" using res f(3) by (metis domI map_le_def)
      then show ?thesis using res f(4) by auto
    qed
  qed
  then show ?thesis using stands_for_cache [OF st] x(2) by blast
qed

lemma wrap_err_not_found [simp]: "wrap_err msg as e \<noteq> ErrNotFound"
  by (cases e) (simp_all add: wrap_err_def)

context durable_index
begin

lemma Get_refines:
  assumes hw: "honest_walrus N (client ds) blobs" and ds: "index ds = ix" and st: "stands_for invar view blobs w m"
    and op: "ds_Get N ds k w = (r, w')"
  shows "stands_for invar view blobs w' m \<and> (\<forall>d. r = Inr d \<longrightarrow> m k = Some d) \<and> (r = Inl ErrNotFound \<longrightarrow> m k = None)"
proof -
  have i: "invar (wdb w)" and imp: "implements (view (wdb w)) (blobs (wnet w)) m" using st by (auto simp: stands_for_def)
  have ko: "key_ok (blobs (wnet w)) (fst (view (wdb w)) k) (snd (view (wdb w)) k) (m k)" using imp by (simp add: implements_def)
  obtain sv d1 where 1: "ix_StageGet ix k (wdb w) = (sv, d1)" by fastforce
  note l1 = StageGet_law [OF i 1]
  let ?w1 = "w\<lparr>wdb := d1\<rparr>"
  have st1: "stands_for invar view blobs ?w1 m" using stands_for_db [OF st] l1 imp by simp
  show ?thesis
  proof (cases "sv = Inl ErrNotFound")
    case False
    then show ?thesis using op 1 st1 l1 ko ds by (auto simp: ds_Get_def on_db_def probe_ok_def split: sum.splits)
  next
    case nf: True
    then have s0: "fst (view (wdb w)) k = None" using l1 by (simp add: probe_ok_def)
    obtain g d2 where 2: "ix_Get ix k d1 = (g, d2)" by fastforce
    note l2 = Get_law [OF conjunct1 [OF l1] 2]
    let ?w2 = "w\<lparr>wdb := d2\<rparr>"
    have st2: "stands_for invar view blobs ?w2 m" using stands_for_db [OF st] l1 l2 imp by simp
    show ?thesis
    proof (cases g)
      case (Inl e)
      then show ?thesis using op 1 2 nf st2 l1 l2 ko s0 ds by (auto simp: ds_Get_def on_db_def probe_ok_def)
    next
      case (Inr rec)
      then have "snd (view (wdb w)) k = Some rec" using l1 l2 by (simp add: probe_ok_def)
      then obtain v where v: "m k = Some v" "rec_ok (blobs (wnet ?w2)) rec v" using ko s0 by auto
      obtain x w3 where 3: "on_cache (read_record N (client ds) rec) ?w2 = (x, w3)" by fastforce
      show ?thesis
        using op 1 2 3 nf Inr v(1) ds read_record_ok [OF hw st2 v(2) 3]
        by (auto simp: ds_Get_def on_db_def split: sum.splits if_splits)
    qed
  qed
qed

text \<open>The two probes of \<open>Has\<close> and \<open>GetSize\<close>.\<close>

lemma size_probes:
  assumes ds: "index ds = ix" and st: "stands_for invar view blobs w m"
    and p1: "on_db (ix_StageGetSize ix k) w = (sz, w1)" and p2: "on_db (ix_Get ix k) w1 = (g, w2)"
  shows "stands_for invar view blobs w1 m \<and> stands_for invar view blobs w2 m
    \<and> (\<forall>n. sz = Inr n \<longrightarrow> (\<exists>v. m k = Some v \<and> n = len64 v))
    \<and> (sz = Inl ErrNotFound \<longrightarrow> (\<forall>rec. g = Inr rec \<longrightarrow> (\<exists>v. m k = Some v \<and> rSize rec = len64 v))
         \<and> (g = Inl ErrNotFound \<longrightarrow> m k = None))"
proof -
  have i: "invar (wdb w)" and imp: "implements (view (wdb w)) (blobs (wnet w)) m" using st by (auto simp: stands_for_def)
  have ko: "key_ok (blobs (wnet w)) (fst (view (wdb w)) k) (snd (view (wdb w)) k) (m k)" using imp by (simp add: implements_def)
  obtain d1 where 1: "ix_StageGetSize ix k (wdb w) = (sz, d1)" "w1 = w\<lparr>wdb := d1\<rparr>"
    using p1 by (auto simp: on_db_def split: prod.splits)
  note l1 = StageGetSize_law [OF i 1(1)]
  obtain d2 where 2: "ix_Get ix k d1 = (g, d2)" "w2 = w\<lparr>wdb := d2\<rparr>"
    using p2 1(2) by (auto simp: on_db_def split: prod.splits)
  note l2 = Get_law [OF conjunct1 [OF l1] 2(1)]
  have "stands_for invar view blobs w1 m" "stands_for invar view blobs w2 m"
    using stands_for_db [OF st] l1 l2 1(2) 2(2) imp by simp_all
  moreover have "\<exists>v. m k = Some v \<and> n = len64 v" if "sz = Inr n" for n
    using that l1 ko by (auto simp: probe_ok_def)
  moreover have "(\<forall>rec. g = Inr rec \<longrightarrow> (\<exists>v. m k = Some v \<and> rSize rec = len64 v)) \<and> (g = Inl ErrNotFound \<longrightarrow> m k = None)"
    if "sz = Inl ErrNotFound"
    using that l1 l2 ko by (auto simp: probe_ok_def rec_ok_def)
  ultimately show ?thesis by blast
qed

lemma Has_GetSize_refine:
  assumes ds: "index ds = ix" and st: "stands_for invar view blobs w m"
    and "ds_Has ds k w = (h, wh)" "ds_GetSize ds k w = (z, wz)"
  shows "stands_for invar view blobs wh m \<and> stands_for invar view blobs wz m
    \<and> (\<forall>b. h = Inr b \<longrightarrow> b = (m k \<noteq> None))
    \<and> (\<forall>n. z = Inr n \<longrightarrow> (\<exists>v. m k = Some v \<and> n = len64 v)) \<and> (z = Inl ErrNotFound \<longrightarrow> m k = None)"
proof -
  obtain sz w1 where 1: "on_db (ix_StageGetSize ix k) w = (sz, w1)" by fastforce
  obtain g w2 where 2: "on_db (ix_Get ix k) w1 = (g, w2)" by fastforce
  note p = size_probes [OF ds st 1 2]
  show ?thesis
    using assms(3,4) 1 2 p ds unfolding ds_Has_def ds_GetSize_def by (auto split: sum.splits if_splits)
qed

end

text \<open>
  The outcome of a mutating call: its whole effect when it succeeds, its whole effect or none when it fails.
\<close>

definition outcome :: "('w \<Rightarrow> 'm \<Rightarrow> bool) \<Rightarrow> 'a res \<Rightarrow> 'w \<Rightarrow> 'm \<Rightarrow> 'm \<Rightarrow> bool" where
  "outcome S r w m m' \<longleftrightarrow> (if is_ok r then S w m' else S w m \<or> S w m')"

lemma stands_for_change:
  assumes st: "stands_for invar view blobs w m" and op: "on_db f w = (r, w')"
    and law: "\<And>d'. f (wdb w) = (r, d') \<Longrightarrow> invar d' \<and> all_or_nothing g r (view (wdb w)) (view d')"
    and new: "implements (g (view (wdb w))) (blobs (wnet w)) m'"
  shows "outcome (stands_for invar view blobs) r w' m m'"
proof -
  obtain d' where d: "f (wdb w) = (r, d')" "w' = w\<lparr>wdb := d'\<rparr>" using op by (auto simp: on_db_def split: prod.splits)
  have old: "implements (view (wdb w)) (blobs (wnet w)) m" using st by (simp add: stands_for_def)
  show ?thesis
    using law [OF d(1)] d(2) new old stands_for_db [OF st]
    by (cases r) (auto simp: outcome_def all_or_nothing_def)
qed

lemma upd_all_pointwise: "m k = m' k \<Longrightarrow> upd_all kvs m k = upd_all kvs m' k"
  by (simp add: upd_all_conv map_add_def split: option.split)

lemma upd_all_disjoint:
  assumes "k \<notin> fst ` set xs \<or> k \<notin> fst ` set ys" "m' = m \<or> m' = upd_all ys m" "x = m' k \<or> x = upd_all xs m' k"
  shows "x = m k \<or> x = upd_all xs (upd_all ys m) k"
  using assms(1)
proof
  assume "k \<notin> fst ` set xs"
  then have "upd_all xs f k = f k" for f :: "'a \<Rightarrow> 'b option" by (rule upd_all_notin)
  then show ?thesis using assms(2,3) by auto
next
  assume "k \<notin> fst ` set ys"
  then have y: "upd_all ys m k = m k" by (rule upd_all_notin)
  then have "upd_all xs (upd_all ys m) k = upd_all xs m k" by (rule upd_all_pointwise)
  then show ?thesis using assms(2,3) y by auto
qed

definition batch_effect :: "walrusBatch \<Rightarrow> (ds_key \<Rightarrow> bytes option) \<Rightarrow> ds_key \<Rightarrow> bytes option" where
  "batch_effect ops m k = (case ops k of None \<Rightarrow> m k | Some op \<Rightarrow> op)"

context durable_index
begin

lemma Delete_refines:
  assumes ds: "index ds = ix" and st: "stands_for invar view blobs w m" and op: "ds_Delete ds k w = (r, w')"
  shows "outcome (stands_for invar view blobs) r w' m (m(k := None))"
proof -
  have i: "invar (wdb w)" and imp: "implements (view (wdb w)) (blobs (wnet w)) m" using st by (auto simp: stands_for_def)
  have "m |` (- set [k]) = m(k := None)" by (auto simp: restrict_map_def)
  then show ?thesis
    using stands_for_change [OF st op [unfolded ds_Delete_def ds] DeleteMany_law [OF i]] Delete_law
      implements_delete [OF imp, of "[k]"] by simp
qed

lemma upload_one_ok:
  assumes hw: "honest_walrus N (client ds) blobs" and st: "stands_for invar view blobs w m"
    and sz: "len64 v < 2 ^ 63" and up: "on_net (uploadPack N ds [(k, v)]) w = (r, w')"
  shows "stands_for invar view blobs w' m \<and> wdb w' = wdb w
    \<and> (\<forall>recs. r = Inr recs \<longrightarrow> recs_for (blobs (wnet w')) [(k, v)] recs \<and> fst ` set recs = {k})"
proof -
  have "uploaded blobs [(k, v)] (wnet w) r s'" if "uploadPack N ds [(k, v)] (wnet w) = (r, s')" for s'
    using uploadSingleBlock_ok [OF hw, of "(k, v)"] that sz by (simp add: uploadPack_def)
  note u = on_net_mono [OF st up this]
  have "fst ` set recs = {k}" if "r = Inr recs" for recs
    using u that by (auto simp: uploaded_def recs_for_def length_Suc_conv)
  then show ?thesis using u by (auto simp: uploaded_def)
qed

lemma put_one_refines:
  assumes ds: "index ds = ix" and st: "stands_for invar view blobs w m"
    and recs: "recs_for (blobs (wnet w)) [(k, v)] recs" "fst ` set recs = {k}"
    and fresh: "fst (view (wdb w)) k \<in> {None, Some v}"
    and op: "on_db (ix_PutMany (index ds) recs) w = (r, w')"
  shows "outcome (stands_for invar view blobs) r w' m (m(k \<mapsto> v)) \<and> fst (view (wdb w')) = fst (view (wdb w))"
proof -
  have i: "invar (wdb w)" and imp: "implements (view (wdb w)) (blobs (wnet w)) m" using st by (auto simp: stands_for_def)
  obtain d' where d: "ix_PutMany ix recs (wdb w) = (r, d')" "w' = w\<lparr>wdb := d'\<rparr>"
    using op ds by (auto simp: on_db_def split: prod.splits)
  have "fst (view (wdb w')) = fst (view (wdb w))"
    using PutMany_law [OF i d(1)] d(2) by (cases r) (auto simp: all_or_nothing_def put_view_def)
  moreover have "implements (put_view recs (view (wdb w))) (blobs (wnet w)) (m(k \<mapsto> v))"
    using implements_put [OF imp recs(1)] recs(2) fresh by simp
  ultimately show ?thesis
    using stands_for_change [OF st op [unfolded ds] PutMany_law [OF i]] by blast
qed

lemma stage_refines:
  assumes ds: "index ds = ix" and st: "stands_for invar view blobs w m"
    and op: "on_db (ix_StagePutMany (index ds) es) w = (r, w')"
  shows "outcome (stands_for invar view blobs) r w' m (upd_all es m)
    \<and> (\<forall>k. k \<notin> fst ` set es \<longrightarrow> fst (view (wdb w')) k = fst (view (wdb w)) k)"
proof -
  have i: "invar (wdb w)" and imp: "implements (view (wdb w)) (blobs (wnet w)) m" using st by (auto simp: stands_for_def)
  obtain d' where d: "ix_StagePutMany ix es (wdb w) = (r, d')" "w' = w\<lparr>wdb := d'\<rparr>"
    using op ds by (auto simp: on_db_def split: prod.splits)
  have "fst (view (wdb w')) k = fst (view (wdb w)) k" if "k \<notin> fst ` set es" for k
    using StagePutMany_law [OF i d(1)] d(2) upd_all_notin [OF that]
    by (cases r) (auto simp: all_or_nothing_def stage_view_def)
  then show ?thesis
    using stands_for_change [OF st op [unfolded ds] StagePutMany_law [OF i] implements_stage [OF imp]] by blast
qed

lemma Put_refines:
  assumes hw: "honest_walrus N (client ds) blobs" and ds: "index ds = ix" and st: "stands_for invar view blobs w m"
    and sz: "len64 v < 2 ^ 63"
    and fresh: "len64 v \<ge> PackTargetSize (conf ds) \<longrightarrow> fst (view (wdb w)) k \<in> {None, Some v}"
    and op: "ds_Put N ds k v w = (r, w')"
  shows "outcome (stands_for invar view blobs) r w' m (m(k \<mapsto> v))"
proof (cases "len64 v \<ge> PackTargetSize (conf ds)")
  case True
  obtain x w1 where 1: "on_net (uploadPack N ds [(k, v)]) w = (x, w1)" by fastforce
  note u = upload_one_ok [OF hw st sz 1]
  show ?thesis
  proof (cases x)
    case (Inl e)
    then show ?thesis using op 1 True u by (auto simp: ds_Put_def outcome_def)
  next
    case (Inr recs)
    then have "on_db (ix_PutMany (index ds) recs) w1 = (r, w')" using op 1 True by (simp add: ds_Put_def)
    then show ?thesis using put_one_refines [OF ds, of blobs w1 m k v recs r w'] u Inr fresh True by simp
  qed
next
  case False
  obtain x w1 where 1: "on_db (ix_StagePutMany (index ds) [(k, v)]) w = (x, w1)" by fastforce
  show ?thesis
    using stage_refines [OF ds st 1] op 1 False by (cases x) (auto simp: ds_Put_def outcome_def)
qed

lemma commit_one_refines:
  assumes hw: "honest_walrus N (client ds) blobs" and ds: "index ds = ix" and st: "stands_for invar view blobs w m"
    and sz: "len64 v < 2 ^ 63" and fresh: "fst (view (wdb w)) k \<in> {None, Some v}"
    and op: "commit_one N ds (k, v) w = (r, w')"
  shows "fst (view (wdb w')) = fst (view (wdb w))
    \<and> (\<exists>m'. stands_for invar view blobs w' m' \<and> (m' = m \<or> m' = m(k \<mapsto> v)) \<and> (r = Inr [] \<longrightarrow> m' = m(k \<mapsto> v)))"
proof -
  obtain x w1 where 1: "on_net (uploadPack N ds [(k, v)]) w = (x, w1)" by fastforce
  note u = upload_one_ok [OF hw st sz 1]
  show ?thesis
  proof (cases x)
    case (Inl err)
    then have "w' = w1" "r \<noteq> Inr []" using op 1 by (auto simp: commit_one_def split: if_splits)
    then show ?thesis using u by auto
  next
    case (Inr recs)
    obtain z w2 where z: "on_db (ix_PutMany (index ds) recs) w1 = (z, w2)" by fastforce
    have o: "outcome (stands_for invar view blobs) z w2 m (m(k \<mapsto> v))" "fst (view (wdb w2)) = fst (view (wdb w1))"
      using put_one_refines [OF ds, of _ w1 m k v recs z w2] u Inr z fresh by auto
    have "r = Inr (err_list z)" "w' = w2" using op 1 Inr z by (auto simp: commit_one_def)
    then show ?thesis using o u by (cases z) (auto simp: outcome_def err_list_def)
  qed
qed

lemma commit_oversize_refines:
  assumes "honest_walrus N (client ds) blobs" "index ds = ix" "stands_for invar view blobs w m"
    "distinct (map fst es)" "\<forall>(k, v)\<in>set es. len64 v < 2 ^ 63 \<and> fst (view (wdb w)) k \<in> {None, Some v}"
    "commit_oversize N ds es w = (r, w')"
  shows "\<exists>m'. stands_for invar view blobs w' m' \<and> (\<forall>k. m' k \<in> {m k, upd_all es m k})
    \<and> (r = Inr [] \<longrightarrow> m' = upd_all es m)"
  using assms(3-6)
proof (induction es arbitrary: w m r w')
  case (Cons e es)
  obtain k v where e: "e = (k, v)" by fastforce
  obtain x w1 where 1: "commit_one N ds (k, v) w = (x, w1)" by fastforce
  have "len64 v < 2 ^ 63" "fst (view (wdb w)) k \<in> {None, Some v}" using Cons.prems(3) e by auto
  from commit_one_refines [OF assms(1,2) Cons.prems(1) this 1]
  obtain m1 where 2: "stands_for invar view blobs w1 m1" "m1 = m \<or> m1 = m(k \<mapsto> v)" "x = Inr [] \<longrightarrow> m1 = m(k \<mapsto> v)"
    "fst (view (wdb w1)) = fst (view (wdb w))" by blast
  have k: "k \<notin> fst ` set es" and dist: "distinct (map fst es)" using Cons.prems(2) e by auto
  have pt: "m1 k' \<in> {m k', upd_all (e # es) m k'}" "upd_all es m1 k' \<in> {m k', upd_all (e # es) m k'}" for k'
    using 2(2) upd_all_notin [OF k, of m] upd_all_notin [OF k, of "m(k \<mapsto> v)"] e
      upd_all_pointwise [of m k' "m(k \<mapsto> v)" es] by (cases "k' = k"; auto)+
  show ?case
  proof (cases x)
    case (Inl p)
    then show ?thesis using Cons.prems(4) 1 e 2(1) pt(1) by (intro exI [of _ m1]) auto
  next
    case (Inr errs)
    obtain y w2 where y: "commit_oversize N ds es w1 = (y, w2)" by fastforce
    have "\<forall>(k, v)\<in>set es. len64 v < 2 ^ 63 \<and> fst (view (wdb w1)) k \<in> {None, Some v}" using Cons.prems(3) 2(4) by simp
    then obtain m' where m': "stands_for invar view blobs w2 m'" "\<forall>k. m' k \<in> {m1 k, upd_all es m1 k}"
      "y = Inr [] \<longrightarrow> m' = upd_all es m1" using Cons.IH [OF 2(1) dist _ y] by blast
    have r: "w' = w2" "r = Inr [] \<longrightarrow> x = Inr [] \<and> y = Inr []"
      using Cons.prems(4) 1 e Inr y by (auto split: sum.splits)
    have "m' k' \<in> {m k', upd_all (e # es) m k'}" for k'
      using m'(2) pt [of k'] by (metis (no_types, lifting) insert_iff singletonD)
    then show ?thesis using m' r 2(3) e by (intro exI [of _ m']) auto
  qed
qed auto

end

text \<open>The three lists \<open>Commit\<close> builds partition the buffered operations.\<close>

lemma set_batch_lists:
  "set (batch_deletes order) = {k. (k, None) \<in> set order}"
  "set (batch_oversize target order) = {(k, v). (k, Some v) \<in> set order \<and> target \<le> len64 v}"
  "set (batch_stage target order) = {(k, v). (k, Some v) \<in> set order \<and> \<not> target \<le> len64 v}"
proof -
  have "k \<in> set (batch_deletes order) \<longleftrightarrow> (k, None) \<in> set order" for k
    unfolding batch_deletes_def by (force split: option.splits)
  moreover have "e \<in> set (batch_oversize target order) \<longleftrightarrow> (fst e, Some (snd e)) \<in> set order \<and> target \<le> len64 (snd e)" for e
    unfolding batch_oversize_def by (force split: option.splits if_splits)
  moreover have "e \<in> set (batch_stage target order) \<longleftrightarrow> (fst e, Some (snd e)) \<in> set order \<and> \<not> target \<le> len64 (snd e)" for e
    unfolding batch_stage_def by (force split: option.splits if_splits)
  ultimately show
    "set (batch_deletes order) = {k. (k, None) \<in> set order}"
    "set (batch_oversize target order) = {(k, v). (k, Some v) \<in> set order \<and> target \<le> len64 v}"
    "set (batch_stage target order) = {(k, v). (k, Some v) \<in> set order \<and> \<not> target \<le> len64 v}"
    by auto
qed

lemma batch_lists_simps [simp]:
  "batch_oversize t [] = []" "batch_oversize t ((k, None) # os) = batch_oversize t os"
  "batch_oversize t ((k, Some v) # os) = (if t \<le> len64 v then (k, v) # batch_oversize t os else batch_oversize t os)"
  "batch_stage t [] = []" "batch_stage t ((k, None) # os) = batch_stage t os"
  "batch_stage t ((k, Some v) # os) = (if t \<le> len64 v then batch_stage t os else (k, v) # batch_stage t os)"
  by (simp_all add: batch_oversize_def batch_stage_def)

lemma batch_lists_keys:
  "k \<notin> fst ` set order \<Longrightarrow> k \<notin> fst ` set (batch_oversize t order) \<and> k \<notin> fst ` set (batch_stage t order)"
  by (force simp: set_batch_lists)

lemma distinct_batch_lists:
  "distinct (map fst order) \<Longrightarrow>
     distinct (map fst (batch_oversize t order)) \<and> distinct (map fst (batch_stage t order))"
proof (induction order)
  case (Cons o' os)
  then show ?case
    using batch_lists_keys [of "fst o'" os t] by (cases o'; cases "snd o'") simp_all
qed simp

lemma batch_lists_effect:
  assumes "iteration_order ops order"
  shows "upd_all (batch_oversize t order) (upd_all (batch_stage t order) m) |` (- set (batch_deletes order)) = batch_effect ops m"
    (is "?l = _")
proof
  fix k
  have d: "distinct (map fst order)" and o: "map_of order = ops" using assms by (auto simp: iteration_order_def)
  note dl = conjunct1 [OF distinct_batch_lists [OF d, of t]] conjunct2 [OF distinct_batch_lists [OF d, of t]]
  have uniq: "(k, x) \<in> set order \<longleftrightarrow> ops k = Some x" for x using d o by auto
  show "?l k = batch_effect ops m k"
  proof (cases "ops k")
    case None
    then have "k \<notin> fst ` set (batch_oversize t order)" "k \<notin> fst ` set (batch_stage t order)" "k \<notin> set (batch_deletes order)"
      using uniq by (auto simp: set_batch_lists)
    then show ?thesis using None by (simp add: upd_all_notin batch_effect_def)
  next
    case (Some op)
    show ?thesis
    proof (cases op)
      case None
      then show ?thesis using Some uniq by (simp add: batch_effect_def set_batch_lists)
    next
      case (Some v)
      then have kd: "k \<notin> set (batch_deletes order)" using \<open>ops k = Some op\<close> uniq by (simp add: set_batch_lists)
      show ?thesis
      proof (cases "t \<le> len64 v")
        case True
        then have "(k, v) \<in> set (batch_oversize t order)" using \<open>ops k = Some op\<close> Some uniq by (simp add: set_batch_lists)
        then show ?thesis using upd_all_in [OF dl(1)] kd \<open>ops k = Some op\<close> Some by (simp add: batch_effect_def)
      next
        case False
        then have "(k, v) \<in> set (batch_stage t order)" "k \<notin> fst ` set (batch_oversize t order)"
          using \<open>ops k = Some op\<close> Some uniq by (auto simp: set_batch_lists)
        then show ?thesis using upd_all_in [OF dl(2)] kd \<open>ops k = Some op\<close> Some
          by (simp add: batch_effect_def upd_all_notin)
      qed
    qed
  qed
qed

text \<open>Whatever part of the staging and of the oversize uploads took effect, a key has its old value or that of the batch.\<close>

lemma batch_partial_effect:
  assumes io: "iteration_order ops order" and m1: "m1 = m \<or> m1 = upd_all (batch_stage t order) m"
    and m2: "\<forall>k. m2 k \<in> {m1 k, upd_all (batch_oversize t order) m1 k}"
  shows "m2 k \<in> {m k, batch_effect ops m k}"
proof -
  let ?st = "batch_stage t order" and ?ov = "batch_oversize t order"
  have d: "distinct (map fst order)" using io by (simp add: iteration_order_def)
  have two: "m2 k = m k \<or> m2 k = upd_all ?ov (upd_all ?st m) k"
  proof (rule upd_all_disjoint [OF _ m1])
    show "k \<notin> fst ` set ?ov \<or> k \<notin> fst ` set ?st"
      by (auto simp: set_batch_lists dest: eq_key_imp_eq_value [OF d])
    show "m2 k = m1 k \<or> m2 k = upd_all ?ov m1 k" using m2 by simp
  qed
  show ?thesis
  proof (cases "k \<in> set (batch_deletes order)")
    case True
    then have "k \<notin> fst ` set ?ov" "k \<notin> fst ` set ?st"
      by (auto simp: set_batch_lists dest: eq_key_imp_eq_value [OF d])
    then show ?thesis using two by (simp add: upd_all_notin)
  next
    case False
    then have "batch_effect ops m k = upd_all ?ov (upd_all ?st m) k"
      using batch_lists_effect [OF io, of t m] by (metis Compl_iff restrict_in)
    then show ?thesis using two by simp
  qed
qed

lemma batch_Commit_result:
  assumes op: "batch_Commit N ds order w = (r, w')"
    and 1: "on_db (ix_StagePutMany (index ds) (batch_stage (PackTargetSize (conf ds)) order)) w = (r1, w1)"
    and 2: "commit_oversize N ds (batch_oversize (PackTargetSize (conf ds)) order) w1 = (Inr errs2, w2)"
    and 3: "(if batch_deletes order \<noteq> [] then on_db (ix_DeleteMany (index ds) (batch_deletes order)) w2 else (Inr (), w2)) = (r3, w3)"
  shows "(w' = w3 \<or> w' = kickFlusher w3) \<and> (is_ok r \<longrightarrow> is_ok r1 \<and> errs2 = [] \<and> is_ok r3)"
proof -
  let ?errs = "err_list r1 @ errs2 @ err_list r3"
  have "(r, w') = (if ?errs \<noteq> [] then (Inl (Joinf ''walrusds: failed batch operation:'' ?errs), w3)
      else (Inr (), if batch_stage (PackTargetSize (conf ds)) order \<noteq> [] then kickFlusher w3 else w3))"
    using op by (simp only: batch_Commit_def Let_def 1 2 3 prod.case sum.case)
  then show ?thesis by (auto simp: err_list_def split: if_splits sum.splits)
qed

context durable_index
begin

lemma Commit_refines:
  assumes hw: "honest_walrus N (client ds) blobs" and ds: "index ds = ix" and st: "stands_for invar view blobs w m"
    and io: "iteration_order ops order"
    and fresh: "\<forall>k v. ops k = Some (Some v) \<longrightarrow> PackTargetSize (conf ds) \<le> len64 v
      \<longrightarrow> len64 v < 2 ^ 63 \<and> fst (view (wdb w)) k \<in> {None, Some v}"
    and op: "batch_Commit N ds order w = (r, w')"
  shows "\<exists>m'. stands_for invar view blobs w' m' \<and> (\<forall>k. m' k \<in> {m k, batch_effect ops m k})
    \<and> (is_ok r \<longrightarrow> m' = batch_effect ops m)"
proof -
  have d: "distinct (map fst order)" and o: "map_of order = ops" using io by (auto simp: iteration_order_def)
  let ?t = "PackTargetSize (conf ds)"
  let ?st = "batch_stage ?t order" and ?ov = "batch_oversize ?t order" and ?del = "batch_deletes order"
  obtain r1 w1 where 1: "on_db (ix_StagePutMany (index ds) ?st) w = (r1, w1)" by fastforce
  note s1 = stage_refines [OF ds st 1]
  then obtain m1 where m1: "stands_for invar view blobs w1 m1" "m1 = m \<or> m1 = upd_all ?st m"
    "is_ok r1 \<longrightarrow> m1 = upd_all ?st m" by (auto simp: outcome_def split: if_splits)
  have fr: "\<forall>(k, v)\<in>set ?ov. len64 v < 2 ^ 63 \<and> fst (view (wdb w1)) k \<in> {None, Some v}"
  proof clarify
    fix k v assume kv: "(k, v) \<in> set ?ov"
    then have "ops k = Some (Some v)" "?t \<le> len64 v" using d o by (auto simp: set_batch_lists)
    moreover from this have "k \<notin> fst ` set ?st" using d o by (auto simp: set_batch_lists)
    ultimately show "len64 v < 2 ^ 63 \<and> fst (view (wdb w1)) k \<in> {None, Some v}" using fresh s1 by simp
  qed
  obtain r2 w2 where 2: "commit_oversize N ds ?ov w1 = (r2, w2)" by fastforce
  from commit_oversize_refines [OF hw ds m1(1) conjunct1 [OF distinct_batch_lists [OF d]] fr 2]
  obtain m2 where m2: "stands_for invar view blobs w2 m2" "\<forall>k. m2 k \<in> {m1 k, upd_all ?ov m1 k}"
    "r2 = Inr [] \<longrightarrow> m2 = upd_all ?ov m1" by blast
  note mid = batch_partial_effect [OF io m1(2) m2(2)]
  have del: "batch_effect ops m k = None" if "k \<in> set ?del" for k
    using batch_lists_effect [OF io, of ?t m] that by (metis ComplD restrict_out)
  obtain r3 w3 where 3: "(if ?del \<noteq> [] then on_db (ix_DeleteMany (index ds) ?del) w2 else (Inr (), w2)) = (r3, w3)"
    by fastforce
  have o3: "outcome (stands_for invar view blobs) r3 w3 m2 (m2 |` (- set ?del))"
  proof (cases "?del = []")
    case True
    then show ?thesis using 3 m2(1) by (auto simp: outcome_def restrict_map_def)
  next
    case False
    have i: "invar (wdb w2)" and imp: "implements (view (wdb w2)) (blobs (wnet w2)) m2" using m2(1) by (auto simp: stands_for_def)
    show ?thesis
      using stands_for_change [OF m2(1) _ DeleteMany_law [OF i] implements_delete [OF imp]] 3 False ds by auto
  qed
  show ?thesis
  proof (cases r2)
    case (Inl p)
    then have "r = Inl p" "w' = w2" using op 1 2 by (auto simp: batch_Commit_def)
    then show ?thesis using m2(1) mid by auto
  next
    case (Inr errs2)
    note res = batch_Commit_result [OF op 1 2 [unfolded Inr] 3]
    then have st3: "stands_for invar view blobs w3 x = stands_for invar view blobs w' x" for x by auto
    obtain m3 where m3: "stands_for invar view blobs w' m3" "m3 = m2 \<or> m3 = m2 |` (- set ?del)"
      "is_ok r3 \<longrightarrow> m3 = m2 |` (- set ?del)" using o3 st3 by (auto simp: outcome_def split: if_splits)
    have "m3 k \<in> {m k, batch_effect ops m k}" for k
      using m3(2) mid [of k] del [of k] by (auto simp: restrict_map_def)
    moreover have "m3 = batch_effect ops m" if "is_ok r"
      using that res m1(3) m2(3) m3(3) Inr batch_lists_effect [OF io, of ?t m] by simp
    ultimately show ?thesis using m3(1) by blast
  qed
qed

end

text \<open>
  With a database that answers, a small \<open>Put\<close> succeeds and is visible at once to every read, and a
  \<open>Delete\<close> succeeds and hides the key at once; no request leaves the node.
\<close>

context durable_index
begin

lemma all_or_nothing_ok: "all_or_nothing f (Inr a) v v' \<longleftrightarrow> v' = f v"
  by (simp add: all_or_nothing_def)

lemma healthy_Put:
  assumes ds: "index ds = ix" and i: "invar (wdb w)" and h: "healthy (wdb w)" and sz: "len64 v < PackTargetSize (conf ds)"
  shows "\<exists>d. ds_Put N ds k v w = (Inr (), w\<lparr>wdb := d, flushKick := True\<rparr>) \<and> invar d \<and> healthy d
    \<and> view d = stage_view [(k, v)] (view (wdb w))"
proof -
  obtain r d where p: "ix_StagePutMany ix [(k, v)] (wdb w) = (r, d)" by fastforce
  have "r = Inr ()" "healthy d" using healthy_StagePutMany [OF i h, of "[(k, v)]"] p by simp_all
  then show ?thesis
    using StagePutMany_law [OF i p] p sz ds by (intro exI [of _ d]) (simp add: ds_Put_def on_db_def kickFlusher_def all_or_nothing_ok)
qed

lemma healthy_Delete:
  assumes ds: "index ds = ix" and i: "invar (wdb w)" and h: "healthy (wdb w)"
  shows "\<exists>d. ds_Delete ds k w = (Inr (), w\<lparr>wdb := d\<rparr>) \<and> invar d \<and> healthy d
    \<and> view d = delete_view [k] (view (wdb w))"
proof -
  obtain r d where p: "ix_DeleteMany ix [k] (wdb w) = (r, d)" by fastforce
  have "r = Inr ()" "healthy d" using healthy_DeleteMany [OF i h, of "[k]"] p by simp_all
  then show ?thesis
    using DeleteMany_law [OF i p] p ds by (intro exI [of _ d]) (simp add: ds_Delete_def on_db_def Delete_law all_or_nothing_ok)
qed

lemma healthy_staged_reads:
  assumes ds: "index ds = ix" and i: "invar (wdb w)" and h: "healthy (wdb w)" and st: "fst (view (wdb w)) k = Some v"
  shows "fst (ds_Get N ds k w) = Inr v \<and> fst (ds_Has ds k w) = Inr True \<and> fst (ds_GetSize ds k w) = Inr (len64 v)"
proof -
  obtain d where g: "ix_StageGet ix k (wdb w) = (Inr v, d)"
    using healthy_StageGet [OF i h, of k] st by (auto simp: probe_value_def prod_eq_iff)
  obtain d' where z: "ix_StageGetSize ix k (wdb w) = (Inr (len64 v), d')"
    using healthy_StageGetSize [OF i h, of k] st by (auto simp: probe_value_def prod_eq_iff)
  show ?thesis using g z ds by (simp add: ds_Get_def ds_Has_def ds_GetSize_def on_db_def)
qed

lemma healthy_absent_reads:
  assumes ds: "index ds = ix" and i: "invar (wdb w)" and h: "healthy (wdb w)"
    and ab: "fst (view (wdb w)) k = None" "snd (view (wdb w)) k = None"
  shows "fst (ds_Get N ds k w) = Inl ErrNotFound \<and> fst (ds_Has ds k w) = Inr False
    \<and> fst (ds_GetSize ds k w) = Inl ErrNotFound"
proof -
  obtain d where g: "ix_StageGet ix k (wdb w) = (Inl ErrNotFound, d)"
    using healthy_StageGet [OF i h, of k] ab by (auto simp: probe_value_def prod_eq_iff)
  obtain d' where z: "ix_StageGetSize ix k (wdb w) = (Inl ErrNotFound, d')"
    using healthy_StageGetSize [OF i h, of k] ab by (auto simp: probe_value_def prod_eq_iff)
  have "healthy d" "healthy d'" using healthy_StageGet [OF i h, of k] healthy_StageGetSize [OF i h, of k] g z by simp_all
  moreover have "invar d" "view d = view (wdb w)" "invar d'" "view d' = view (wdb w)"
    using StageGet_law [OF i g] StageGetSize_law [OF i z] by simp_all
  ultimately obtain e e' where "ix_Get ix k d = (Inl ErrNotFound, e)" "ix_Get ix k d' = (Inl ErrNotFound, e')"
    using healthy_Get [of d k] healthy_Get [of d' k] ab by (auto simp: probe_value_def prod_eq_iff)
  then show ?thesis using g z ds by (simp add: ds_Get_def ds_Has_def ds_GetSize_def on_db_def)
qed

text \<open>Draining a query reads every listed key through \<open>Get\<close>.\<close>

lemma query_results_refine:
  assumes "honest_walrus N (client ds) blobs" "index ds = ix" "stands_for invar view blobs w m"
    "\<forall>it\<in>set its. NewKey (fst it) = fst it" "query_results N ds NewKey keysOnly its w = (rs, w')"
  shows "stands_for invar view blobs w' m \<and> (keysOnly \<longrightarrow> (\<forall>r\<in>set rs. is_ok r))
    \<and> list_all2 (\<lambda>it r. \<forall>e. r = Inr e \<longrightarrow> eKey e = fst it \<and>
         (if keysOnly then eValue e = None \<and> eSize e = snd it
          else eValue e = m (fst it) \<and> (\<exists>v. m (fst it) = Some v \<and> eSize e = len64 v))) its rs"
  using assms(3-5)
proof (induction its arbitrary: w rs)
  case (Cons it its)
  show ?case
  proof (cases keysOnly)
    case True
    obtain rest w2 where q: "query_results N ds NewKey keysOnly its w = (rest, w2)" by fastforce
    then have rs: "rs = Inr \<lparr>eKey = fst it, eValue = None, eSize = snd it\<rparr> # rest" "w' = w2"
      using Cons.prems(3) True by simp_all
    show ?thesis using Cons.IH [OF Cons.prems(1)] Cons.prems(2) q True rs by simp
  next
    case False
    obtain g w1 where g: "ds_Get N ds (fst it) w = (g, w1)" by fastforce
    note gr = Get_refines [OF assms(1,2) Cons.prems(1) g]
    obtain rest w2 where q: "query_results N ds NewKey keysOnly its w1 = (rest, w2)" by fastforce
    have rs: "rs = (case g of Inl e \<Rightarrow> Inl e
        | Inr v \<Rightarrow> Inr \<lparr>eKey = fst it, eValue = Some v, eSize = len64 v\<rparr>) # rest" "w' = w2"
      using Cons.prems(2,3) False g q by (auto split: sum.splits)
    have st1: "stands_for invar view blobs w1 m" using gr by simp
    show ?thesis
      using Cons.IH [OF st1] Cons.prems(2) q False rs gr by (auto split: sum.splits)
  qed
qed simp

end

lemma implements_known: "implements vw blobs m \<Longrightarrow> m k \<noteq> None \<longleftrightarrow> fst vw k \<noteq> None \<or> snd vw k \<noteq> None"
  unfolding implements_def
  by (drule spec [of _ k], cases "fst vw k"; cases "snd vw k") auto

context durable_index
begin

lemma healthy_Put_oversize:
  assumes ds: "index ds = ix" and i: "invar (wdb w)" and h: "healthy (wdb w)" and sz: "PackTargetSize (conf ds) \<le> len64 v"
    and up: "uploadPack N ds [(k, v)] (wnet w) = (Inr recs, s)" and di: "distinct (map fst recs)"
  shows "\<exists>d. ds_Put N ds k v w = (Inr (), w\<lparr>wnet := s, wdb := d\<rparr>) \<and> invar d \<and> healthy d
    \<and> view d = put_view recs (view (wdb w))"
proof -
  obtain r d where p: "ix_PutMany ix recs (wdb w) = (r, d)" by fastforce
  have "r = Inr ()" "healthy d" using healthy_PutMany [OF i h di] p by simp_all
  then show ?thesis
    using PutMany_law [OF i p] p sz ds up
    by (intro exI [of _ d]) (simp add: ds_Put_def on_net_def on_db_def all_or_nothing_ok)
qed

lemma healthy_indexed_Get:
  assumes ds: "index ds = ix" and i: "invar (wdb w)" and h: "healthy (wdb w)"
    and at: "fst (view (wdb w)) k = None" "snd (view (wdb w)) k = Some rec"
    and rd: "fst (read_record N (client ds) rec (wcache w, wnet w)) = Inr v"
  shows "fst (ds_Get N ds k w) = Inr v"
proof -
  obtain d where g: "ix_StageGet ix k (wdb w) = (Inl ErrNotFound, d)"
    using healthy_StageGet [OF i h, of k] at by (auto simp: probe_value_def prod_eq_iff)
  have "healthy d" using healthy_StageGet [OF i h, of k] g by simp
  moreover have "invar d" "view d = view (wdb w)" using StageGet_law [OF i g] by simp_all
  ultimately obtain e where "ix_Get ix k d = (Inr rec, e)"
    using healthy_Get [of d k] at by (auto simp: probe_value_def prod_eq_iff)
  then show ?thesis
    using g ds rd by (auto simp: ds_Get_def on_db_def on_cache_def split: prod.splits)
qed

lemma healthy_Commit:
  assumes ds: "index ds = ix" and i: "invar (wdb w)" and h: "healthy (wdb w)" and dk: "distinct (map fst order)"
    and small: "batch_oversize (PackTargetSize (conf ds)) order = []"
  shows "is_ok (fst (batch_Commit N ds order w))"
proof -
  let ?st = "batch_stage (PackTargetSize (conf ds)) order" and ?del = "batch_deletes order"
  obtain r1 d1 where p: "ix_StagePutMany ix ?st (wdb w) = (r1, d1)" by fastforce
  have 1: "r1 = Inr ()" "healthy d1"
    using healthy_StagePutMany [OF i h conjunct2 [OF distinct_batch_lists [OF dk]], of "PackTargetSize (conf ds)"] p by simp_all
  have "invar d1" using StagePutMany_law [OF i p] by simp
  then have "fst (ix_DeleteMany ix ?del d1) = Inr ()" using healthy_DeleteMany 1(2) by blast
  then obtain d2 where "ix_DeleteMany ix ?del d1 = (Inr (), d2)" by (metis prod.collapse)
  then show ?thesis using p 1(1) small ds by (cases "?del = []") (simp_all add: batch_Commit_def on_db_def err_list_def Let_def)
qed

end

subsection \<open>A small store\<close>

definition sample_conf :: Config where
  "sample_conf = \<lparr>PublisherURLs = [''http://p''], AggregatorURLs = [''http://a''], PostgresURL = ''pg'',
     Table = [], Epochs = 1, NShards = 1000, Deletable = False, Workers = 2, MaxOpenConns = 4,
     PackTargetSize = 5, DisableQuilt = False, PackMaxAge = 100, PackIdleFlush = 10, PackFlushInterval = 5,
     BlobCacheBytes = 100, RequestTimeout = 60 * Second, MaxRetries = 3, EpochDuration = 0,
     RenewInterval = 0, RenewLead = 0\<rparr>"

definition sample_ds :: "db WalrusDatastore" where
  "sample_ds = \<lparr>conf = sample_conf, client = sample_client 3, index = postgres_ops sample_pg\<rparr>"

definition sample_world :: "(db, string list) world" where
  "sample_world = \<lparr>wdb = \<lparr>tbl = [], stg = [(''/a'', stage_row 10 ''xyz'')], db_now = 100, faults = []\<rparr>,
     wcache = newBlobCache 100, wnet = [], flushKick = False\<rparr>"

definition sample_map :: "ds_key \<Rightarrow> bytes option" where
  "sample_map = [''/a'' \<mapsto> ''xyz'']"

lemma sample_sel [simp]:
  "index sample_ds = postgres_ops sample_pg" "client sample_ds = sample_client 3" "conf sample_ds = sample_conf"
  "PackTargetSize sample_conf = 5" "DisableQuilt sample_conf = False" "Workers sample_conf = 2"
  "Epochs sample_conf = 1" "Deletable sample_conf = False" "NShards sample_conf = 1000" "EpochDuration sample_conf = 0"
  by (simp_all add: sample_ds_def sample_conf_def)

lemma sample_honest: "honest_walrus sim_net (client sample_ds) sim_blobs"
  using sim_immutable sim_honest_publisher sim_honest_aggregator by (simp add: honest_walrus_def sample_client_def)

lemma cache_contents_new [simp]: "cache_contents (newBlobCache n) = Map.empty"
  by (simp add: cache_contents_def newBlobCache_def lru_def Let_def)

lemma sample_stands: "stands_for db_inv db_view sim_blobs sample_world sample_map"
  using newBlobCache_ok [of 100]
  by (auto simp: stands_for_def sample_world_def sample_map_def db_inv_def keys_of_def stage_row_def
      implements_def db_view_def)

lemma sample_healthy: "db_inv (wdb sample_world)" "db_healthy (wdb sample_world)"
  using sample_stands by (simp_all add: stands_for_def db_healthy_def sample_world_def)

lemma sim_Store: "Client_Store sim_net (sample_client 3) ''hello'' 1 False [] =
  (Inr \<lparr>srBlobID = ''B1'', srObjectID = ''0x1'', srEndEpoch = 9, srEncodedSize = 0, srCost = 7\<rparr>, [''B1''])"
  by code_simp

definition hello_rec :: IndexRecord where
  "hello_rec = \<lparr>rBlobID = ''B1'', rObjectID = ''0x1'', rPatchID = [], rOffset = 0, rSize = 5,
     rEncodedSize = EncodedBlobLength 5 1000, rCost = 7, rDeletable = False, rEndEpoch = 9, rExpiresAt = None\<rparr>"

lemma sample_upload: "uploadPack sim_net sample_ds [(k, ''hello'')] [] = (Inr [(k, hello_rec)], [''B1''])"
  by (simp add: uploadPack_def uploadSingleBlock_def sim_Store expiry_def encodedSize_def hello_rec_def)

lemma sample_read: "fst (read_record sim_net (sample_client 3) hello_rec (newBlobCache 100, [''B1''])) = Inr ''hello''"
proof -
  have "fst (ReadRange sim_net (sample_client 3) ''B1'' 0 5 (newBlobCache 100, [''B1''])) = Inr ''hello''" by code_simp
  then show ?thesis by (simp add: read_record_def hello_rec_def)
qed

lemma sample_Put: "\<exists>d. ds_Put sim_net sample_ds ''/b'' ''hello'' sample_world = (Inr (), sample_world\<lparr>wnet := [''B1''], wdb := d\<rparr>)
    \<and> db_inv d \<and> db_healthy d \<and> fst (db_view d) ''/b'' = None \<and> snd (db_view d) ''/b'' = Some hello_rec"
proof -
  have net: "wnet sample_world = []" by (simp add: sample_world_def)
  have "fst (db_view (wdb sample_world)) ''/b'' = None" by (simp add: db_view_def sample_world_def)
  moreover have "uploadPack sim_net sample_ds [(''/b'', ''hello'')] (wnet sample_world) = (Inr [(''/b'', hello_rec)], [''B1''])"
    using sample_upload net by simp
  ultimately show ?thesis
    using pgidx.healthy_Put_oversize [of sample_ds sample_pg sample_world "''hello''", OF _ sample_healthy]
    by (fastforce simp: put_view_def)
qed

subsection \<open>Properties\<close>

text \<open>
  C3. \<open>Put\<close> refines the update of a map, whatever the database and the network do: when it returns without
  error the store stands for \<open>m(k \<mapsto> v)\<close>, and when it fails the store stands for \<open>m\<close> or for
  \<open>m(k \<mapsto> v)\<close>, nothing in between. A value that is too large to be staged must not be shadowed by other
  bytes staged under its key.
\<close>

theorem Put_durable:
  assumes "honest_walrus N (client ds) blobs" and "index ds = postgres_ops p"
    and "stands_for db_inv db_view blobs w m" and "len64 v < 2 ^ 63"
    and "len64 v \<ge> PackTargetSize (conf ds) \<longrightarrow> fst (db_view (wdb w)) k \<in> {None, Some v}"
    and "ds_Put N ds k v w = (r, w')"
  shows "outcome (stands_for db_inv db_view blobs) r w' m (m(k \<mapsto> v))"
  by (rule pgidx.Put_refines [OF assms])

theorem Put_durable_witness:
  "\<exists>w'. ds_Put sim_net sample_ds ''/b'' ''hello'' sample_world = (Inr (), w')
     \<and> snd (db_view (wdb w')) ''/b'' \<noteq> None
     \<and> stands_for db_inv db_view sim_blobs w' (sample_map(''/b'' \<mapsto> ''hello''))"
proof -
  obtain d where p: "ds_Put sim_net sample_ds ''/b'' ''hello'' sample_world = (Inr (), sample_world\<lparr>wnet := [''B1''], wdb := d\<rparr>)"
    "snd (db_view d) ''/b'' = Some hello_rec" using sample_Put by blast
  have "fst (db_view (wdb sample_world)) ''/b'' = None" by (simp add: db_view_def sample_world_def)
  then show ?thesis using Put_durable [OF sample_honest _ sample_stands _ _ p(1)] p by (simp add: outcome_def)
qed



text \<open>
  \<open>Has\<close> and \<open>GetSize\<close>, which never leave Postgres, agree with the map: \<open>Has\<close> answers whether the key is
  there, \<open>GetSize\<close> the length of its bytes or \<open>ErrNotFound\<close> when it is not there.
\<close>

theorem Has_GetSize_correct:
  assumes "index ds = postgres_ops p" and "stands_for db_inv db_view blobs w m"
    and "ds_Has ds k w = (h, wh)" and "ds_GetSize ds k w = (z, wz)"
  shows "stands_for db_inv db_view blobs wh m \<and> stands_for db_inv db_view blobs wz m
    \<and> (\<forall>b. h = Inr b \<longrightarrow> b = (m k \<noteq> None))
    \<and> (\<forall>n. z = Inr n \<longrightarrow> (\<exists>v. m k = Some v \<and> n = len64 v)) \<and> (z = Inl ErrNotFound \<longrightarrow> m k = None)"
  by (rule pgidx.Has_GetSize_refine [OF assms])

theorem Has_GetSize_correct_witness:
  "fst (ds_Has sample_ds ''/a'' sample_world) = Inr True \<and> fst (ds_GetSize sample_ds ''/a'' sample_world) = Inr 3
   \<and> stands_for db_inv db_view sim_blobs (snd (ds_Has sample_ds ''/a'' sample_world)) sample_map"
proof -
  have "fst (db_view (wdb sample_world)) ''/a'' = Some ''xyz''" by (simp add: db_view_def sample_world_def stage_row_def)
  then have "fst (ds_Has sample_ds ''/a'' sample_world) = Inr True" "fst (ds_GetSize sample_ds ''/a'' sample_world) = Inr 3"
    using pgidx.healthy_staged_reads [OF sample_sel(1) sample_healthy] by fastforce+
  then show ?thesis
    using Has_GetSize_correct [OF sample_sel(1) sample_stands prod.collapse [symmetric] prod.collapse [symmetric]]
    by simp
qed

text \<open>
  \<open>Delete\<close> refines the removal of a key from the map: it removes the key from the index and from the staging
  buffer together, or fails having done all of it or nothing.
\<close>

theorem Delete_correct:
  assumes "index ds = postgres_ops p" and "stands_for db_inv db_view blobs w m" and "ds_Delete ds k w = (r, w')"
  shows "outcome (stands_for db_inv db_view blobs) r w' m (m(k := None))"
  by (rule pgidx.Delete_refines [OF assms])

theorem Delete_correct_witness:
  "\<exists>w'. ds_Delete sample_ds ''/a'' sample_world = (Inr (), w') \<and> stands_for db_inv db_view sim_blobs w' Map.empty"
proof -
  obtain w' where d: "ds_Delete sample_ds ''/a'' sample_world = (Inr (), w')"
    using pgidx.healthy_Delete [OF sample_sel(1) sample_healthy] by blast
  then show ?thesis
    using Delete_correct [OF sample_sel(1) sample_stands d] by (simp add: outcome_def sample_map_def)
qed



text \<open>The calls a client buffers in a fresh batch.\<close>

fun batch_of :: "(ds_key \<times> batchOp) list \<Rightarrow> walrusBatch \<Rightarrow> walrusBatch" where
  "batch_of [] b = b"
| "batch_of ((k, Some v) # calls) b = batch_of calls (batch_Put k v b)"
| "batch_of ((k, None) # calls) b = batch_of calls (batch_Delete k b)"

lemma batch_of_effect: "batch_effect (batch_of calls b) m = fold (\<lambda>(k, op) m. m(k := op)) calls (batch_effect b m)"
proof (induction calls b rule: batch_of.induct)
  case (2 k v calls b)
  have "batch_effect (batch_Put k v b) m = (batch_effect b m)(k := Some v)" by (auto simp: batch_effect_def batch_Put_def)
  then show ?case using 2 by simp
next
  case (3 k calls b)
  have "batch_effect (batch_Delete k b) m = (batch_effect b m)(k := None)" by (auto simp: batch_effect_def batch_Delete_def)
  then show ?case using 3 by simp
qed simp


text \<open>
  C8. \<open>Commit\<close> of a batch, whatever the iteration order of its map: on success every buffered put and delete has
  taken effect; on failure (of any statement or upload, a panic included) every key has either its old or its
  new value. A batch of blocks below the pack size never fails on a database that answers.
\<close>

theorem Commit_correct:
  assumes "honest_walrus N (client ds) blobs" and "index ds = postgres_ops p"
    and "stands_for db_inv db_view blobs w m" and "iteration_order ops order"
    and "\<forall>k v. ops k = Some (Some v) \<longrightarrow> PackTargetSize (conf ds) \<le> len64 v
      \<longrightarrow> len64 v < 2 ^ 63 \<and> fst (db_view (wdb w)) k \<in> {None, Some v}"
    and "batch_Commit N ds order w = (r, w')"
  shows "(\<exists>m'. stands_for db_inv db_view blobs w' m' \<and> (\<forall>k. m' k \<in> {m k, batch_effect ops m k})
      \<and> (is_ok r \<longrightarrow> m' = batch_effect ops m))
    \<and> (db_healthy (wdb w) \<and> batch_oversize (PackTargetSize (conf ds)) order = [] \<longrightarrow> is_ok r)"
proof
  show "\<exists>m'. stands_for db_inv db_view blobs w' m' \<and> (\<forall>k. m' k \<in> {m k, batch_effect ops m k})
      \<and> (is_ok r \<longrightarrow> m' = batch_effect ops m)"
    by (rule pgidx.Commit_refines [OF assms])
  have "db_inv (wdb w)" "distinct (map fst order)" using assms(3,4) by (auto simp: stands_for_def iteration_order_def)
  then show "db_healthy (wdb w) \<and> batch_oversize (PackTargetSize (conf ds)) order = [] \<longrightarrow> is_ok r"
    using pgidx.healthy_Commit [OF assms(2), of w order N] assms(6) by simp
qed

theorem Commit_correct_witness:
  "\<exists>w'. stands_for db_inv db_view sim_blobs w' [''/b'' \<mapsto> ''new'']
     \<and> batch_Commit sim_net sample_ds [(''/b'', Some ''new''), (''/a'', None)] sample_world = (Inr (), w')"
proof -
  let ?order = "[(''/b'', Some ''new''), (''/a'', None)]" and ?ops = "batch_Delete ''/a'' (batch_Put ''/b'' ''new'' Map.empty)"
  obtain r w' where c: "batch_Commit sim_net sample_ds ?order sample_world = (r, w')" by fastforce
  have io: "iteration_order ?ops ?order" by (auto simp: iteration_order_def batch_Delete_def batch_Put_def)
  have small: "\<forall>k v. ?ops k = Some (Some v) \<longrightarrow> PackTargetSize (conf sample_ds) \<le> len64 v
      \<longrightarrow> len64 v < 2 ^ 63 \<and> fst (db_view (wdb sample_world)) k \<in> {None, Some v}"
    by (auto simp: batch_Delete_def batch_Put_def)
  have "batch_effect ?ops sample_map = [''/b'' \<mapsto> ''new'']"
    by (auto simp: batch_effect_def batch_Delete_def batch_Put_def sample_map_def)
  then show ?thesis
    using Commit_correct [OF sample_honest sample_sel(1) sample_stands io small c] sample_healthy c
    by (cases r) auto
qed

lemma concat_rows_keys [simp]: "map fst (concat_rows es off) = map fst es"
  by (induction es arbitrary: off) auto

lemma single_concat_keys:
  assumes "uploadPack N ds pack s = (Inr recs, s')" "DisableQuilt (conf ds) \<or> length pack \<le> 1"
  shows "map fst recs = map fst pack"
proof -
  consider "pack = []" | e where "pack = [e]" | e f es where "pack = e # f # es" by (cases pack; cases "tl pack") auto
  then show ?thesis
  proof cases
    case 3
    then have "uploadConcatPack N ds pack s = (Inr recs, s')" using assms by (simp add: uploadPack_def)
    then have "\<exists>rec. recs = map (\<lambda>(k, off, sz). (k, rec off sz)) (concat_rows pack 0)"
      by (auto simp: uploadConcatPack_def Let_def split: sum.splits prod.splits)
    then have "map fst recs = map fst (concat_rows pack 0)" by (auto simp: case_prod_unfold comp_def)
    then show ?thesis by simp
  qed (use assms in \<open>auto simp: uploadPack_def uploadSingleBlock_def split: sum.splits prod.splits\<close>)
qed

text \<open>
  C7. Every row an upload returns reads back as its block: for a single block, a quilt or a concatenated pack, a
  successful \<open>uploadPack\<close> returns one row per member, and reading the object a row points at yields, whenever the
  read succeeds, exactly the bytes of the member with the row's key; the read never reports the blob missing.
  Without quilts the rows carry the members' keys in order.
\<close>

theorem uploadPack_locates:
  assumes "honest_walrus N (client ds) blobs" and "\<forall>v\<in>snd ` set pack. boundary_free N v"
    and "len64 (concat (map snd pack)) < 2 ^ 63" and "uploadPack N ds pack s = (Inr recs, s')"
    and "(k, rec) \<in> set recs" and "cache_ok cc" and "cache_contents cc \<subseteq>\<^sub>m blobs s'"
  shows "length recs = length pack \<and> (DisableQuilt (conf ds) \<or> length pack \<le> 1 \<longrightarrow> map fst recs = map fst pack)
    \<and> (\<exists>v. (k, v) \<in> set pack \<and> rSize rec = len64 v
        \<and> fst (read_record N (client ds) rec (cc, s')) \<noteq> Inl ErrBlobNotFound
        \<and> (\<forall>d. fst (read_record N (client ds) rec (cc, s')) = Inr d \<longrightarrow> d = v))"
proof -
  have u: "recs_for (blobs s') pack recs" "length recs = length pack"
    using uploadPack_ok [OF assms(1-4)] by (auto simp: uploaded_def)
  then obtain v where v: "(k, v) \<in> set pack" "rec_ok (blobs s') rec v" using assms(5) by (fastforce simp: recs_for_def)
  let ?w = "\<lparr>wdb = (), wcache = cc, wnet = s', flushKick = False\<rparr>"
  have st: "stands_for (\<lambda>_. True) (\<lambda>_. (Map.empty, Map.empty)) blobs ?w Map.empty"
    using assms(6,7) by (simp add: stands_for_def implements_def)
  obtain r w' where r: "on_cache (read_record N (client ds) rec) ?w = (r, w')" by fastforce
  then have "fst (read_record N (client ds) rec (cc, s')) = r" by (auto simp: on_cache_def split: prod.splits)
  moreover have "r \<noteq> Inl ErrBlobNotFound \<and> (\<forall>d. r = Inr d \<longrightarrow> d = v)"
    using read_record_ok [OF assms(1) st _ r, of v] v(2) by simp
  moreover have "rSize rec = len64 v" using v(2) by (simp add: rec_ok_def)
  ultimately show ?thesis using v(1) u(2) single_concat_keys [OF assms(4)] by blast
qed

lemma sim_StoreQuilt: "StoreQuilt sim_net (sample_client 3) sample_parts 1 False [] =
   (Inr \<lparr>qsQuiltID = ''Q'', qsObjectID = [], qsEndEpoch = 9, qsEncodedSize = 0, qsCost = 0,
    qsPatches = [\<lparr>qpIdentifier = ''0'', qpQuiltPatchID = ''P0''\<rparr>, \<lparr>qpIdentifier = ''1'', qpQuiltPatchID = ''P1''\<rparr>]\<rparr>,
    [''P0'', ''P1''])"
  by code_simp

lemma sim_boundary: "multipartBoundary sim_net s = (Inr sample_boundary, s)"
proof -
  have "fst (multipartBoundary sim_net []) = Inr sample_boundary" by code_simp
  then show ?thesis by (simp add: multipartBoundary_def)
qed

lemma sim_boundary_free: "boundary_free sim_net ''hello''" "boundary_free sim_net []"
proof -
  have "\<not> occurs (delimiter sample_boundary) (CRLF @ ''hello'')" "\<not> occurs (delimiter sample_boundary) (CRLF @ [])" by code_simp+
  then show "boundary_free sim_net ''hello''" "boundary_free sim_net []" by (auto simp: boundary_free_def sim_boundary)
qed

definition patch_rec :: "string \<Rightarrow> int \<Rightarrow> IndexRecord" where
  "patch_rec pid n = \<lparr>rBlobID = ''Q'', rObjectID = [], rPatchID = pid, rOffset = 0, rSize = n,
     rEncodedSize = EncodedBlobLength 5 1000, rCost = 0, rDeletable = False, rEndEpoch = 9, rExpiresAt = None\<rparr>"

lemma sample_upload_quilt: "uploadPack sim_net sample_ds [(''/x'', ''hello''), (''/y'', [])] []
    = (Inr [(''/x'', patch_rec ''P0'' 5), (''/y'', patch_rec ''P1'' 0)], [''P0'', ''P1''])"
proof -
  have "quilt_parts [(''/x'', ''hello''), (''/y'', [])] = sample_parts" by code_simp
  moreover have "blockByID [(''/x'', ''hello''), (''/y'', [])] ''0'' = Some (''/x'', ''hello'')"
    "blockByID [(''/x'', ''hello''), (''/y'', [])] ''1'' = Some (''/y'', [])" by code_simp+
  moreover have "total_unencoded [(''/x'', ''hello''), (''/y'', [])] = 5" by code_simp
  ultimately show ?thesis
    by (simp add: uploadPack_def uploadQuiltPack_def sim_StoreQuilt expiry_def encodedSize_def patch_rec_def)
qed

theorem uploadPack_locates_witness:
  "\<exists>recs s'. uploadPack sim_net sample_ds [(''/x'', ''hello''), (''/y'', [])] [] = (Inr recs, s') \<and> length recs = 2
     \<and> fst (read_record sim_net (sample_client 3) (patch_rec ''P0'' 5) (newBlobCache 100, s')) \<noteq> Inl ErrBlobNotFound"
  using uploadPack_locates [OF sample_honest _ _ sample_upload_quilt _ newBlobCache_ok, of "''/x''" "patch_rec ''P0'' 5" 100]
    sample_upload_quilt sim_boundary_free by simp

lemma list_all2_right: "list_all2 P xs ys \<Longrightarrow> y \<in> set ys \<Longrightarrow> \<exists>x\<in>set xs. P x y"
  by (induction rule: list_all2_induct) auto

lemma list_all2_left: "list_all2 P xs ys \<Longrightarrow> x \<in> set xs \<Longrightarrow> \<exists>y\<in>set ys. P x y"
  by (induction rule: list_all2_induct) auto

lemma results_keys:
  assumes "list_all2 (\<lambda>it x. \<forall>e. x = Inr e \<longrightarrow> eKey e = fst it) its rs" "\<forall>x\<in>set rs. is_ok x"
  shows "{eKey e |e. Inr e \<in> set rs} = fst ` set its"
proof
  show "{eKey e |e. Inr e \<in> set rs} \<subseteq> fst ` set its"
    using list_all2_right [OF assms(1)] by fastforce
  show "fst ` set its \<subseteq> {eKey e |e. Inr e \<in> set rs}"
  proof
    fix k assume "k \<in> fst ` set its"
    then obtain it where it: "it \<in> set its" "k = fst it" by blast
    obtain x where "x \<in> set rs" "\<forall>e. x = Inr e \<longrightarrow> eKey e = fst it" using list_all2_left [OF assms(1) it(1)] by blast
    moreover from this obtain e where "x = Inr e" using assms(2) by (auto simp: is_ok_iff)
    ultimately have "Inr e \<in> set rs" "k = eKey e" using it(2) by simp_all
    then show "k \<in> {eKey e |e. Inr e \<in> set rs}" by blast
  qed
qed

lemma set_page: "set (page limit offset xs) \<subseteq> set xs"
  by (auto simp: page_def Let_def dest: in_set_takeD in_set_dropD)

lemma length_page: "0 < limit \<Longrightarrow> len64 (page limit offset xs) \<le> limit"
  by (simp add: page_def Let_def)

text \<open>The keys a prefix selects; the empty prefix and the root select all.\<close>

definition under_prefix :: "string \<Rightarrow> ds_key \<Rightarrow> bool" where
  "under_prefix pfx k \<longleftrightarrow> pfx \<in> {[], ''/''} \<or> k = pfx \<or> (\<exists>rest. k = pfx @ ''/'' @ rest)"

lemma list_matches_under: "plain_pattern pfx \<Longrightarrow> list_matches pfx k = under_prefix pfx k"
  using list_matches_plain [of pfx k] by (auto simp: under_prefix_def list_matches_def)



lemma with_defaults_sel [simp]:
  "PublisherURLs (with_defaults c) = PublisherURLs c" "AggregatorURLs (with_defaults c) = AggregatorURLs c"
  "PostgresURL (with_defaults c) = PostgresURL c" "Table (with_defaults c) = Table c"
  "RenewInterval (with_defaults c) = RenewInterval c" "EpochDuration (with_defaults c) = EpochDuration c"
  "cacheBytes (with_defaults c) = cacheBytes c"
  by (simp_all add: with_defaults_def cacheBytes_def)

lemma positive_or_pos: "0 < d \<Longrightarrow> 0 < positive_or x d"
  by (simp add: positive_or_def)

lemmas default_values = defaultWorkers_def defaultMaxOpenConns_def defaultEpochs_def defaultRequestTimeout_def
  defaultMaxRetries_def defaultPackTargetSize_def defaultPackMaxAge_def defaultPackIdleFlush_def
  defaultPackFlushInterval_def Minute_def Second_def DefaultNShards_def

text \<open>
  C21. The constructor succeeds exactly when both URL lists and the Postgres URL are given and the index opens. A
  datastore it returns has a configuration its workers can run with: positive pack size, worker count, lease
  and tick intervals, epochs and shards, no negative retry count; an explicit zero for \<open>MaxRetries\<close> stays zero.
  Its cache is empty and consistent, absent exactly when \<open>BlobCacheBytes\<close> is negative, and the renewal worker
  runs exactly when both its durations are positive. On an empty database it stands for the empty map.
\<close>

theorem NewWalrusDatastore_ready:
  assumes "db_inv d" and "tbl d = []" and "stg d = []"
  shows "(is_ok (NewWalrusDatastore open_index c) \<longleftrightarrow>
      PublisherURLs c \<noteq> [] \<and> AggregatorURLs c \<noteq> [] \<and> PostgresURL c \<noteq> []
      \<and> is_ok (open_index (PostgresURL c) (Table c) (MaxOpenConns (with_defaults c))))
    \<and> (\<forall>st. NewWalrusDatastore open_index c = Inr st \<longrightarrow>
      (let k = conf (st_datastore st)
       in 0 < PackTargetSize k \<and> 0 < Workers k \<and> 0 < Epochs k \<and> 0 < NShards k \<and> 0 < PackFlushInterval k
          \<and> 0 < PackMaxAge k \<and> 0 < PackIdleFlush k \<and> 0 < RequestTimeout k \<and> 0 < MaxOpenConns k
          \<and> 0 \<le> MaxRetries k \<and> maxRetries (client (st_datastore st)) = MaxRetries k \<and> (MaxRetries c = 0 \<longrightarrow> MaxRetries k = 0)
          \<and> (st_renewal st \<longleftrightarrow> 0 < RenewInterval c \<and> 0 < EpochDuration c))
      \<and> (st_cache st = None \<longleftrightarrow> BlobCacheBytes c < 0)
      \<and> stands_for db_inv db_view blobs \<lparr>wdb = d, wcache = st_cache st, wnet = s, flushKick = False\<rparr> Map.empty)"
proof (intro conjI allI impI)
  show "is_ok (NewWalrusDatastore open_index c) \<longleftrightarrow>
      PublisherURLs c \<noteq> [] \<and> AggregatorURLs c \<noteq> [] \<and> PostgresURL c \<noteq> []
      \<and> is_ok (open_index (PostgresURL c) (Table c) (MaxOpenConns (with_defaults c)))"
    by (auto simp: NewWalrusDatastore_def Let_def split: sum.splits prod.splits)
next
  fix st assume "NewWalrusDatastore open_index c = Inr st"
  then obtain ix where st: "st = \<lparr>st_datastore = \<lparr>conf = with_defaults c, client = fst (NewClient \<lparr>ccPublisherURLs = PublisherURLs c,
        ccAggregatorURLs = AggregatorURLs c, ccRequestTimeout = RequestTimeout (with_defaults c),
        ccMaxRetries = MaxRetries (with_defaults c), ccBlobCacheBytes = cacheBytes c\<rparr>), index = ix\<rparr>,
      st_cache = newBlobCache (cacheBytes c), st_renewal = (RenewInterval c > 0 \<and> EpochDuration c > 0)\<rparr>"
    by (auto simp: NewWalrusDatastore_def Let_def NewClient_def split: if_splits sum.splits)
  show "let k = conf (st_datastore st)
       in 0 < PackTargetSize k \<and> 0 < Workers k \<and> 0 < Epochs k \<and> 0 < NShards k \<and> 0 < PackFlushInterval k
          \<and> 0 < PackMaxAge k \<and> 0 < PackIdleFlush k \<and> 0 < RequestTimeout k \<and> 0 < MaxOpenConns k
          \<and> 0 \<le> MaxRetries k \<and> maxRetries (client (st_datastore st)) = MaxRetries k \<and> (MaxRetries c = 0 \<longrightarrow> MaxRetries k = 0)
          \<and> (st_renewal st \<longleftrightarrow> 0 < RenewInterval c \<and> 0 < EpochDuration c)"
    by (simp add: st with_defaults_def NewClient_def positive_or_pos default_values)
  show "st_cache st = None \<longleftrightarrow> BlobCacheBytes c < 0"
    by (auto simp: st newBlobCache_def cacheBytes_def defaultBlobCacheBytes_def Let_def)
  show "stands_for db_inv db_view blobs \<lparr>wdb = d, wcache = st_cache st, wnet = s, flushKick = False\<rparr> Map.empty"
    using assms newBlobCache_ok by (simp add: st stands_for_def implements_def db_view_def)
qed

theorem NewWalrusDatastore_ready_witness:
  "\<exists>st. NewWalrusDatastore (\<lambda>_ _ _. Inr (postgres_ops sample_pg)) sample_conf = Inr st
     \<and> stands_for db_inv db_view sim_blobs \<lparr>wdb = \<lparr>tbl = [], stg = [], db_now = 0, faults = []\<rparr>, wcache = st_cache st,
          wnet = [], flushKick = False\<rparr> Map.empty"
proof -
  let ?o = "\<lambda>_ _ _. Inr (postgres_ops sample_pg)" and ?d = "\<lparr>tbl = [], stg = [], db_now = 0, faults = []\<rparr>"
  have "PublisherURLs sample_conf \<noteq> [] \<and> AggregatorURLs sample_conf \<noteq> [] \<and> PostgresURL sample_conf \<noteq> []"
    by (simp add: sample_conf_def)
  moreover have "db_inv ?d" by (simp add: db_inv_def keys_of_def)
  ultimately show ?thesis
    using NewWalrusDatastore_ready [of ?d ?o sample_conf sim_blobs "[]"] is_ok_iff
    by (metis db.select_convs(1,2) is_ok.simps(1))
qed

text \<open>
  A block that is too large to be staged is indexed directly, but \<open>Get\<close> looks at the staging buffer first: when
  older bytes are still staged under the key, a successful \<open>Put\<close> is not visible. For content-addressed keys, the
  use of this datastore, both hold the same bytes.
\<close>

theorem Put_oversize_shadowed:
  "\<exists>w'. ds_Put sim_net sample_ds ''/a'' ''hello'' sample_world = (Inr (), w')
     \<and> fst (ds_Get sim_net sample_ds ''/a'' w') = Inr ''xyz''"
proof -
  have "uploadPack sim_net sample_ds [(''/a'', ''hello'')] (wnet sample_world) = (Inr [(''/a'', hello_rec)], [''B1''])"
    using sample_upload by (simp add: sample_world_def)
  then obtain d where d: "ds_Put sim_net sample_ds ''/a'' ''hello'' sample_world = (Inr (), sample_world\<lparr>wnet := [''B1''], wdb := d\<rparr>)"
      "db_inv d" "db_healthy d" "db_view d = put_view [(''/a'', hello_rec)] (db_view (wdb sample_world))"
    using pgidx.healthy_Put_oversize [of sample_ds sample_pg sample_world "''hello''", OF _ sample_healthy] by fastforce
  have "fst (db_view (wdb sample_world)) ''/a'' = Some ''xyz''" by (simp add: db_view_def sample_world_def stage_row_def)
  then have "fst (db_view d) ''/a'' = Some ''xyz''" using d(4) by (simp add: put_view_def)
  then have "fst (ds_Get sim_net sample_ds ''/a'' (sample_world\<lparr>wnet := [''B1''], wdb := d\<rparr>)) = Inr ''xyz''"
    using pgidx.healthy_staged_reads [of sample_ds sample_pg "sample_world\<lparr>wnet := [''B1''], wdb := d\<rparr>" "''/a''"] d by simp
  then show ?thesis using d(1) by blast
qed

end
