(* ===== verification/Flusher.thy ===== *)
theory Flusher
  imports Datastore "HOL-Library.Multiset"
begin

text \<open>
  The pack flusher of \<open>src/walrus.go\<close> (lines 578 to 697): it claims ripe packs from the staging buffer, uploads
  them and promotes their members to the index. The goroutines of one round are run one after the other in
  the order \<open>sched\<close> picks; a round ends when all are done, as \<open>wg.Wait\<close> does. The outer \<open>for\<close> loop is bounded by
  fuel, and \<open>flushStaged_terminates\<close> shows that one more round than there are staged blocks is enough. Log
  lines are not part of the model.
\<close>

subsection \<open>Claiming packs\<close>

text \<open>\<open>aged\<close> and \<open>idle\<close>: an optional instant lies at least \<open>d\<close> in the past.\<close>

definition long_ago :: "'s net \<Rightarrow> time option \<Rightarrow> duration \<Rightarrow> 's \<Rightarrow> bool \<times> 's" where
  "long_ago N at d s =
     (case at of None \<Rightarrow> (False, s) | Some t \<Rightarrow> (case time_Now N s of (now, s') \<Rightarrow> (now - t \<ge> d, s')))"

definition ripe :: "'s net \<Rightarrow> Config \<Rightarrow> StageStats \<Rightarrow> 's \<Rightarrow> bool \<times> 's" where
  "ripe N c st s =
     (let (aged, s1) = long_ago N (stOldest st) (PackMaxAge c) s;
          (idle, s2) = long_ago N (stNewest st) (PackIdleFlush c) s1
      in (\<not> (stBytes st < PackTargetSize c \<and> \<not> aged \<and> \<not> idle), s2))"

definition flush_maxCount :: "Config \<Rightarrow> int" where
  "flush_maxCount c = (if DisableQuilt c then concatMaxBlocks else quiltMaxPatches)"

text \<open>The inner loop; the counter is the number of packs still allowed.\<close>

fun claim_packs ::
  "'s net \<Rightarrow> 'd WalrusDatastore \<Rightarrow> nat \<Rightarrow> ('d, 's) world \<Rightarrow> StageEntry list list \<times> ('d, 's) world" where
  "claim_packs N ds 0 w = ([], w)"
| "claim_packs N ds (Suc n) w =
     (case on_db (ix_StageStats (index ds)) w of
        (Inl _, w1) \<Rightarrow> ([], w1)
      | (Inr st, w1) \<Rightarrow>
          if stCount st = 0 then ([], w1)
          else (case on_net (ripe N (conf ds) st) w1 of
                  (False, w2) \<Rightarrow> ([], w2)
                | (True, w2) \<Rightarrow>
                    (case on_db (ix_StageClaim (index ds) (flush_maxCount (conf ds)) (PackTargetSize (conf ds)) stageLease) w2 of
                       (Inl _, w3) \<Rightarrow> ([], w3)
                     | (Inr entries, w3) \<Rightarrow>
                         if entries = [] then ([], w3)
                         else (case claim_packs N ds n w3 of (ps, w4) \<Rightarrow> (entries # ps, w4)))))"

subsection \<open>Uploading and promoting\<close>

definition flushOnePack ::
  "'s net \<Rightarrow> 'd WalrusDatastore \<Rightarrow> StageEntry list \<Rightarrow> ('d, 's) world \<Rightarrow> unit res \<times> ('d, 's) world" where
  "flushOnePack N ds entries w =
     (case on_net (uploadPack N ds entries) w of
        (r, w1) \<Rightarrow>
          (case (case r of Inl e \<Rightarrow> (Inl e, w1) | Inr recs \<Rightarrow> on_db (ix_PromoteStaged (index ds) recs) w1) of
             (Inr _, w2) \<Rightarrow> (Inr (), w2)
           | (Inl e, w2) \<Rightarrow>
               if is_panic e then (Inl e, w2)
               else (case on_db (ix_StageRelease (index ds) (map fst entries)) w2 of
                       (_, w3) \<Rightarrow> (Inl (Wrapf ''flushing pack of %d blocks: %w'' [AInt (len64 entries)] e), w3))))"

text \<open>The goroutines of a round: whether any failed; a panic ends the process.\<close>

fun flush_round ::
  "'s net \<Rightarrow> 'd WalrusDatastore \<Rightarrow> StageEntry list list \<Rightarrow> ('d, 's) world \<Rightarrow> bool res \<times> ('d, 's) world" where
  "flush_round N ds [] w = (Inr False, w)"
| "flush_round N ds (p # ps) w =
     (case flushOnePack N ds p w of
        (r, w1) \<Rightarrow>
          (case r of
             Inl e \<Rightarrow> if is_panic e then (Inl e, w1)
                      else (case flush_round N ds ps w1 of (Inl e', w2) \<Rightarrow> (Inl e', w2) | (Inr _, w2) \<Rightarrow> (Inr True, w2))
           | Inr _ \<Rightarrow> flush_round N ds ps w1))"

text \<open>How \<open>flushStaged\<close> ends: nothing left to claim, a pack failed, or a panic.\<close>

datatype flush_end = Quiet | BackOff | Crash err

fun flushStaged ::
  "'s net \<Rightarrow> 'd WalrusDatastore \<Rightarrow> (StageEntry list list \<Rightarrow> StageEntry list list) \<Rightarrow> nat \<Rightarrow> ('d, 's) world
     \<Rightarrow> (flush_end \<times> ('d, 's) world) option" where
  "flushStaged N ds sched 0 w = None"
| "flushStaged N ds sched (Suc fuel) w =
     (case claim_packs N ds (nat (Workers (conf ds))) w of
        ([], w1) \<Rightarrow> Some (Quiet, w1)
      | (packs, w1) \<Rightarrow>
          (case flush_round N ds (sched packs) w1 of
             (Inl e, w2) \<Rightarrow> Some (Crash e, w2)
           | (Inr True, w2) \<Rightarrow> Some (BackOff, w2)
           | (Inr False, w2) \<Rightarrow> flushStaged N ds sched fuel w2))"

subsection \<open>The rows of a pack\<close>

lemma quilt_recs_keys:
  "quilt_recs c pack res encoded ex qs = Inr recs \<Longrightarrow> fst ` set recs \<subseteq> fst ` set pack \<and> length recs = length qs"
proof (induction qs arbitrary: recs)
  case (Cons q qs)
  then obtain e rs where "blockByID pack (qpIdentifier q) = Some e" "quilt_recs c pack res encoded ex qs = Inr rs"
    "fst ` set recs = insert (fst e) (fst ` set rs)" "length recs = Suc (length rs)"
    by (auto split: option.splits sum.splits)
  moreover have "fst e \<in> fst ` set pack" using blockByID_Some calculation(1) by blast
  ultimately show ?case using Cons.IH by simp
qed simp

lemma uploadPack_keys:
  assumes "uploadPack N ds pack s = (Inr recs, s')"
  shows "fst ` set recs \<subseteq> fst ` set pack \<and> length recs = length pack"
proof (cases "DisableQuilt (conf ds) \<or> length pack \<le> 1")
  case True
  then have "map fst recs = map fst pack" by (rule single_concat_keys [OF assms])
  then show ?thesis by (metis length_map list.set_map order_refl)
next
  case False
  then have "uploadQuiltPack N ds pack s = (Inr recs, s')"
    using assms by (auto simp: uploadPack_def split: list.splits)
  then obtain res ex where "length (qsPatches res) = length pack"
    "quilt_recs (conf ds) pack res (encodedSize (conf ds) (qsEncodedSize res) (total_unencoded pack)) ex (qsPatches res) = Inr recs"
    by (auto simp: uploadQuiltPack_def split: sum.splits prod.splits if_splits)
  then show ?thesis using quilt_recs_keys by metis
qed

subsection \<open>Packs\<close>

text \<open>A pack that can be uploaded, and a claimed pack: its blocks are staged under its keys.\<close>

definition pack_ok :: "'s net \<Rightarrow> blockEntry list \<Rightarrow> bool" where
  "pack_ok N p \<longleftrightarrow> (\<forall>v\<in>snd ` set p. boundary_free N v) \<and> len64 (concat (map snd p)) < 2 ^ 63"

definition claimed :: "view \<Rightarrow> StageEntry list \<Rightarrow> bool" where
  "claimed vw p \<longleftrightarrow> distinct (map fst p) \<and> (\<forall>(k, v)\<in>set p. fst vw k = Some v)"

definition staged_ok :: "'s net \<Rightarrow> view \<Rightarrow> bool" where
  "staged_ok N vw \<longleftrightarrow> (\<forall>p. claimed vw p \<longrightarrow> pack_ok N p)"

lemma staged_ok_mono: "fst vw' \<subseteq>\<^sub>m fst vw \<Longrightarrow> staged_ok N vw \<Longrightarrow> staged_ok N vw'"
proof -
  assume le: "fst vw' \<subseteq>\<^sub>m fst vw" and ok: "staged_ok N vw"
  have "claimed vw p" if "claimed vw' p" for p
    using that le by (force simp: claimed_def map_le_def)
  then show "staged_ok N vw'" using ok by (simp add: staged_ok_def)
qed

context durable_index
begin

lemma claim_packs_claimed:
  assumes "index ds = ix" "invar (wdb w)" "claim_packs N ds n w = (ps, w')"
  shows "invar (wdb w') \<and> view (wdb w') = view (wdb w) \<and> (\<forall>p\<in>set ps. p \<noteq> [] \<and> claimed (view (wdb w)) p)"
  using assms(2,3)
proof (induction n arbitrary: w ps)
  case (Suc n)
  obtain st d1 where 1: "ix_StageStats ix (wdb w) = (st, d1)" by fastforce
  note l1 = StageStats_law [OF Suc.prems(1) 1]
  show ?case
  proof (cases "\<exists>st0. st = Inr st0 \<and> stCount st0 \<noteq> 0 \<and> fst (ripe N (conf ds) st0 (wnet w))")
    case False
    then show ?thesis
      using Suc.prems(2) 1 l1 assms(1) by (cases st) (auto simp: on_db_def on_net_def split: if_splits prod.splits bool.splits)
  next
    case True
    then obtain st0 s2 where st: "st = Inr st0" "stCount st0 \<noteq> 0" "ripe N (conf ds) st0 (wnet w) = (True, s2)"
      by (metis (full_types) prod.collapse)
    obtain cl d3 where 3: "ix_StageClaim ix (flush_maxCount (conf ds)) (PackTargetSize (conf ds)) stageLease d1 = (cl, d3)" by fastforce
    note l3 = StageClaim_law [OF conjunct1 [OF l1] 3]
    let ?w3 = "w\<lparr>wnet := s2, wdb := d3\<rparr>"
    show ?thesis
    proof (cases "\<exists>es. cl = Inr es \<and> es \<noteq> []")
      case False
      then have "ps = []" "wdb w' = d3"
        using Suc.prems(2) 1 3 st assms(1) by (cases cl; auto simp: on_db_def on_net_def)+
      then show ?thesis using l1 l3 by simp
    next
      case True
      then obtain es where es: "cl = Inr es" "es \<noteq> []" by blast
      obtain qs w4 where q: "claim_packs N ds n ?w3 = (qs, w4)" by fastforce
      have "ps = es # qs" "w' = w4"
        using Suc.prems(2) 1 3 st es q assms(1) by (simp_all add: on_db_def on_net_def)
      then show ?thesis using Suc.IH [of ?w3] q l1 l3 es by (auto simp: claimed_def)
    qed
  qed
qed simp

end

text \<open>The inner loop keeps whatever its three kinds of steps keep.\<close>

lemma claim_packs_keeps:
  assumes "\<And>v r v'. I v \<Longrightarrow> on_db (ix_StageStats (index ds)) v = (r, v') \<Longrightarrow> I v'"
    and "\<And>v st r v'. I v \<Longrightarrow> on_net (ripe N (conf ds) st) v = (r, v') \<Longrightarrow> I v'"
    and "\<And>v r v'. I v \<Longrightarrow> on_db (ix_StageClaim (index ds) (flush_maxCount (conf ds)) (PackTargetSize (conf ds)) stageLease) v = (r, v') \<Longrightarrow> I v'"
    and "I w" "claim_packs N ds n w = (ps, w')"
  shows "I w'"
  using assms(4,5)
proof (induction n arbitrary: w ps w')
  case (Suc n)
  obtain x1 w1 where 1: "on_db (ix_StageStats (index ds)) w = (x1, w1)" by fastforce
  have I1: "I w1" by (rule assms(1) [OF Suc.prems(1) 1])
  show ?case
  proof (cases "\<exists>st. x1 = Inr st \<and> stCount st \<noteq> 0")
    case False
    then show ?thesis using Suc.prems(2) 1 I1 by (auto split: sum.splits if_splits)
  next
    case True
    then obtain st where st: "x1 = Inr st" "stCount st \<noteq> 0" by blast
    obtain b w2 where 2: "on_net (ripe N (conf ds) st) w1 = (b, w2)" by fastforce
    have I2: "I w2" by (rule assms(2) [OF I1 2])
    obtain cl w3 where 3: "on_db (ix_StageClaim (index ds) (flush_maxCount (conf ds)) (PackTargetSize (conf ds)) stageLease) w2 = (cl, w3)"
      by fastforce
    have I3: "I w3" by (rule assms(3) [OF I2 3])
    obtain qs w4 where 4: "claim_packs N ds n w3 = (qs, w4)" by fastforce
    have "w' \<in> {w2, w3, w4}" using Suc.prems(2) 1 2 3 4 st by (cases b; cases cl) (auto split: if_splits)
    then show ?thesis using I2 I3 Suc.IH [OF I3 4] by auto
  qed
qed simp

lemma ripe_mono: "immutable N blobs \<Longrightarrow> blobs s \<subseteq>\<^sub>m blobs (snd (ripe N c st s))"
proof -
  assume im: "immutable N blobs"
  have t: "blobs s \<subseteq>\<^sub>m blobs (snd (time_Now N s))" for s
    using immutable_ambient [OF im, of "blobs s"] by (simp add: ambient_def)
  have "blobs s \<subseteq>\<^sub>m blobs (snd (long_ago N at d s))" for at d s
    using t [of s] by (auto simp: long_ago_def split: option.splits prod.splits)
  then show ?thesis unfolding ripe_def by (auto simp: Let_def split: prod.splits intro: map_le_trans) (metis map_le_trans snd_conv)
qed

context durable_index
begin

lemma claim_packs_refines:
  assumes "immutable N blobs" "index ds = ix" "stands_for invar view blobs w m" "claim_packs N ds n w = (ps, w')"
  shows "stands_for invar view blobs w' m"
proof (rule claim_packs_keeps [where I = "\<lambda>v. stands_for invar view blobs v m", OF _ _ _ assms(3,4)])
  fix v r v' assume st: "stands_for invar view blobs v m"
  then have i: "invar (wdb v)" and imp: "implements (view (wdb v)) (blobs (wnet v)) m" by (auto simp: stands_for_def)
  show "stands_for invar view blobs v' m" if "on_db (ix_StageStats (index ds)) v = (r, v')"
    using that stands_for_db [OF st] StageStats_law [OF i] imp assms(2) by (auto simp: on_db_def split: prod.splits)
next
  fix v r v' assume st: "stands_for invar view blobs v m"
  then have i: "invar (wdb v)" and imp: "implements (view (wdb v)) (blobs (wnet v)) m" by (auto simp: stands_for_def)
  show "stands_for invar view blobs v' m"
    if "on_db (ix_StageClaim (index ds) (flush_maxCount (conf ds)) (PackTargetSize (conf ds)) stageLease) v = (r, v')"
    using that stands_for_db [OF st] StageClaim_law [OF i] imp assms(2) by (auto simp: on_db_def split: prod.splits)
next
  fix v st r v' assume sf: "stands_for invar view blobs v m" and op: "on_net (ripe N (conf ds) st) v = (r, v')"
  show "stands_for invar view blobs v' m"
    using op stands_for_net [OF sf, of "wnet v'"] ripe_mono [OF assms(1), of "wnet v" "conf ds" st]
    by (auto simp: on_net_def split: prod.splits)
qed

lemma Promote_shrinks:
  assumes "invar d" "ix_PromoteStaged ix recs d = (r, d')"
  shows "invar d' \<and> fst (view d') \<subseteq>\<^sub>m fst (view d) \<and> (is_ok r \<longrightarrow> fst (view d') = fst (view d) |` (- fst ` set recs))"
proof -
  have "fst (promote_view recs vw) \<subseteq>\<^sub>m fst vw" for vw by (auto simp: promote_view_def map_le_def)
  then show ?thesis
    using PromoteStaged_law [OF assms] by (cases r) (auto simp: all_or_nothing_def promote_view_def)
qed

text \<open>One pack: the staged blocks only shrink, and by at least one when the pack succeeds.\<close>

lemma flushOnePack_view:
  assumes ds: "index ds = ix" and i: "invar (wdb w)" and op: "flushOnePack N ds p w = (r, w')"
  shows "invar (wdb w') \<and> fst (view (wdb w')) \<subseteq>\<^sub>m fst (view (wdb w))
    \<and> (is_ok r \<and> p \<noteq> [] \<and> fst ` set p \<subseteq> dom (fst (view (wdb w))) \<longrightarrow> dom (fst (view (wdb w'))) \<subset> dom (fst (view (wdb w))))"
proof -
  obtain x s1 where 1: "uploadPack N ds p (wnet w) = (x, s1)" by fastforce
  obtain y d2 where 2: "(case x of Inl e \<Rightarrow> (Inl e, wdb w) | Inr recs \<Rightarrow> ix_PromoteStaged ix recs (wdb w)) = (y, d2)" by fastforce
  have shrink: "invar d2 \<and> fst (view d2) \<subseteq>\<^sub>m fst (view (wdb w))"
    using 2 i Promote_shrinks [OF i] by (cases x) auto
  have strict: "dom (fst (view d2)) \<subset> dom (fst (view (wdb w)))"
    if ok: "is_ok y" "p \<noteq> []" "fst ` set p \<subseteq> dom (fst (view (wdb w)))"
  proof -
    obtain recs where x: "x = Inr recs" using 2 ok(1) by (cases x) auto
    then have "fst (view d2) = fst (view (wdb w)) |` (- fst ` set recs)"
      using 2 ok(1) Promote_shrinks [OF i] by simp
    moreover have u: "fst ` set recs \<subseteq> fst ` set p" "length recs = length p" using uploadPack_keys [of N ds p "wnet w" recs s1] 1 x by simp_all
    moreover obtain k where "k \<in> fst ` set recs" using u(2) ok(2) by (cases recs) auto
    ultimately show ?thesis using ok(3) by auto
  qed
  obtain z d3 where 3: "ix_StageRelease ix (map fst p) d2 = (z, d3)" by fastforce
  note l3 = StageRelease_law [OF conjunct1 [OF shrink] 3]
  have "(is_ok r \<longrightarrow> is_ok y) \<and> (wdb w' = d2 \<or> wdb w' = d3)"
    using op 1 2 3 ds by (cases x; cases y) (auto simp: flushOnePack_def on_net_def on_db_def split: if_splits)
  then have "is_ok r \<longrightarrow> is_ok y" "invar (wdb w')" "view (wdb w') = view d2" using shrink l3 by auto
  then show ?thesis using shrink strict by simp
qed

end

context durable_index
begin

lemma flushOnePack_refines:
  assumes hw: "honest_walrus N (client ds) blobs" and ds: "index ds = ix" and st: "stands_for invar view blobs w m"
    and po: "pack_ok N p" and co: "\<forall>(k, v)\<in>set p. fst (view (wdb w)) k \<in> {None, Some v}"
    and op: "flushOnePack N ds p w = (r, w')"
  shows "stands_for invar view blobs w' m"
proof -
  obtain x w1 where 1: "on_net (uploadPack N ds p) w = (x, w1)" by fastforce
  have "uploaded blobs p (wnet w) x s'" if "uploadPack N ds p (wnet w) = (x, s')" for s'
    using uploadPack_ok [OF hw _ _ that] po by (simp add: pack_ok_def)
  note u = on_net_mono [OF st 1 this]
  obtain y w2 where 2: "(case x of Inl e \<Rightarrow> (Inl e, w1) | Inr recs \<Rightarrow> on_db (ix_PromoteStaged ix recs) w1) = (y, w2)" by fastforce
  have st2: "stands_for invar view blobs w2 m"
  proof (cases x)
    case (Inl e)
    then show ?thesis using 2 u by simp
  next
    case (Inr recs)
    have st1: "stands_for invar view blobs w1 m" and db: "wdb w1 = wdb w" and rf: "recs_for (blobs (wnet w1)) p recs"
      using u Inr by (auto simp: uploaded_def)
    then have i: "invar (wdb w1)" and imp: "implements (view (wdb w1)) (blobs (wnet w1)) m" by (auto simp: stands_for_def)
    have "outcome (stands_for invar view blobs) y w2 m m"
      using stands_for_change [OF st1 _ PromoteStaged_law [OF i] implements_promote [OF imp rf]] 2 Inr co db by simp
    then show ?thesis by (simp add: outcome_def split: if_splits)
  qed
  obtain z w3 where 3: "on_db (ix_StageRelease ix (map fst p)) w2 = (z, w3)" by fastforce
  have "stands_for invar view blobs w3 m"
    using 3 stands_for_db [OF st2] StageRelease_law st2 by (auto simp: on_db_def stands_for_def split: prod.splits)
  moreover have "w' = w2 \<or> w' = w3"
    using op 1 2 3 ds by (cases x; cases y) (auto simp: flushOnePack_def split: if_splits)
  ultimately show ?thesis using st2 by auto
qed

lemma flush_round_view:
  assumes "index ds = ix" "invar (wdb w)" "flush_round N ds ps w = (r, w')"
  shows "invar (wdb w') \<and> fst (view (wdb w')) \<subseteq>\<^sub>m fst (view (wdb w))"
  using assms(2,3)
proof (induction ps arbitrary: w r)
  case (Cons p ps)
  obtain x w1 where 1: "flushOnePack N ds p w = (x, w1)" by fastforce
  note v1 = flushOnePack_view [OF assms(1) Cons.prems(1) 1]
  obtain y w2 where 2: "flush_round N ds ps w1 = (y, w2)" by fastforce
  have "w' = w1 \<or> w' = w2" using Cons.prems(2) 1 2 by (auto split: sum.splits if_splits)
  moreover have "invar (wdb w2) \<and> fst (view (wdb w2)) \<subseteq>\<^sub>m fst (view (wdb w1))" if "w' = w2"
    using Cons.IH [of w1 y] v1 2 that by simp
  ultimately show ?case using v1 map_le_trans by blast
qed simp

lemma flush_round_refines:
  assumes hw: "honest_walrus N (client ds) blobs" and ds: "index ds = ix" and "stands_for invar view blobs w m"
    and "\<forall>p\<in>set ps. pack_ok N p" "\<forall>p\<in>set ps. \<forall>(k, v)\<in>set p. fst (view (wdb w)) k \<in> {None, Some v}"
    and "flush_round N ds ps w = (r, w')"
  shows "stands_for invar view blobs w' m"
  using assms(3-6)
proof (induction ps arbitrary: w r)
  case (Cons p ps)
  obtain x w1 where 1: "flushOnePack N ds p w = (x, w1)" by fastforce
  have st1: "stands_for invar view blobs w1 m"
    using flushOnePack_refines [OF hw ds Cons.prems(1) _ _ 1] Cons.prems(2,3) by simp
  have "fst (view (wdb w1)) \<subseteq>\<^sub>m fst (view (wdb w))"
    using flushOnePack_view [OF ds _ 1] Cons.prems(1) by (simp add: stands_for_def)
  then have "\<forall>p\<in>set ps. \<forall>(k, v)\<in>set p. fst (view (wdb w1)) k \<in> {None, Some v}"
    using Cons.prems(3) unfolding map_le_def by (fastforce simp: dom_def)
  note IH = Cons.IH [OF st1 _ this]
  obtain y w2 where 2: "flush_round N ds ps w1 = (y, w2)" by fastforce
  have "w' = w1 \<or> w' = w2" using Cons.prems(4) 1 2 by (auto split: sum.splits if_splits)
  then show ?case using st1 IH 2 Cons.prems(2) by auto
qed simp

end

lemma perm_set: "mset xs = mset ys \<Longrightarrow> set xs = set ys"
  by (rule mset_eq_setD)

context durable_index
begin

lemma flushStaged_refines:
  assumes hw: "honest_walrus N (client ds) blobs" and ds: "index ds = ix" and perm: "\<forall>ps. mset (sched ps) = mset ps"
    and "stands_for invar view blobs w m" "staged_ok N (view (wdb w))" "flushStaged N ds sched fuel w = Some (e, w')"
  shows "stands_for invar view blobs w' m"
  using assms(4-6)
proof (induction fuel arbitrary: w)
  case (Suc fuel)
  have im: "immutable N blobs" using hw by (simp add: honest_walrus_def)
  have i: "invar (wdb w)" using Suc.prems(1) by (simp add: stands_for_def)
  obtain ps w1 where 1: "claim_packs N ds (nat (Workers (conf ds))) w = (ps, w1)" by fastforce
  note c = claim_packs_claimed [OF ds i 1]
  have st1: "stands_for invar view blobs w1 m" by (rule claim_packs_refines [OF im ds Suc.prems(1) 1])
  obtain r w2 where 2: "flush_round N ds (sched ps) w1 = (r, w2)" by fastforce
  have sched: "set (sched ps) = set ps" using perm perm_set by blast
  have st2: "stands_for invar view blobs w2 m"
  proof (rule flush_round_refines [OF hw ds st1 _ _ 2])
    show "\<forall>p\<in>set (sched ps). pack_ok N p" using c Suc.prems(2) sched by (simp add: staged_ok_def)
    show "\<forall>p\<in>set (sched ps). \<forall>(k, v)\<in>set p. fst (view (wdb w1)) k \<in> {None, Some v}"
      using c sched by (fastforce simp: claimed_def)
  qed
  have "staged_ok N (view (wdb w2))"
    using flush_round_view [OF ds _ 2] c Suc.prems(2) staged_ok_mono by metis
  note IH = Suc.IH [OF st2 this]
  show ?case
  proof (cases ps)
    case Nil
    then show ?thesis using Suc.prems(3) 1 st1 by simp
  next
    case (Cons p qs)
    then show ?thesis using Suc.prems(3) 1 2 st2 IH by (auto split: sum.splits bool.splits)
  qed
qed simp

end

context flushable_index
begin

lemma flush_round_strict:
  assumes "index ds = ix" "invar (wdb w)" "ps \<noteq> []" "\<forall>p\<in>set ps. p \<noteq> [] \<and> claimed (view (wdb w)) p"
    "flush_round N ds ps w = (Inr False, w')"
  shows "card (dom (fst (view (wdb w')))) < card (dom (fst (view (wdb w))))"
proof -
  obtain p qs where ps: "ps = p # qs" using assms(3) by (cases ps) auto
  obtain x w1 where 1: "flushOnePack N ds p w = (x, w1)" by fastforce
  have x: "is_ok x" and 2: "flush_round N ds qs w1 = (Inr False, w')"
    using assms(5) 1 ps by (auto split: sum.splits prod.splits if_splits)
  have "p \<noteq> []" "fst ` set p \<subseteq> dom (fst (view (wdb w)))" using assms(4) ps by (auto simp: claimed_def)
  then have "dom (fst (view (wdb w1))) \<subset> dom (fst (view (wdb w)))" "invar (wdb w1)"
    using flushOnePack_view [OF assms(1,2) 1] x by simp_all
  moreover have "dom (fst (view (wdb w'))) \<subseteq> dom (fst (view (wdb w1)))"
    using flush_round_view [OF assms(1) _ 2] calculation(2) map_le_implies_dom_le by blast
  ultimately have "dom (fst (view (wdb w'))) \<subset> dom (fst (view (wdb w)))" by blast
  then show ?thesis by (rule psubset_card_mono [OF finite_staged])
qed

lemma flushStaged_ends:
  assumes "index ds = ix" "\<forall>ps. mset (sched ps) = mset ps" "invar (wdb w)"
    "card (dom (fst (view (wdb w)))) < fuel"
  shows "\<exists>e w'. flushStaged N ds sched fuel w = Some (e, w')"
  using assms(3,4)
proof (induction fuel arbitrary: w)
  case (Suc fuel)
  obtain ps w1 where 1: "claim_packs N ds (nat (Workers (conf ds))) w = (ps, w1)" by fastforce
  note c = claim_packs_claimed [OF assms(1) Suc.prems(1) 1]
  obtain r w2 where 2: "flush_round N ds (sched ps) w1 = (r, w2)" by fastforce
  show ?case
  proof (cases "ps \<noteq> [] \<and> r = Inr False")
    case True
    have sched: "set (sched ps) = set ps" using assms(2) perm_set by blast
    have "card (dom (fst (view (wdb w2)))) < card (dom (fst (view (wdb w1))))"
    proof (rule flush_round_strict [OF assms(1)])
      show "invar (wdb w1)" "\<forall>p\<in>set (sched ps). p \<noteq> [] \<and> claimed (view (wdb w1)) p" using c sched by auto
      show "sched ps \<noteq> []" using sched True by auto
      show "flush_round N ds (sched ps) w1 = (Inr False, w2)" using 2 True by simp
    qed
    then have "card (dom (fst (view (wdb w2)))) < fuel" using c Suc.prems(2) by simp
    moreover have "invar (wdb w2)" using flush_round_view [OF assms(1) _ 2] c by blast
    ultimately show ?thesis using Suc.IH True 1 2 by (cases ps) auto
  next
    case False
    then show ?thesis using 1 2 by (cases ps) (auto split: sum.splits bool.splits)
  qed
qed simp

end

context flushable_index
begin

lemma claim_packs_calm:
  assumes "index ds = ix" "0 < PackTargetSize (conf ds)" "lease_ok stageLease" "invar (wdb w)" "healthy (wdb w)"
    "claim_packs N ds n w = (ps, w')"
  shows "healthy (wdb w')"
proof -
  have pos: "0 < flush_maxCount (conf ds)" by (simp add: flush_maxCount_def quiltMaxPatches_def concatMaxBlocks_def)
  have "invar (wdb w') \<and> healthy (wdb w')"
  proof (rule claim_packs_keeps [where I = "\<lambda>v. invar (wdb v) \<and> healthy (wdb v)", OF _ _ _ _ assms(6)])
    fix v v' :: "('d, 'a) world" and r assume v: "invar (wdb v) \<and> healthy (wdb v)"
    show "invar (wdb v') \<and> healthy (wdb v')" if "on_db (ix_StageStats (index ds)) v = (r, v')"
      using that v stats_live [of "wdb v"] assms(1) by (auto simp: on_db_def)
    show "invar (wdb v') \<and> healthy (wdb v')" if "on_net (ripe N (conf ds) st) v = (r', v')" for st r'
      using that v by (auto simp: on_net_def split: prod.splits)
    show "invar (wdb v') \<and> healthy (wdb v')"
      if op: "on_db (ix_StageClaim (index ds) (flush_maxCount (conf ds)) (PackTargetSize (conf ds)) stageLease) v = (r', v')" for r'
    proof -
      obtain es d' where c: "ix_StageClaim ix (flush_maxCount (conf ds)) (PackTargetSize (conf ds)) stageLease (wdb v) = (Inr es, d')"
        "healthy d'" using claim_live [OF _ _ pos assms(2,3)] v by blast
      then show ?thesis using op assms(1) StageClaim_law [OF conjunct1 [OF v] c(1)] by (auto simp: on_db_def)
    qed
  qed (use assms in auto)
  then show ?thesis by simp
qed

lemma claim_packs_none:
  assumes "index ds = ix" "0 < PackTargetSize (conf ds)" "lease_ok stageLease" "invar (wdb w)" "healthy (wdb w)" "0 < n"
    "claim_packs N ds n w = ([], w')"
  shows "(\<forall>k. \<not> claimable (wdb w') k) \<or> (\<exists>st s. ix_StageStats ix (wdb w') = (Inr st, wdb w') \<and> \<not> fst (ripe N (conf ds) st s))"
proof -
  have pos: "0 < flush_maxCount (conf ds)" by (simp add: flush_maxCount_def quiltMaxPatches_def concatMaxBlocks_def)
  obtain n' where n: "n = Suc n'" using assms(6) by (cases n) auto
  obtain st where st: "ix_StageStats ix (wdb w) = (Inr st, wdb w)" "stCount st = 0 \<longleftrightarrow> (\<forall>k. \<not> claimable (wdb w) k)"
    using stats_live [OF assms(4,5)] by blast
  obtain b s where b: "ripe N (conf ds) st (wnet w) = (b, s)" by fastforce
  obtain es d' where c: "ix_StageClaim ix (flush_maxCount (conf ds)) (PackTargetSize (conf ds)) stageLease (wdb w) = (Inr es, d')"
    "es = [] \<longrightarrow> d' = wdb w \<and> (\<forall>k. \<not> claimable (wdb w) k)" using claim_live [OF assms(4,5) pos assms(2,3)] by blast
  show ?thesis
  proof (cases "stCount st = 0 \<or> \<not> b")
    case True
    then have "wdb w' = wdb w" using assms(1,7) n st(1) b by (auto simp: on_db_def on_net_def split: if_splits bool.splits)
    then show ?thesis using True st b by (metis fst_conv)
  next
    case False
    then have "es = []" "wdb w' = d'"
      using assms(1,7) n st(1) b c(1) by (auto simp: on_db_def on_net_def split: if_splits prod.splits)
    then show ?thesis using c(2) by auto
  qed
qed

lemma flush_round_calm:
  assumes "index ds = ix" "healthy (wdb w)" "flush_round N ds ps w = (r, w')"
  shows "healthy (wdb w')"
  using assms(2,3)
proof (induction ps arbitrary: w r)
  case (Cons p ps)
  obtain x w1 where 1: "flushOnePack N ds p w = (x, w1)" by fastforce
  have "healthy (wdb w1)"
  proof -
    obtain y s1 where u: "uploadPack N ds p (wnet w) = (y, s1)" by fastforce
    obtain z d2 where 2: "(case y of Inl e \<Rightarrow> (Inl e, wdb w) | Inr recs \<Rightarrow> ix_PromoteStaged ix recs (wdb w)) = (z, d2)" by fastforce
    then have "healthy d2" using Cons.prems(1) promote_calm [OF Cons.prems(1)] by (cases y) (auto, metis snd_conv)
    then have "healthy (snd (ix_StageRelease ix (map fst p) d2))" by (rule release_calm)
    moreover have "wdb w1 = d2 \<or> wdb w1 = snd (ix_StageRelease ix (map fst p) d2)"
      using 1 u 2 assms(1) by (cases y; cases z) (auto simp: flushOnePack_def on_net_def on_db_def split: if_splits prod.splits)
    ultimately show ?thesis using \<open>healthy d2\<close> by auto
  qed
  moreover obtain y w2 where 2: "flush_round N ds ps w1 = (y, w2)" by fastforce
  moreover have "w' = w1 \<or> w' = w2" using Cons.prems(2) 1 2 by (auto split: sum.splits if_splits)
  ultimately show ?case using Cons.IH [of w1 y] by auto
qed simp

lemma flushStaged_drains:
  assumes "index ds = ix" "0 < PackTargetSize (conf ds)" "0 < Workers (conf ds)" "lease_ok stageLease"
    "invar (wdb w)" "healthy (wdb w)" "flushStaged N ds sched fuel w = Some (Quiet, w')"
  shows "(\<forall>k. \<not> claimable (wdb w') k) \<or> (\<exists>st s. ix_StageStats ix (wdb w') = (Inr st, wdb w') \<and> \<not> fst (ripe N (conf ds) st s))"
  using assms(5-7)
proof (induction fuel arbitrary: w)
  case (Suc fuel)
  obtain ps w1 where 1: "claim_packs N ds (nat (Workers (conf ds))) w = (ps, w1)" by fastforce
  note c = claim_packs_claimed [OF assms(1) Suc.prems(1) 1]
  have h1: "healthy (wdb w1)" by (rule claim_packs_calm [OF assms(1,2,4) Suc.prems(1,2) 1])
  show ?case
  proof (cases ps)
    case Nil
    then show ?thesis
      using claim_packs_none [OF assms(1,2,4) Suc.prems(1,2), of "nat (Workers (conf ds))" N w1] 1 assms(3) Suc.prems(3) by auto
  next
    case (Cons p qs)
    obtain r w2 where 2: "flush_round N ds (sched ps) w1 = (r, w2)" by fastforce
    then have "flushStaged N ds sched fuel w2 = Some (Quiet, w')"
      using Suc.prems(3) 1 Cons by (auto split: sum.splits bool.splits)
    then show ?thesis
      using Suc.IH flush_round_view [OF assms(1) _ 2] flush_round_calm [OF assms(1) h1 2] c by blast
  qed
qed simp

end

subsection \<open>Properties\<close>

text \<open>
  C5. A flush, whatever fails during it and in whatever order the goroutines of a round run, never changes what
  the store stands for: every key keeps its bytes, in the staging buffer or behind an index row that locates them.
  The staged blocks must not contain the random multipart boundary and must fit in memory.
\<close>

theorem flushStaged_preserves:
  assumes "honest_walrus N (client ds) blobs" and "index ds = postgres_ops p" and "\<forall>ps. mset (sched ps) = mset ps"
    and "stands_for db_inv db_view blobs w m" and "staged_ok N (db_view (wdb w))"
    and "flushStaged N ds sched fuel w = Some (e, w')"
  shows "stands_for db_inv db_view blobs w' m"
  by (rule pgidx.flushStaged_refines [OF assms])


context durable_index
begin

lemma healthy_flushOnePack:
  assumes ds: "index ds = ix" and i: "invar (wdb w)" and h: "healthy (wdb w)"
    and up: "uploadPack N ds es (wnet w) = (Inr recs, s)" and di: "distinct (map fst recs)"
  shows "\<exists>d. flushOnePack N ds es w = (Inr (), w\<lparr>wnet := s, wdb := d\<rparr>) \<and> invar d \<and> healthy d
    \<and> view d = promote_view recs (view (wdb w))"
proof -
  obtain r d where p: "ix_PromoteStaged ix recs (wdb w) = (r, d)" by fastforce
  have "r = Inr ()" "healthy d" using healthy_PromoteStaged [OF i h di] p by simp_all
  then show ?thesis
    using PromoteStaged_law [OF i p] p ds up
    by (intro exI [of _ d]) (simp add: flushOnePack_def on_net_def on_db_def all_or_nothing_ok)
qed

end

lemma release_claimable:
  assumes "db_inv d" "db_healthy d" "es \<noteq> []" "claimed (db_view d) es"
  shows "\<exists>d'. postgresIndex_StageRelease (map fst es) d = (Inr (), d') \<and> db_view d' = db_view d
    \<and> (\<forall>k\<in>fst ` set es. db_claimable d' k)"
proof -
  let ?d' = "d\<lparr>stg := release_rows (map fst es) (stg d)\<rparr>"
  have run: "postgresIndex_StageRelease (map fst es) d = (Inr (), ?d')"
    using assms(2,3) by (simp add: postgresIndex_StageRelease_def exec_healthy)
  have m: "map_of (release_rows ks t) k = map_option (\<lambda>s. if k \<in> set ks then s\<lparr>leased_until := None\<rparr> else s) (map_of t k)" for ks t k
    by (induction t) (auto simp: release_rows_def)
  have "db_view ?d' = db_view d"
    using pgidx.StageRelease_law [OF assms(1), where p = sample_pg and ks = "map fst es" and r = "Inr ()" and d' = ?d'] run
    by (simp add: postgres_ops_def)
  moreover have "db_claimable ?d' k" if "k \<in> fst ` set es" for k
  proof -
    have "map_of (stg d) k \<noteq> None" using that assms(4) by (fastforce simp: claimed_def db_view_def)
    then show ?thesis using that by (auto simp: db_claimable_def m row_claimable_def)
  qed
  ultimately show ?thesis using run by blast
qed


subsection \<open>A staged pack\<close>

definition flush_world :: "(db, string list) world" where
  "flush_world = \<lparr>wdb = \<lparr>tbl = [], stg = [(''/x'', stage_row 10 ''hello''), (''/y'', stage_row 11 [])], db_now = 100, faults = []\<rparr>,
     wcache = newBlobCache 100, wnet = [], flushKick = True\<rparr>"

definition flush_map :: "ds_key \<Rightarrow> bytes option" where
  "flush_map = [''/x'' \<mapsto> ''hello'', ''/y'' \<mapsto> []]"

lemma flush_stands: "stands_for db_inv db_view sim_blobs flush_world flush_map"
  using newBlobCache_ok [of 100]
  by (auto simp: stands_for_def flush_world_def flush_map_def db_inv_def keys_of_def stage_row_def
      implements_def db_view_def)

lemma flush_world_healthy: "db_inv (wdb flush_world)" "db_healthy (wdb flush_world)"
  using flush_stands by (simp_all add: stands_for_def db_healthy_def flush_world_def)

lemma flush_view: "fst (db_view (wdb flush_world)) = flush_map"
  by (auto simp: db_view_def flush_world_def flush_map_def stage_row_def)

lemma flush_claimed: "claimed (db_view (wdb flush_world)) [(''/x'', ''hello''), (''/y'', [])]"
  by (simp add: claimed_def flush_view flush_map_def)

lemma flush_staged_ok: "staged_ok sim_net (db_view (wdb flush_world))"
  unfolding staged_ok_def
proof (intro allI impI)
  fix es assume c: "claimed (db_view (wdb flush_world)) es"
  have kv: "k \<in> {''/x'', ''/y''} \<and> v \<in> {''hello'', []}" if "(k, v) \<in> set es" for k v
    using c that by (fastforce simp: claimed_def flush_view flush_map_def split: if_splits)
  have "length es = card (fst ` set es)" using c by (metis claimed_def distinct_card length_map list.set_map)
  also have "\<dots> \<le> card {''/x'', ''/y''}" by (rule card_mono) (use kv in force)+
  finally have "length es \<le> 2" by simp
  moreover have "\<forall>e\<in>set es. length (snd e) \<le> 5" using kv by force
  then have "length (concat (map snd es)) \<le> 5 * length es" by (induction es) auto
  ultimately have "len64 (concat (map snd es)) < 2 ^ 63" by simp
  moreover have "boundary_free sim_net v" if "v \<in> snd ` set es" for v
    using kv that sim_boundary_free by fastforce
  ultimately show "pack_ok sim_net es" by (simp add: pack_ok_def)
qed


theorem flushStaged_preserves_witness:
  "\<exists>e w'. flushStaged sim_net sample_ds id 3 flush_world = Some (e, w') \<and> stands_for db_inv db_view sim_blobs w' flush_map"
proof -
  have "dom (fst (db_view (wdb flush_world))) = {''/x'', ''/y''}" by (auto simp: flush_view flush_map_def)
  then obtain e w' where f: "flushStaged sim_net sample_ds id 3 flush_world = Some (e, w')"
    using pgflush.flushStaged_ends [OF sample_sel(1) _ flush_world_healthy(1), of id 3 sim_net] by auto
  then show ?thesis
    using flushStaged_preserves [OF sample_honest sample_sel(1) _ flush_stands flush_staged_ok f] by simp
qed


end
