(* ===== verification/Renewal.thy ===== *)
theory Renewal
  imports Datastore
begin

text \<open>
  \<open>src/renewal.go\<close>: the worker that keeps paid storage from running out. One scan asks the index for the blobs that
  expire within the lead time, and for each reads the whole blob, stores the same bytes again and repoints
  the index rows of the blob. Log lines are not part of the model; a panic ends the process.
\<close>

subsection \<open>Renewing one blob\<close>

definition renewBatchSize :: int where "renewBatchSize = 256"

text \<open>The lead time \<open>startRenewalWorker\<close> computes once.\<close>

definition renewal_lead :: "Config \<Rightarrow> duration" where
  "renewal_lead c = (if RenewLead c \<le> 0 then EpochDuration c else RenewLead c)"

definition renewed_expiry :: "'s net \<Rightarrow> int \<Rightarrow> duration \<Rightarrow> 's \<Rightarrow> time option \<times> 's" where
  "renewed_expiry N epochs epochDuration s =
     (if epochDuration > 0 then (case time_Now N s of (t, s') \<Rightarrow> (Some (t + wrap64 (epochs * epochDuration)), s'))
      else (None, s))"

definition renewBlob ::
  "'s net \<Rightarrow> Client \<Rightarrow> 'd Index \<Rightarrow> string \<Rightarrow> int \<Rightarrow> bool \<Rightarrow> duration \<Rightarrow> int \<Rightarrow> ('d, 's) world
     \<Rightarrow> unit res \<times> ('d, 's) world" where
  "renewBlob N cl ix blobID epochs del epochDuration nShards w =
     (case on_net (Client_Read N cl blobID) w of
        (Inl e, w1) \<Rightarrow> (Inl e, w1)
      | (Inr dat, w1) \<Rightarrow>
          (case on_net (Client_Store N cl dat epochs del) w1 of
             (Inl e, w2) \<Rightarrow> (Inl e, w2)
           | (Inr res, w2) \<Rightarrow>
               (let encoded = (if srEncodedSize res \<le> 0 then EncodedBlobLength (len64 dat) nShards else srEncodedSize res)
                in case on_net (renewed_expiry N epochs epochDuration) w2 of
                     (expiresAt, w3) \<Rightarrow>
                       on_db (ix_UpdateBlobAfterRenewal ix blobID (srBlobID res) (srObjectID res) encoded
                                (srCost res) (srEndEpoch res) expiresAt) w3)))"

definition renewOneBlob ::
  "'s net \<Rightarrow> 'd WalrusDatastore \<Rightarrow> RenewItem \<Rightarrow> ('d, 's) world \<Rightarrow> unit res \<times> ('d, 's) world" where
  "renewOneBlob N ds it w =
     renewBlob N (client ds) (index ds) it (Epochs (conf ds)) (Deletable (conf ds)) (EpochDuration (conf ds))
       (NShards (conf ds)) w"

subsection \<open>One scan\<close>

fun renew_loop ::
  "'s net \<Rightarrow> 'd WalrusDatastore \<Rightarrow> RenewItem list \<Rightarrow> ('d, 's) world \<Rightarrow> unit res \<times> ('d, 's) world" where
  "renew_loop N ds [] w = (Inr (), w)"
| "renew_loop N ds (it # its) w =
     (case on_net (ctx_Err N) w of
        (Some e, w1) \<Rightarrow> (Inl e, w1)
      | (None, w1) \<Rightarrow>
          (case renewOneBlob N ds it w1 of
             (Inl e, w2) \<Rightarrow> if is_panic e then (Inl e, w2) else renew_loop N ds its w2
           | (Inr _, w2) \<Rightarrow> renew_loop N ds its w2))"

definition renewExpiring ::
  "'s net \<Rightarrow> 'd WalrusDatastore \<Rightarrow> duration \<Rightarrow> ('d, 's) world \<Rightarrow> unit res \<times> ('d, 's) world" where
  "renewExpiring N ds lead w =
     (case on_net (time_Now N) w of
        (now, w1) \<Rightarrow>
          (case on_db (ix_DueForRenewal (index ds) (now + lead) renewBatchSize) w1 of
             (Inl e, w2) \<Rightarrow> (Inl e, w2)
           | (Inr found, w2) \<Rightarrow> renew_loop N ds found w2))"

subsection \<open>Renewal keeps the store\<close>

lemma implements_renew:
  assumes "implements vw blobs m" "blobs ob = Some dat" "blobs nb = Some dat"
  shows "implements (renew_view ob nb no en c ep ex vw) blobs m"
  unfolding implements_def
proof
  fix k
  have "key_ok blobs (fst vw k) (snd vw k) (m k)" using assms(1) by (simp add: implements_def)
  then show "key_ok blobs (fst (renew_view ob nb no en c ep ex vw) k) (snd (renew_view ob nb no en c ep ex vw) k) (m k)"
    using assms(2,3) by (cases "fst vw k"; cases "snd vw k") (auto simp: renew_view_def rec_ok_def split: if_splits)
qed

lemma renewed_expiry_mono: "immutable N blobs \<Longrightarrow> blobs s \<subseteq>\<^sub>m blobs (snd (renewed_expiry N ep d s))"
proof -
  assume "immutable N blobs"
  then have "blobs s \<subseteq>\<^sub>m blobs (snd (time_Now N s))"
    using immutable_ambient [of N blobs "blobs s"] by (simp add: ambient_def)
  then show ?thesis by (auto simp: renewed_expiry_def split: prod.splits)
qed

context renewable_index
begin

lemma renewBlob_refines:
  assumes hw: "honest_walrus N cl blobs" and st: "stands_for invar view blobs w m"
    and op: "renewBlob N cl ix bid eps del dur n w = (r, w')"
  shows "stands_for invar view blobs w' m \<and> blobs (wnet w) \<subseteq>\<^sub>m blobs (wnet w')
    \<and> (is_ok r \<longrightarrow> (\<exists>dat (res :: StoreResult) en s. blobs (wnet w') bid = Some dat \<and> blobs (wnet w') (srBlobID res) = Some dat
         \<and> view (wdb w') = renew_view bid (srBlobID res) (srObjectID res) en (srCost res) (srEndEpoch res)
             (fst (renewed_expiry N eps dur s)) (view (wdb w))))"
proof -
  have im: "immutable N blobs" and pub: "honest_publisher N blobs" and ag: "honest_aggregator N (aggregators cl) blobs"
    using hw by (auto simp: honest_walrus_def)
  obtain x s1 where 1: "Client_Read N cl bid (wnet w) = (x, s1)" by fastforce
  note r1 = Read_result [OF im ag 1]
  show ?thesis
  proof (cases x)
    case (Inl e)
    then show ?thesis using op 1 r1 stands_for_net [OF st] by (auto simp: renewBlob_def on_net_def)
  next
    case dat: (Inr dat)
    obtain y s2 where 2: "Client_Store N cl dat eps del s1 = (y, s2)" by fastforce
    have mono2: "blobs (wnet w) \<subseteq>\<^sub>m blobs s2" using r1 Store_mono [OF im 2] map_le_trans by blast
    show ?thesis
    proof (cases y)
      case (Inl e)
      then show ?thesis using op 1 2 dat mono2 stands_for_net [OF st] by (auto simp: renewBlob_def on_net_def)
    next
      case (Inr res)
      obtain ex s3 where 3: "renewed_expiry N eps dur s2 = (ex, s3)" by fastforce
      have mono3: "blobs s2 \<subseteq>\<^sub>m blobs s3" using renewed_expiry_mono [OF im, of s2 eps dur] 3 by simp
      have new: "blobs s2 (srBlobID res) = Some dat" using Store_stores [OF im pub] 2 Inr by blast
      have b: "blobs s3 bid = Some dat" "blobs s3 (srBlobID res) = Some dat"
        using r1 dat new mono3 Store_mono [OF im 2] by (metis domI map_le_def)+
      let ?w3 = "w\<lparr>wnet := s3\<rparr>"
      let ?en = "if srEncodedSize res \<le> 0 then EncodedBlobLength (len64 dat) n else srEncodedSize res"
      have st3: "stands_for invar view blobs ?w3 m" using stands_for_net [OF st] mono2 mono3 map_le_trans by blast
      then have i: "invar (wdb ?w3)" and imp: "implements (view (wdb ?w3)) (blobs (wnet ?w3)) m" by (auto simp: stands_for_def)
      have up: "on_db (ix_UpdateBlobAfterRenewal ix bid (srBlobID res) (srObjectID res) ?en (srCost res) (srEndEpoch res) ex) ?w3 = (r, w')"
        using op 1 2 3 dat Inr by (simp add: renewBlob_def on_net_def Let_def)
      have "outcome (stands_for invar view blobs) r w' m m"
        using stands_for_change [OF st3 up UpdateBlob_law [OF i] implements_renew [OF imp]] b by simp
      then have A: "stands_for invar view blobs w' m" by (simp add: outcome_def split: if_splits)
      obtain d' where d': "ix_UpdateBlobAfterRenewal ix bid (srBlobID res) (srObjectID res) ?en (srCost res) (srEndEpoch res) ex (wdb w) = (r, d')"
        "w' = w\<lparr>wnet := s3, wdb := d'\<rparr>" using up by (auto simp: on_db_def split: prod.splits)
      have C: "view (wdb w') = renew_view bid (srBlobID res) (srObjectID res) ?en (srCost res) (srEndEpoch res)
          (fst (renewed_expiry N eps dur s2)) (view (wdb w))" if "is_ok r"
        using UpdateBlob_law [OF _ d'(1)] i that d'(2) 3 by (cases r) (simp_all add: all_or_nothing_def)
      have net: "wnet w' = s3" using d'(2) by simp
      have "blobs (wnet w) \<subseteq>\<^sub>m blobs (wnet w')" unfolding net using mono2 mono3 by (rule map_le_trans)
      then show ?thesis using A b [folded net] C
        by (intro conjI impI exI [of _ dat] exI [of _ res] exI [of _ ?en] exI [of _ s2]) assumption+
    qed
  qed
qed

end

context renewable_index
begin

lemma renew_loop_refines:
  assumes hw: "honest_walrus N (client ds) blobs" and ds: "index ds = ix" and "stands_for invar view blobs w m"
    and "renew_loop N ds its w = (r, w')"
  shows "stands_for invar view blobs w' m"
  using assms(3,4)
proof (induction its arbitrary: w)
  case (Cons it its)
  have im: "immutable N blobs" using hw by (simp add: honest_walrus_def)
  obtain e s1 where 1: "ctx_Err N (wnet w) = (e, s1)" by fastforce
  have "blobs (wnet w) \<subseteq>\<^sub>m blobs s1"
    using immutable_ambient [OF im, of "blobs (wnet w)"] 1 by (metis ambient_def map_le_refl snd_conv)
  then have st1: "stands_for invar view blobs (w\<lparr>wnet := s1\<rparr>) m" by (rule stands_for_net [OF Cons.prems(1)])
  obtain x w2 where 2: "renewOneBlob N ds it (w\<lparr>wnet := s1\<rparr>) = (x, w2)" by fastforce
  have st2: "stands_for invar view blobs w2 m"
    using renewBlob_refines [OF hw st1] 2 ds unfolding renewOneBlob_def by blast
  then show ?case
    using Cons 1 2 st1 by (cases e; cases x) (auto simp: on_net_def split: if_splits)
qed simp

lemma renewExpiring_refines:
  assumes hw: "honest_walrus N (client ds) blobs" and ds: "index ds = ix" and st: "stands_for invar view blobs w m"
    and op: "renewExpiring N ds lead w = (r, w')"
  shows "stands_for invar view blobs w' m"
proof -
  have im: "immutable N blobs" using hw by (simp add: honest_walrus_def)
  obtain t s1 where 1: "time_Now N (wnet w) = (t, s1)" by fastforce
  have "blobs (wnet w) \<subseteq>\<^sub>m blobs s1"
    using immutable_ambient [OF im, of "blobs (wnet w)"] 1 by (metis ambient_def map_le_refl snd_conv)
  then have st1: "stands_for invar view blobs (w\<lparr>wnet := s1\<rparr>) m" by (rule stands_for_net [OF st])
  obtain f d where 2: "ix_DueForRenewal ix (t + lead) renewBatchSize (wdb w) = (f, d)" by fastforce
  have "invar d \<and> view d = view (wdb w)" using DueForRenewal_law [OF _ 2] st by (simp add: stands_for_def)
  then have st2: "stands_for invar view blobs (w\<lparr>wnet := s1, wdb := d\<rparr>) m"
    using stands_for_db [OF st1, of d m] st1 by (simp add: stands_for_def)
  show ?thesis
    using op 1 2 ds st2 renew_loop_refines [OF hw ds st2]
    by (cases f) (auto simp: renewExpiring_def on_net_def on_db_def)
qed

end

subsection \<open>Properties\<close>


text \<open>
  C14. A renewal scan never changes what the store stands for, whichever blobs it reaches and whatever fails on the way.
\<close>

theorem renewExpiring_preserves:
  assumes "honest_walrus N (client ds) blobs" and "index ds = postgres_ops p"
    and "stands_for db_inv db_view blobs w m" and "renewExpiring N ds (renewal_lead (conf ds)) w = (r, w')"
  shows "stands_for db_inv db_view blobs w' m"
  by (rule pgren.renewExpiring_refines [OF assms])

subsection \<open>An expiring blob\<close>

definition renew_world :: "(db, string list) world" where
  "renew_world = \<lparr>wdb = \<lparr>tbl = [(''/b'', row_of_rec 0 (hello_rec\<lparr>rExpiresAt := Some 50\<rparr>))], stg = [], db_now = 100, faults = []\<rparr>,
     wcache = newBlobCache 100, wnet = [''B1''], flushKick = False\<rparr>"

lemma renew_stands: "stands_for db_inv db_view sim_blobs renew_world [''/b'' \<mapsto> ''hello'']"
  using newBlobCache_ok [of 100]
  by (auto simp: stands_for_def renew_world_def db_inv_def keys_of_def implements_def db_view_def
      rec_ok_def hello_rec_def sim_blobs_def sim_objects_def)

lemma sim_Read_again: "Client_Read sim_net (sample_client 3) ''B1'' [''B1''] = (Inr ''hello'', [''B1''])"
  by code_simp

lemma sim_Store_again: "Client_Store sim_net (sample_client 3) ''hello'' 1 False [''B1''] =
  (Inr \<lparr>srBlobID = ''B1'', srObjectID = ''0x1'', srEndEpoch = 9, srEncodedSize = 0, srCost = 7\<rparr>, [''B1'', ''B1''])"
  by code_simp

lemma renew_run: "\<exists>w'. renewBlob sim_net (sample_client 3) (postgres_ops sample_pg) ''B1'' 1 False 70 1000 renew_world = (Inr (), w')"
  by (simp add: renewBlob_def on_net_def on_db_def renew_world_def sim_Read_again sim_Store_again renewed_expiry_def
      postgres_ops_def postgresIndex_UpdateBlobAfterRenewal_def exec_healthy db_healthy_def)


theorem renewExpiring_preserves_witness:
  "\<exists>r w'. renewExpiring sim_net sample_ds (renewal_lead sample_conf) renew_world = (r, w')
     \<and> stands_for db_inv db_view sim_blobs w' [''/b'' \<mapsto> ''hello'']"
proof -
  obtain r w' where "renewExpiring sim_net sample_ds (renewal_lead sample_conf) renew_world = (r, w')" by fastforce
  then show ?thesis
    using renewExpiring_preserves [OF sample_honest sample_sel(1) renew_stands] by simp
qed

end
