(* ===== verification/Plugin.thy ===== *)
theory Plugin
  imports Datastore Complex_Main
begin

text \<open>
  \<open>src/plugin/walrusds.go\<close>: the Kubo plugin that turns a datastore section of the repo configuration into a
  \<open>Config\<close>. The section is a Go \<open>map[string]interface{}\<close> decoded from JSON: its values are strings, numbers,
  booleans or something else. A finite \<open>float64\<close> is the rational number it denotes (the sign of zero is lost);
  Go's conversions between \<open>float64\<close> and \<open>int\<close> are the parameter \<open>F\<close>, since the language leaves those outside the
  range of \<open>int\<close> to the platform.
\<close>

subsection \<open>Values and conversions\<close>

datatype iface = IString string | IFloat rat | IBool bool | IOther

type_synonym spec = "string \<Rightarrow> iface option"

record conversions =
  float_to_int :: "rat \<Rightarrow> int"
  int_to_float :: "int \<Rightarrow> rat"

definition trunc_rat :: "rat \<Rightarrow> int" where
  "trunc_rat f = (if 0 \<le> f then \<lfloor>f\<rfloor> else \<lceil>f\<rceil>)"

text \<open>What the Go specification fixes: truncation within the range of \<open>int\<close>, and exact floats up to 2^53.\<close>

definition go_conversions :: "conversions \<Rightarrow> bool" where
  "go_conversions F \<longleftrightarrow>
     (\<forall>f. \<bar>f\<bar> < 2 ^ 63 \<longrightarrow> float_to_int F f = trunc_rat f) \<and> (\<forall>n. \<bar>n\<bar> \<le> 2 ^ 53 \<longrightarrow> int_to_float F n = of_int n)"

text \<open>\<open>fmt\<close>'s \<open>%f\<close>: six decimals, rounded to the nearest, ties to even.\<close>

definition round_even :: "rat \<Rightarrow> int" where
  "round_even x =
     (let n = \<lfloor>x\<rfloor>; r = x - of_int n
      in if r < 1 / 2 then n else if 1 / 2 < r then n + 1 else if even n then n else n + 1)"

definition format_f :: "rat \<Rightarrow> string" where
  "format_f f =
     (let n = nat (round_even (\<bar>f\<bar> * 1000000)); frac = nat_digits (n mod 1000000)
      in (if f < 0 then ''-'' else []) @ nat_digits (n div 1000000) @ ''.'' @ replicate (6 - length frac) (CHR ''0'') @ frac)"

subsection \<open>Reading the configuration\<close>

definition requiredString :: "spec \<Rightarrow> string \<Rightarrow> string res" where
  "requiredString m key =
     (case m key of
        Some (IString v) \<Rightarrow> if v = [] then Inl (Errorf ''walrusds: no %s specified'' [AStr key]) else Inr v
      | _ \<Rightarrow> Inl (Errorf ''walrusds: no %s specified'' [AStr key]))"

definition optionalPositiveInt :: "conversions \<Rightarrow> spec \<Rightarrow> string \<Rightarrow> int res" where
  "optionalPositiveInt F m key =
     (case m key of
        None \<Rightarrow> Inr 0
      | Some (IFloat f) \<Rightarrow>
          (let n = float_to_int F f
           in if n \<le> 0 then Inl (Errorf ''walrusds: %s <= 0: %f'' [AStr key, AStr (format_f f)])
              else if int_to_float F n \<noteq> f
              then Inl (Errorf ''walrusds: %s is not an integer: %f'' [AStr key, AStr (format_f f)])
              else Inr n)
      | Some _ \<Rightarrow> Inl (Errorf ''walrusds: %s not a number'' [AStr key]))"

definition splitURLs :: "string \<Rightarrow> string list" where
  "splitURLs s = filter (\<lambda>p. p \<noteq> []) (map TrimSpace (split_at (CHR '','') s))"

text \<open>The value of an optional string or boolean key, with its zero value when it is missing.\<close>

definition optional_string :: "spec \<Rightarrow> string \<Rightarrow> string \<Rightarrow> string res" where
  "optional_string m key msg =
     (case m key of None \<Rightarrow> Inr [] | Some (IString s) \<Rightarrow> Inr s | Some _ \<Rightarrow> Inl (Errorf msg []))"

definition optional_bool :: "spec \<Rightarrow> string \<Rightarrow> string \<Rightarrow> bool res" where
  "optional_bool m key msg =
     (case m key of None \<Rightarrow> Inr False | Some (IBool b) \<Rightarrow> Inr b | Some _ \<Rightarrow> Inl (Errorf msg []))"

text \<open>\<open>if x, err = f(); err != nil { return nil, err }\<close>, and \<open>time.Duration(secs) * time.Second\<close>.\<close>

definition or_return :: "'a res \<Rightarrow> ('a \<Rightarrow> 'b res) \<Rightarrow> 'b res" where
  "or_return r k = (case r of Inl e \<Rightarrow> Inl e | Inr a \<Rightarrow> k a)"

definition seconds :: "int \<Rightarrow> duration" where
  "seconds n = wrap64 (n * Second)"

definition DatastoreConfigParser :: "conversions \<Rightarrow> spec \<Rightarrow> Config res" where
  "DatastoreConfigParser F m =
     or_return (requiredString m ''publisherURL'') (\<lambda>publisher.
     or_return (requiredString m ''aggregatorURL'') (\<lambda>aggregator.
     or_return (requiredString m ''postgresURL'') (\<lambda>postgres.
     or_return (optional_string m ''table'' ''walrusds: table not a string'') (\<lambda>tab.
     or_return (optional_bool m ''deletable'' ''walrusds: deletable not a boolean'') (\<lambda>del.
     or_return (optional_bool m ''disableQuilt'' ''walrusds: disableQuilt not a boolean'') (\<lambda>noquilt.
     or_return (optionalPositiveInt F m ''epochs'') (\<lambda>epochs.
     or_return (optionalPositiveInt F m ''nShards'') (\<lambda>nShards.
     or_return (optionalPositiveInt F m ''workers'') (\<lambda>workers.
     or_return (optionalPositiveInt F m ''maxOpenConns'') (\<lambda>conns.
     or_return (optionalPositiveInt F m ''maxRetries'') (\<lambda>retries.
     or_return (optionalPositiveInt F m ''packTargetSizeBytes'') (\<lambda>packBytes.
     or_return (optionalPositiveInt F m ''packMaxAgeSeconds'') (\<lambda>packAge.
     or_return (optionalPositiveInt F m ''packIdleFlushSeconds'') (\<lambda>packIdle.
     or_return (optionalPositiveInt F m ''packFlushIntervalSeconds'') (\<lambda>packFlush.
     or_return (optionalPositiveInt F m ''blobCacheBytes'') (\<lambda>cache.
     or_return (optionalPositiveInt F m ''requestTimeoutSeconds'') (\<lambda>tmo.
     or_return (optionalPositiveInt F m ''epochDurationSeconds'') (\<lambda>epochSecs.
     or_return (optionalPositiveInt F m ''renewIntervalSeconds'') (\<lambda>renewSecs.
     or_return (optionalPositiveInt F m ''renewLeadSeconds'') (\<lambda>leadSecs.
       Inr \<lparr>PublisherURLs = splitURLs publisher, AggregatorURLs = splitURLs aggregator, PostgresURL = postgres,
            Table = tab, Epochs = epochs, NShards = nShards, Deletable = del, Workers = workers,
            MaxOpenConns = conns, PackTargetSize = packBytes, DisableQuilt = noquilt, PackMaxAge = seconds packAge,
            PackIdleFlush = seconds packIdle, PackFlushInterval = seconds packFlush, BlobCacheBytes = cache,
            RequestTimeout = seconds tmo, MaxRetries = retries, EpochDuration = seconds epochSecs,
            RenewInterval = seconds renewSecs, RenewLead = seconds leadSecs\<rparr>))))))))))))))))))))"

definition DiskSpec :: "Config \<Rightarrow> string \<Rightarrow> string option" where
  "DiskSpec c =
     [''publisherURL'' \<mapsto> join_with '','' (PublisherURLs c),
      ''aggregatorURL'' \<mapsto> join_with '','' (AggregatorURLs c),
      ''table'' \<mapsto> (if Table c = [] then ''walrus_index'' else Table c)]"

definition plugin_Create ::
  "(string \<Rightarrow> string \<Rightarrow> int \<Rightarrow> 'd Index res) \<Rightarrow> Config \<Rightarrow> string \<Rightarrow> 'd started res" where
  "plugin_Create open_index c path = NewWalrusDatastore open_index c"

definition plugin_Name :: string where "plugin_Name = ''walrus-datastore-plugin''"
definition plugin_Version :: string where "plugin_Version = ''0.6.0''"
definition DatastoreTypeName :: string where "DatastoreTypeName = ''walrusds''"


subsection \<open>Trimming and splitting\<close>

lemma trim_front_suffix: "\<exists>p. s = p @ trim_front ps s"
proof (induction ps s rule: trim_front.induct)
  case (1 ps s)
  show ?case
  proof (cases "find (\<lambda>p. p \<noteq> [] \<and> starts_with p s) ps")
    case None
    then show ?thesis by (simp add: trim_front.simps)
  next
    case (Some q)
    then obtain p where "drop (length q) s = p @ trim_front ps (drop (length q) s)" using 1 by blast
    then have "s = (take (length q) s @ p) @ trim_front ps (drop (length q) s)" by (metis append.assoc append_take_drop_id)
    moreover have "trim_front ps s = trim_front ps (drop (length q) s)" using Some by (simp add: trim_front.simps [of ps s])
    ultimately show ?thesis by metis
  qed
qed

lemma trim_front_id: "\<forall>p\<in>set ps. p \<noteq> [] \<longrightarrow> \<not> starts_with p s \<Longrightarrow> trim_front ps s = s"
  by (subst trim_front.simps) (auto split: option.splits simp: find_Some_iff)

lemma starts_with_append2: "take (length p) xs = p \<Longrightarrow> take (length p) (xs @ ys) = p"
  by (metis append_take_drop_id append_assoc append_eq_conv_conj)

lemma TrimSpace_set: "set (TrimSpace s) \<subseteq> set s"
proof -
  obtain p where p: "s = p @ trim_front space_runes s" using trim_front_suffix by blast
  obtain q where q: "rev (trim_front space_runes s) = q @ trim_front (map rev space_runes) (rev (trim_front space_runes s))"
    using trim_front_suffix by blast
  have "set (TrimSpace s) \<subseteq> set (trim_front space_runes s)"
    unfolding TrimSpace_def by (metis q set_append set_rev Un_upper2)
  also have "\<dots> \<subseteq> set s" by (metis p set_append Un_upper2)
  finally show ?thesis .
qed

lemma TrimSpace_idem [simp]: "TrimSpace (TrimSpace s) = TrimSpace s"
proof -
  define a where "a = trim_front space_runes s"
  define b where "b = trim_front (map rev space_runes) (rev a)"
  obtain q where "rev a = q @ b" unfolding b_def using trim_front_suffix by blast
  then have a: "a = rev b @ rev q" by (metis rev_append rev_rev_ident)
  have "\<not> starts_with p (rev b)" if p: "p \<in> set space_runes" "p \<noteq> []" for p
  proof
    assume "starts_with p (rev b)"
    then have "take (length p) a = p" unfolding a starts_with_def by (rule starts_with_append2)
    then show False using trim_front_none [OF refl p, of s] by (simp add: starts_with_def a_def)
  qed
  then have "trim_front space_runes (rev b) = rev b" by (intro trim_front_id) auto
  moreover have "trim_front (map rev space_runes) b = b"
    by (intro trim_front_id ballI impI) (simp add: b_def trim_front_none)
  ultimately show ?thesis by (simp add: TrimSpace_def flip: a_def b_def)
qed

lemma splitURLs_join: "splitURLs (join_with '','' (splitURLs s)) = splitURLs s"
proof (cases "splitURLs s = []")
  case True
  have "TrimSpace [] = []" by code_simp
  then show ?thesis using True by (simp add: splitURLs_def)
next
  case False
  have "CHR '','' \<notin> set u \<and> u \<noteq> [] \<and> TrimSpace u = u" if "u \<in> set (splitURLs s)" for u
    using that split_at_no_sep [of _ "CHR '',''" s] TrimSpace_set by (fastforce simp: splitURLs_def)
  then have "map TrimSpace (splitURLs s) = splitURLs s" "filter (\<lambda>p. p \<noteq> []) (splitURLs s) = splitURLs s"
    "\<forall>u\<in>set (splitURLs s). CHR '','' \<notin> set u" by (auto intro: map_idI filter_True)
  then show ?thesis using split_join [OF False, of "CHR '',''"] by (simp add: splitURLs_def [of "join_with _ _"])
qed

subsection \<open>Properties\<close>

text \<open>
  C40. An optional number, for every float the format can hold exactly as an integer: missing keys give 0, a value
  below 1 and a value with a fractional part are refused with their own errors, every other value is returned
  as the integer it is; a value of another type is refused.
\<close>

theorem optionalPositiveInt_spec:
  assumes "go_conversions F" and "\<forall>f. m key = Some (IFloat f) \<longrightarrow> \<bar>f\<bar> \<le> 2 ^ 53"
  shows "optionalPositiveInt F m key =
    (case m key of
       None \<Rightarrow> Inr 0
     | Some (IFloat f) \<Rightarrow>
         if f < 1 then Inl (Errorf ''walrusds: %s <= 0: %f'' [AStr key, AStr (format_f f)])
         else if f \<in> \<int> then Inr \<lfloor>f\<rfloor>
         else Inl (Errorf ''walrusds: %s is not an integer: %f'' [AStr key, AStr (format_f f)])
     | Some _ \<Rightarrow> Inl (Errorf ''walrusds: %s not a number'' [AStr key]))"
proof (cases "\<exists>f. m key = Some (IFloat f)")
  case False
  then show ?thesis by (auto simp: optionalPositiveInt_def split: option.splits iface.splits)
next
  case True
  then obtain f where f: "m key = Some (IFloat f)" by blast
  have b: "\<bar>f\<bar> \<le> 2 ^ 53" using assms(2) f by blast
  then have tr: "float_to_int F f = trunc_rat f" using assms(1) by (simp add: go_conversions_def)
  have neg: "trunc_rat f \<le> 0 \<longleftrightarrow> f < 1" by (auto simp: trunc_rat_def floor_le_iff ceiling_le_iff)
  show ?thesis
  proof (cases "f < 1")
    case True
    then show ?thesis using f tr neg by (simp add: optionalPositiveInt_def)
  next
    case False
    then have n: "trunc_rat f = \<lfloor>f\<rfloor>" by (simp add: trunc_rat_def)
    have "0 \<le> \<lfloor>f\<rfloor>" "\<lfloor>f\<rfloor> \<le> 2 ^ 53" using False b by (simp_all add: floor_le_iff)
    then have "int_to_float F \<lfloor>f\<rfloor> = of_int \<lfloor>f\<rfloor>" using assms(1) by (simp add: go_conversions_def)
    then show ?thesis using f tr neg n False by (auto simp: optionalPositiveInt_def elim: Ints_cases)
  qed
qed

definition exact_conversions :: conversions where
  "exact_conversions = \<lparr>float_to_int = trunc_rat, int_to_float = of_int\<rparr>"

lemma exact_conversions_ok: "go_conversions exact_conversions"
  by (simp add: go_conversions_def exact_conversions_def)

theorem optionalPositiveInt_spec_witness:
  "optionalPositiveInt exact_conversions [''epochs'' \<mapsto> IFloat 5] ''epochs'' = Inr 5
   \<and> optionalPositiveInt exact_conversions [''epochs'' \<mapsto> IFloat (5 / 2)] ''epochs''
       = Inl (Errorf ''walrusds: %s is not an integer: %f'' [AStr ''epochs'', AStr ''2.500000''])"
proof -
  have "format_f (5 / 2) = ''2.500000''" by code_simp
  moreover have "(5 / 2 :: rat) \<notin> \<int>"
  proof
    assume "(5 / 2 :: rat) \<in> \<int>"
    then obtain z :: int where "(5 / 2 :: rat) = of_int z" by (auto elim: Ints_cases)
    then have "(5 :: rat) = of_int (2 * z)" by simp
    then have "(5 :: int) = 2 * z" by (metis of_int_eq_iff of_int_numeral)
    then show False by presburger
  qed
  ultimately show ?thesis
    using optionalPositiveInt_spec [OF exact_conversions_ok, of "[''epochs'' \<mapsto> IFloat 5]" "''epochs''"]
      optionalPositiveInt_spec [OF exact_conversions_ok, of "[''epochs'' \<mapsto> IFloat (5 / 2)]" "''epochs''"] by simp
qed

lemma or_return_Inr: "or_return r k = Inr c \<longleftrightarrow> (\<exists>a. r = Inr a \<and> k a = Inr c)"
  by (auto simp: or_return_def split: sum.splits)

lemma join_with_nonempty: "us \<noteq> [] \<Longrightarrow> \<forall>u\<in>set us. u \<noteq> [] \<Longrightarrow> join_with sep us \<noteq> []"
  by (induction sep us rule: join_with.induct) auto

lemma splitURLs_nonempty: "u \<in> set (splitURLs s) \<Longrightarrow> u \<noteq> []"
  by (simp add: splitURLs_def)

text \<open>
  C39. The disk specification is stable: replacing the two URL lists and the table of a parsed section by the values
  the specification reports for them gives a section that parses to the same configuration, up to the table
  name being spelled out, with the same specification. The specification carries these three keys only.
\<close>

theorem DiskSpec_stable:
  assumes "DatastoreConfigParser F m = Inr c" and "PublisherURLs c \<noteq> []" and "AggregatorURLs c \<noteq> []"
  shows "DatastoreConfigParser F (m ++ (map_option IString \<circ> DiskSpec c))
      = Inr (c\<lparr>Table := (if Table c = [] then ''walrus_index'' else Table c)\<rparr>)
    \<and> DiskSpec (c\<lparr>Table := (if Table c = [] then ''walrus_index'' else Table c)\<rparr>) = DiskSpec c
    \<and> dom (DiskSpec c) = {''publisherURL'', ''aggregatorURL'', ''table''}"
proof -
  let ?d = "map_option IString \<circ> DiskSpec c"
  obtain ps as where urls: "PublisherURLs c = splitURLs ps" "AggregatorURLs c = splitURLs as"
    using assms(1) unfolding DatastoreConfigParser_def or_return_Inr by (elim exE conjE) auto
  have req: "requiredString (m ++ ?d) ''publisherURL'' = Inr (join_with '','' (PublisherURLs c))"
    "requiredString (m ++ ?d) ''aggregatorURL'' = Inr (join_with '','' (AggregatorURLs c))"
    using join_with_nonempty [OF assms(2)] join_with_nonempty [OF assms(3)] splitURLs_nonempty
    by (auto simp: requiredString_def DiskSpec_def map_add_def urls)
  have again: "splitURLs (join_with '','' (PublisherURLs c)) = PublisherURLs c"
    "splitURLs (join_with '','' (AggregatorURLs c)) = AggregatorURLs c" by (simp_all add: urls splitURLs_join)
  have tab: "optional_string (m ++ ?d) ''table'' msg = Inr (if Table c = [] then ''walrus_index'' else Table c)" for msg
    by (simp add: optional_string_def DiskSpec_def map_add_def)
  have other: "(m ++ ?d) key = m key" if "key \<notin> {''publisherURL'', ''aggregatorURL'', ''table''}" for key
    using that by (simp add: DiskSpec_def map_add_def)
  have pg: "requiredString (m ++ ?d) ''postgresURL'' = requiredString m ''postgresURL''"
    and bools: "optional_bool (m ++ ?d) ''deletable'' msg = optional_bool m ''deletable'' msg"
      "optional_bool (m ++ ?d) ''disableQuilt'' msg = optional_bool m ''disableQuilt'' msg" for msg
    by (simp_all add: requiredString_def optional_bool_def other)
  have ints: "optionalPositiveInt F (m ++ ?d) key = optionalPositiveInt F m key"
    if "key \<notin> {''publisherURL'', ''aggregatorURL'', ''table''}" for key
    by (simp only: optionalPositiveInt_def other [OF that])
  have "DatastoreConfigParser F (m ++ ?d) = Inr (c\<lparr>Table := (if Table c = [] then ''walrus_index'' else Table c)\<rparr>)"
    using assms(1) unfolding DatastoreConfigParser_def or_return_Inr
    by (elim exE conjE) (auto simp add: req again tab pg bools ints)
  moreover have "dom (DiskSpec c) = {''publisherURL'', ''aggregatorURL'', ''table''}" by (auto simp: DiskSpec_def)
  ultimately show ?thesis by (simp add: DiskSpec_def)
qed

definition minimal_spec :: spec where
  "minimal_spec = [''publisherURL'' \<mapsto> IString ''http://p, http://q'', ''aggregatorURL'' \<mapsto> IString ''http://a'',
     ''postgresURL'' \<mapsto> IString ''pg'']"

lemma minimal_parsed: "\<exists>c. DatastoreConfigParser F minimal_spec = Inr c \<and> PublisherURLs c = [''http://p'', ''http://q'']
    \<and> AggregatorURLs c = [''http://a''] \<and> Table c = []"
proof -
  have "splitURLs ''http://p, http://q'' = [''http://p'', ''http://q'']" "splitURLs ''http://a'' = [''http://a'']"
    by code_simp+
  then show ?thesis
    by (simp add: DatastoreConfigParser_def or_return_def minimal_spec_def requiredString_def optional_string_def
        optional_bool_def optionalPositiveInt_def)
qed

theorem DiskSpec_stable_witness:
  "\<exists>c. DatastoreConfigParser exact_conversions minimal_spec = Inr c
     \<and> DatastoreConfigParser exact_conversions (minimal_spec ++ (map_option IString \<circ> DiskSpec c))
         = Inr (c\<lparr>Table := ''walrus_index''\<rparr>)"
proof -
  obtain c where c: "DatastoreConfigParser exact_conversions minimal_spec = Inr c"
    "PublisherURLs c = [''http://p'', ''http://q'']" "AggregatorURLs c = [''http://a'']" "Table c = []"
    using minimal_parsed by blast
  then show ?thesis using DiskSpec_stable [OF c(1)] by auto
qed

text \<open>
  The configuration of a section that gives the required keys only, with the package defaults applied: every
  knob has its documented default except the retry count, which stays 0 because the parser reports a missing
  number as 0 and only a negative retry count is defaulted. A datastore is created exactly when both URL lists
  name at least one URL and the index opens.
\<close>

theorem plugin_defaults:
  assumes "DatastoreConfigParser F m = Inr c"
    and "\<forall>key. key \<notin> {''publisherURL'', ''aggregatorURL'', ''postgresURL''} \<longrightarrow> m key = None"
  shows "(let d = with_defaults c
      in Epochs d = 1 \<and> NShards d = 1000 \<and> \<not> Deletable d \<and> Workers d = 16 \<and> MaxOpenConns d = 32
         \<and> PackTargetSize d = 268435456 \<and> \<not> DisableQuilt d \<and> PackMaxAge d = seconds 300 \<and> PackIdleFlush d = seconds 30
         \<and> PackFlushInterval d = seconds 5 \<and> cacheBytes d = 1073741824 \<and> RequestTimeout d = seconds 60
         \<and> EpochDuration d = 0 \<and> RenewInterval d = 0 \<and> MaxRetries d = 0 \<and> defaultMaxRetries = 3)
    \<and> (is_ok (plugin_Create open_index c path) \<longleftrightarrow> PublisherURLs c \<noteq> [] \<and> AggregatorURLs c \<noteq> []
         \<and> is_ok (open_index (PostgresURL c) [] 32))"
proof -
  have none: "m key = None" if "key \<notin> {''publisherURL'', ''aggregatorURL'', ''postgresURL''}" for key
    using assms(2) that by blast
  have ints: "optionalPositiveInt F m key = Inr 0" if "key \<notin> {''publisherURL'', ''aggregatorURL'', ''postgresURL''}" for key
    using none [OF that] by (simp add: optionalPositiveInt_def)
  have rest: "optional_string m ''table'' msg = Inr []" "optional_bool m ''deletable'' msg = Inr False"
    "optional_bool m ''disableQuilt'' msg = Inr False" for msg
    by (simp_all add: optional_string_def optional_bool_def none)
  obtain pu au pu' where c: "c = \<lparr>PublisherURLs = pu, AggregatorURLs = au, PostgresURL = pu', Table = [], Epochs = 0,
       NShards = 0, Deletable = False, Workers = 0, MaxOpenConns = 0, PackTargetSize = 0, DisableQuilt = False,
       PackMaxAge = seconds 0, PackIdleFlush = seconds 0, PackFlushInterval = seconds 0, BlobCacheBytes = 0,
       RequestTimeout = seconds 0, MaxRetries = 0, EpochDuration = seconds 0, RenewInterval = seconds 0,
       RenewLead = seconds 0\<rparr>" and pu': "pu' \<noteq> []"
    using assms(1) unfolding DatastoreConfigParser_def or_return_Inr
    by (elim exE conjE) (simp add: ints rest, auto simp: requiredString_def split: option.splits iface.splits if_splits)
  have s0: "seconds 0 = 0" by (simp add: seconds_def wrap64_small)
  have 1: "let d = with_defaults c
      in Epochs d = 1 \<and> NShards d = 1000 \<and> \<not> Deletable d \<and> Workers d = 16 \<and> MaxOpenConns d = 32
         \<and> PackTargetSize d = 268435456 \<and> \<not> DisableQuilt d \<and> PackMaxAge d = seconds 300 \<and> PackIdleFlush d = seconds 30
         \<and> PackFlushInterval d = seconds 5 \<and> cacheBytes d = 1073741824 \<and> RequestTimeout d = seconds 60
         \<and> EpochDuration d = 0 \<and> RenewInterval d = 0 \<and> MaxRetries d = 0 \<and> defaultMaxRetries = 3"
    by (simp add: c s0 with_defaults_def positive_or_def default_values cacheBytes_def defaultBlobCacheBytes_def
        seconds_def wrap64_small)
  have "is_ok (plugin_Create open_index c path) \<longleftrightarrow> PublisherURLs c \<noteq> [] \<and> AggregatorURLs c \<noteq> []
         \<and> is_ok (open_index (PostgresURL c) [] 32)"
    using pu' by (auto simp: plugin_Create_def NewWalrusDatastore_def c with_defaults_def positive_or_def
        defaultMaxOpenConns_def Let_def split: sum.splits prod.splits)
  with 1 show ?thesis by blast
qed

theorem plugin_defaults_witness:
  "\<exists>c. DatastoreConfigParser exact_conversions minimal_spec = Inr c \<and> MaxRetries (with_defaults c) = 0
     \<and> Workers (with_defaults c) = 16"
proof -
  obtain c where c: "DatastoreConfigParser exact_conversions minimal_spec = Inr c" using minimal_parsed by blast
  then show ?thesis using plugin_defaults [OF c, of "\<lambda>_ _ _. Inr (postgres_ops sample_pg)" "[]"] by (simp add: minimal_spec_def Let_def)
qed

end
