(* ===== verification/Migration.thy ===== *)
theory Migration
  imports Datastore
begin

text \<open>
  Opening the index (\<open>src/index.go\<close>, lines 157 to 246): \<open>newPostgresIndex\<close> with its defaults and pool settings, and
  \<open>migrate\<close>, whose statements run against a catalog of tables, their columns and rows, and indexes. The connection
  (\<open>sql.Open\<close>, \<open>Ping\<close>) is a parameter, and each statement may fail before or after it took effect.
\<close>

subsection \<open>The catalog\<close>

datatype cell = CText string | CInt int | CBool bool | CNow | CNull

record column =
  cname :: string
  ctype :: string
  notnull :: bool
  cdefault :: "cell option"

record pgtable =
  columns :: "column list"
  rows :: "(string \<times> cell) list list"

record catalog =
  tables :: "string \<Rightarrow> pgtable option"
  indexes :: "string \<Rightarrow> (string \<times> string) option"

datatype ddl =
    CreateTable string "column list"
  | AddColumn string column
  | CreateIndex string string string

text \<open>
  \<open>CREATE TABLE IF NOT EXISTS\<close>, \<open>ALTER TABLE ... ADD COLUMN IF NOT EXISTS\<close> (which fills the existing rows with the
  default) and \<open>CREATE INDEX IF NOT EXISTS name ON table (column)\<close>.
\<close>

definition has_column :: "pgtable \<Rightarrow> string \<Rightarrow> bool" where
  "has_column t c \<longleftrightarrow> c \<in> cname ` set (columns t)"

definition add_column :: "column \<Rightarrow> pgtable \<Rightarrow> pgtable" where
  "add_column c t = t\<lparr>columns := columns t @ [c],
     rows := map (\<lambda>r. r @ [(cname c, case cdefault c of None \<Rightarrow> CNull | Some v \<Rightarrow> v)]) (rows t)\<rparr>"

fun exec_ddl :: "ddl \<Rightarrow> catalog \<Rightarrow> catalog res" where
  "exec_ddl (CreateTable n cs) k =
     Inr (if tables k n = None then k\<lparr>tables := (tables k)(n \<mapsto> \<lparr>columns = cs, rows = []\<rparr>)\<rparr> else k)"
| "exec_ddl (AddColumn n c) k =
     (case tables k n of
        None \<Rightarrow> Inl (Opaque ''relation does not exist'')
      | Some t \<Rightarrow>
          if has_column t (cname c) then Inr k
          else if notnull c \<and> cdefault c = None \<and> rows t \<noteq> [] then Inl (Opaque ''column contains null values'')
          else Inr (k\<lparr>tables := (tables k)(n \<mapsto> add_column c t)\<rparr>))"
| "exec_ddl (CreateIndex i n c) k =
     (if indexes k i \<noteq> None then Inr k
      else case tables k n of
             None \<Rightarrow> Inl (Opaque ''relation does not exist'')
           | Some t \<Rightarrow> if has_column t c then Inr (k\<lparr>indexes := (indexes k)(i \<mapsto> (n, c))\<rparr>)
                       else Inl (Opaque ''column does not exist''))"

subsection \<open>migrate\<close>

definition col :: "string \<Rightarrow> string \<Rightarrow> bool \<Rightarrow> cell option \<Rightarrow> column" where
  "col n ty nn d = \<lparr>cname = n, ctype = ty, notnull = nn, cdefault = d\<rparr>"

definition index_columns :: "column list" where
  "index_columns =
     [col ''key'' ''TEXT'' True None, col ''blob_id'' ''TEXT'' True None, col ''object_id'' ''TEXT'' True (Some (CText [])),
      col ''patch_id'' ''TEXT'' True (Some (CText [])), col ''blob_offset'' ''BIGINT'' True (Some (CInt 0)),
      col ''size'' ''BIGINT'' True None, col ''encoded_size'' ''BIGINT'' True (Some (CInt 0)),
      col ''cost'' ''BIGINT'' True (Some (CInt 0)), col ''deletable'' ''BOOLEAN'' True (Some (CBool False)),
      col ''end_epoch'' ''BIGINT'' True (Some (CInt 0)), col ''expires_at'' ''TIMESTAMPTZ'' False None,
      col ''created_at'' ''TIMESTAMPTZ'' True (Some CNow), col ''updated_at'' ''TIMESTAMPTZ'' True (Some CNow)]"

definition staging_columns :: "column list" where
  "staging_columns =
     [col ''key'' ''TEXT'' True None, col ''value'' ''BYTEA'' True None, col ''size'' ''BIGINT'' True None,
      col ''created_at'' ''TIMESTAMPTZ'' True (Some CNow), col ''leased_until'' ''TIMESTAMPTZ'' False None]"

definition migrate_stmts :: "postgresIndex \<Rightarrow> ddl list" where
  "migrate_stmts p =
     [CreateTable (table p) index_columns,
      AddColumn (table p) (col ''blob_offset'' ''BIGINT'' True (Some (CInt 0))),
      AddColumn (table p) (col ''patch_id'' ''TEXT'' True (Some (CText []))),
      AddColumn (table p) (col ''object_id'' ''TEXT'' True (Some (CText []))),
      AddColumn (table p) (col ''encoded_size'' ''BIGINT'' True (Some (CInt 0))),
      AddColumn (table p) (col ''cost'' ''BIGINT'' True (Some (CInt 0))),
      CreateIndex (table p @ ''_key_prefix_idx'') (table p) ''key'',
      CreateIndex (table p @ ''_expires_at_idx'') (table p) ''expires_at'',
      CreateIndex (table p @ ''_blob_id_idx'') (table p) ''blob_id'',
      CreateTable (stagingTable p) staging_columns,
      CreateIndex (stagingTable p @ ''_created_idx'') (stagingTable p) ''created_at'']"

text \<open>The statements in order, each with what the connection does to it; the first error ends the loop.\<close>

fun run_stmts :: "ddl list \<Rightarrow> fault list \<Rightarrow> catalog \<Rightarrow> unit res \<times> catalog" where
  "run_stmts [] fs k = (Inr (), k)"
| "run_stmts (s # ss) fs k =
     (case exec_ddl s k of
        Inl e \<Rightarrow> (Inl (Wrapf ''walrusds: migrating index: %w'' [] e), k)
      | Inr k' \<Rightarrow>
          (case fs of
             [] \<Rightarrow> run_stmts ss [] k'
           | NoFault # fs' \<Rightarrow> run_stmts ss fs' k'
           | Unacked m # _ \<Rightarrow> (Inl (Wrapf ''walrusds: migrating index: %w'' [] (Opaque m)), k')
           | Lost m # _ \<Rightarrow> (Inl (Wrapf ''walrusds: migrating index: %w'' [] (Opaque m)), k)
           | BadRow m # _ \<Rightarrow> (Inl (Wrapf ''walrusds: migrating index: %w'' [] (Opaque m)), k)))"

definition migrate :: "postgresIndex \<Rightarrow> fault list \<Rightarrow> catalog \<Rightarrow> unit res \<times> catalog" where
  "migrate p fs k = run_stmts (migrate_stmts p) fs k"

subsection \<open>newPostgresIndex\<close>

record pool =
  MaxOpen :: int
  MaxIdle :: int
  ConnMaxIdleTime :: duration

record connection =
  sql_Open :: "string \<Rightarrow> unit res"
  PingContext :: "unit res"
  stmt_faults :: "fault list"

definition newPostgresIndex ::
  "connection \<Rightarrow> pg_params \<Rightarrow> string \<Rightarrow> string \<Rightarrow> int \<Rightarrow> catalog \<Rightarrow> (postgresIndex \<times> pool) res \<times> catalog" where
  "newPostgresIndex C g dsn table0 maxOpenConns0 k =
     (let tab = (if table0 = [] then ''walrus_index'' else table0);
          conns = (if maxOpenConns0 \<le> 0 then defaultMaxOpenConns else maxOpenConns0)
      in case sql_Open C dsn of
           Inl e \<Rightarrow> (Inl (Wrapf ''walrusds: opening postgres: %w'' [] e), k)
         | Inr _ \<Rightarrow>
             (let idle = (if conns > 16 then 16 else conns);
                  po = \<lparr>MaxOpen = conns, MaxIdle = idle, ConnMaxIdleTime = 5 * Minute\<rparr>
              in case PingContext C of
                   Inl e \<Rightarrow> (Inl (Wrapf ''walrusds: connecting to postgres: %w'' [] e), k)
                 | Inr _ \<Rightarrow>
                     (let idx = \<lparr>table = tab, pg = g\<rparr>
                      in case migrate idx (stmt_faults C) k of
                           (Inl e, k') \<Rightarrow> (Inl e, k')
                         | (Inr _, k') \<Rightarrow> (Inr (idx, po), k'))))"

subsection \<open>Statements settle\<close>

lemma exec_ddl_settled: "exec_ddl s k = Inr k' \<Longrightarrow> exec_ddl s k' = Inr k'"
  by (cases s) (auto simp: has_column_def add_column_def split: option.splits if_splits)

lemma settled_cases:
  assumes "exec_ddl s k = Inr k"
  shows "case s of
      CreateTable n cs \<Rightarrow> tables k n \<noteq> None
    | AddColumn n c \<Rightarrow> (\<exists>t. tables k n = Some t \<and> has_column t (cname c))
    | CreateIndex i n c \<Rightarrow> indexes k i \<noteq> None"
proof (cases s)
  case (CreateTable n cs)
  then show ?thesis using assms by (auto split: if_splits dest: arg_cong [where f = "\<lambda>k. tables k n"])
next
  case (AddColumn n c)
  have "add_column c t \<noteq> t" for t by (auto simp: add_column_def dest: arg_cong [where f = columns])
  then show ?thesis
    using assms AddColumn by (auto split: option.splits if_splits dest: arg_cong [where f = "\<lambda>k. tables k n"])
next
  case (CreateIndex i n c)
  have "k\<lparr>indexes := (indexes k)(i \<mapsto> x)\<rparr> \<noteq> k" if "indexes k i = None" for x
  proof
    assume "k\<lparr>indexes := (indexes k)(i \<mapsto> x)\<rparr> = k"
    then have "indexes (k\<lparr>indexes := (indexes k)(i \<mapsto> x)\<rparr>) i = indexes k i" by simp
    then show False using that by simp
  qed
  then show ?thesis
    using assms CreateIndex by (cases "indexes k i") (auto split: option.splits if_splits)
qed

lemma exec_ddl_grows:
  assumes "exec_ddl t k = Inr k'"
  shows "(tables k n = Some x \<longrightarrow> (\<exists>y. tables k' n = Some y \<and> cname ` set (columns x) \<subseteq> cname ` set (columns y)))
    \<and> (indexes k i \<noteq> None \<longrightarrow> indexes k' i \<noteq> None)"
  using assms by (cases t) (auto simp: add_column_def split: option.splits if_splits)

lemma settled_step: "exec_ddl s k = Inr k \<Longrightarrow> exec_ddl t k = Inr k' \<Longrightarrow> exec_ddl s k' = Inr k'"
proof -
  assume s: "exec_ddl s k = Inr k" and t: "exec_ddl t k = Inr k'"
  note g = exec_ddl_grows [OF t]
  show "exec_ddl s k' = Inr k'"
  proof (cases s)
    case (CreateTable n cs)
    then obtain x where "tables k n = Some x" using settled_cases [OF s] by auto
    then obtain y where "tables k' n = Some y" using g by blast
    then show ?thesis using CreateTable by simp
  next
    case (AddColumn n c)
    then obtain x where "tables k n = Some x" "has_column x (cname c)" using settled_cases [OF s] by auto
    then obtain y where "tables k' n = Some y" "has_column y (cname c)" using g unfolding has_column_def by blast
    then show ?thesis using AddColumn by simp
  next
    case (CreateIndex i n c)
    then have "indexes k i \<noteq> None" using settled_cases [OF s] by simp
    then have "indexes k' i \<noteq> None" using g by blast
    then show ?thesis using CreateIndex by simp
  qed
qed

lemma run_stmts_append:
  "run_stmts (ss @ ts) [] k = (case run_stmts ss [] k of (Inr _, k') \<Rightarrow> run_stmts ts [] k' | (Inl e, k') \<Rightarrow> (Inl e, k'))"
  by (induction ss arbitrary: k) (auto split: sum.splits)

lemma run_stmts_prefix:
  "run_stmts ss fs k = (r, k') \<Longrightarrow> \<exists>n. run_stmts (take n ss) [] k = (Inr (), k')"
proof (induction ss arbitrary: fs k)
  case (Cons s ss)
  show ?case
  proof (cases "exec_ddl s k")
    case (Inl e)
    then show ?thesis using Cons.prems by (intro exI [of _ 0]) simp
  next
    case (Inr k1)
    consider "k' = k" | "k' = k1" | fs' where "run_stmts ss fs' k1 = (r, k')"
      using Cons.prems Inr by (auto split: list.splits fault.splits)
    then show ?thesis
    proof cases
      case 1
      then show ?thesis by (intro exI [of _ 0]) simp
    next
      case 2
      then show ?thesis using Inr by (intro exI [of _ 1]) simp
    next
      case (3 fs')
      then obtain n where "run_stmts (take n ss) [] k1 = (Inr (), k')" using Cons.IH by blast
      then show ?thesis using Inr by (intro exI [of _ "Suc n"]) simp
    qed
  qed
qed simp

lemma run_settles:
  "run_stmts ss [] k = (Inr (), k') \<Longrightarrow> (exec_ddl s k = Inr k \<longrightarrow> exec_ddl s k' = Inr k') \<and> (\<forall>s\<in>set ss. exec_ddl s k' = Inr k')"
proof (induction ss arbitrary: k s)
  case (Cons t ss)
  then obtain k1 where 1: "exec_ddl t k = Inr k1" "run_stmts ss [] k1 = (Inr (), k')" by (auto split: sum.splits)
  then show ?case using Cons.IH [OF 1(2)] settled_step exec_ddl_settled by (metis set_ConsD)
qed simp

lemma run_settled: "\<forall>s\<in>set ss. exec_ddl s k = Inr k \<Longrightarrow> run_stmts ss [] k = (Inr (), k)"
  by (induction ss) auto

lemma run_resumes:
  assumes "run_stmts ss fs k = (r, k')"
  shows "run_stmts ss [] k' = run_stmts ss [] k"
proof -
  obtain n where n: "run_stmts (take n ss) [] k = (Inr (), k')" using run_stmts_prefix [OF assms] by blast
  have "run_stmts (take n ss) [] k' = (Inr (), k')" using run_settled run_settles [OF n] by blast
  then have "run_stmts (take n ss @ drop n ss) [] k' = run_stmts (take n ss @ drop n ss) [] k"
    using n by (simp add: run_stmts_append del: append_take_drop_id)
  then show ?thesis by simp
qed

text \<open>
  C28. Migration can be repeated and resumed: whatever statements a first attempt got through before it failed, or
  when it succeeded, running the migration again ends exactly as one undisturbed run on the original database.
\<close>

theorem migrate_resumes: "migrate p [] (snd (migrate p fs k)) = migrate p [] k"
  unfolding migrate_def using run_resumes [of "migrate_stmts p" fs k] by (metis prod.collapse)

subsection \<open>Upgrading an old table\<close>

text \<open>A table grew out of another when its columns include the other's and each row extends the row it was.\<close>

definition grown :: "pgtable \<Rightarrow> pgtable \<Rightarrow> bool" where
  "grown t t' \<longleftrightarrow> set (columns t) \<subseteq> set (columns t') \<and> list_all2 (\<lambda>r r'. \<exists>x. r' = r @ x) (rows t) (rows t')"

lemma grown_refl: "grown t t"
  by (simp add: grown_def list_all2_same)

lemma grown_trans: "grown t u \<Longrightarrow> grown u v \<Longrightarrow> grown t v"
proof -
  assume *: "grown t u" "grown u v"
  have "list_all2 (\<lambda>r r'. \<exists>x. r' = r @ x) (rows t) (rows v)"
    by (rule list_all2_trans [of "\<lambda>r r'. \<exists>x. r' = r @ x" "\<lambda>r r'. \<exists>x. r' = r @ x" _ "rows t" "rows u" "rows v"])
      (use * in \<open>auto simp: grown_def\<close>)
  then show "grown t v" using * by (auto simp: grown_def)
qed

lemma grown_add: "grown t (add_column c t)"
  by (auto simp: grown_def add_column_def list_all2_map2 list_all2_same)

lemma grown_columns: "grown t t' \<Longrightarrow> has_column t c \<Longrightarrow> has_column t' c"
  by (auto simp: grown_def has_column_def)

lemma create_table_ok:
  "\<exists>k'. exec_ddl (CreateTable n cs) k = Inr k' \<and> indexes k' = indexes k \<and> (\<forall>m. m \<noteq> n \<longrightarrow> tables k' m = tables k m)
    \<and> tables k' n = Some (case tables k n of Some t \<Rightarrow> t | None \<Rightarrow> \<lparr>columns = cs, rows = []\<rparr>)"
  by (cases "tables k n") auto

lemma add_column_ok:
  assumes "tables k n = Some t" "cdefault c \<noteq> None"
  shows "\<exists>k' u. exec_ddl (AddColumn n c) k = Inr k' \<and> indexes k' = indexes k \<and> (\<forall>m. m \<noteq> n \<longrightarrow> tables k' m = tables k m)
    \<and> tables k' n = Some u \<and> grown t u \<and> has_column u (cname c) \<and> (has_column t (cname c) \<longrightarrow> u = t)"
proof (cases "has_column t (cname c)")
  case True
  then show ?thesis using assms grown_refl by auto
next
  case False
  moreover have "has_column (add_column c t) (cname c)" by (simp add: has_column_def add_column_def)
  ultimately show ?thesis using assms grown_add by auto
qed

lemma run_adds:
  assumes "tables k n = Some t" "\<forall>c\<in>set cs. cdefault c \<noteq> None"
  shows "\<exists>k' u. run_stmts (map (AddColumn n) cs) [] k = (Inr (), k') \<and> indexes k' = indexes k
    \<and> (\<forall>m. m \<noteq> n \<longrightarrow> tables k' m = tables k m) \<and> tables k' n = Some u \<and> grown t u \<and> (\<forall>c\<in>set cs. has_column u (cname c))
    \<and> ((\<forall>c\<in>set cs. has_column t (cname c)) \<longrightarrow> u = t)"
  using assms
proof (induction cs arbitrary: k t)
  case Nil
  then show ?case using grown_refl by auto
next
  case (Cons c cs)
  obtain k1 u where 1: "exec_ddl (AddColumn n c) k = Inr k1" "indexes k1 = indexes k" "\<forall>m. m \<noteq> n \<longrightarrow> tables k1 m = tables k m"
    "tables k1 n = Some u" "grown t u" "has_column u (cname c)" "has_column t (cname c) \<longrightarrow> u = t"
    using add_column_ok [OF Cons.prems(1), of c] Cons.prems(2) by auto
  obtain k' v where 2: "run_stmts (map (AddColumn n) cs) [] k1 = (Inr (), k')" "indexes k' = indexes k1"
    "\<forall>m. m \<noteq> n \<longrightarrow> tables k' m = tables k1 m" "tables k' n = Some v" "grown u v" "\<forall>c\<in>set cs. has_column v (cname c)"
    "(\<forall>c\<in>set cs. has_column u (cname c)) \<longrightarrow> v = u"
    using Cons.IH [OF 1(4)] Cons.prems(2) by auto
  have "run_stmts (map (AddColumn n) (c # cs)) [] k = (Inr (), k')" using 1(1) 2(1) by simp
  moreover have "grown t v" using 1(5) 2(5) by (rule grown_trans)
  moreover have "\<forall>c\<in>set (c # cs). has_column v (cname c)" using 1(6) 2(5,6) grown_columns by auto
  ultimately show ?case using 1 2 by (intro exI [of _ k'] exI [of _ v]) auto
qed

lemma staging_differs: "stagingTable p \<noteq> table p" "table p \<noteq> stagingTable p"
  by (simp_all add: stagingTable_def)

lemma create_index_ok:
  assumes "tables k n = Some t" "has_column t c"
  shows "\<exists>k'. exec_ddl (CreateIndex i n c) k = Inr k' \<and> tables k' = tables k \<and> indexes k' i \<noteq> None
    \<and> (\<forall>j. indexes k j \<noteq> None \<longrightarrow> indexes k' j \<noteq> None)"
  using assms by (cases "indexes k i") auto


definition legacy_catalog :: catalog where
  "legacy_catalog = \<lparr>tables = [''walrus_index'' \<mapsto> \<lparr>columns = [col ''key'' ''TEXT'' True None, col ''blob_id'' ''TEXT'' True None,
       col ''size'' ''BIGINT'' True None, col ''expires_at'' ''TIMESTAMPTZ'' False None],
     rows = [[(''key'', CText ''/a''), (''blob_id'', CText ''B1''), (''size'', CInt 3), (''expires_at'', CNull)]]\<rparr>],
     indexes = Map.empty\<rparr>"


text \<open>An opened index: the pool never idles more connections than it may open, nor more than 16.\<close>

lemma newPostgresIndex_opened:
  assumes "newPostgresIndex C g dsn tab n k = (Inr (idx, po), k')"
  shows "table idx \<noteq> [] \<and> (tab \<noteq> [] \<longrightarrow> table idx = tab) \<and> 0 < MaxOpen po \<and> 0 < MaxIdle po \<and> MaxIdle po \<le> MaxOpen po
    \<and> MaxIdle po \<le> 16 \<and> migrate idx (stmt_faults C) k = (Inr (), k')"
  using assms by (auto simp: newPostgresIndex_def Let_def defaultMaxOpenConns_def split: if_splits sum.splits prod.splits)

end
