(* ===== verification/System.thy ===== *)
theory System
  imports Flusher
begin

text \<open>
  Many nodes on one database. Each \<open>step\<close> is a statement or transaction that becomes visible to the other nodes:
  a staging transaction, an index transaction, a claim, an upload on Walrus, a promotion, the loss of an
  in-flight pack (failure, crash, expired lease), a blob that appears on Walrus, a renewal, and the two statements of
  \<open>DeleteMany\<close>. Those two run in one transaction, but at Postgres' default level READ COMMITTED each acts on
  the rows committed when it starts, so a promotion may take effect between them; the model also lets readers see the first
  without the second, which only adds behaviours. The steps are those of any number of nodes in any
  interleaving; leases do not constrain them, so a block may be in flight twice. \<open>content\<close> gives the bytes
  a key names: the keys of this datastore are content-addressed.
\<close>

subsection \<open>States and steps\<close>

record sys =
  sview :: view
  sobjs :: "string \<Rightarrow> bytes option"
  inflight :: "(StageEntry list \<times> KeyRecord list option) set"

datatype label =
    LStage "StageEntry list"
  | LIndex "KeyRecord list"
  | LClaim "StageEntry list"
  | LUpload "StageEntry list" "KeyRecord list"
  | LPromote "KeyRecord list"
  | LDrop "StageEntry list"
  | LStore
  | LRenew string string
  | LDeleteIndex "ds_key list"
  | LDeleteStage "ds_key list"

inductive step :: "(ds_key \<Rightarrow> bytes) \<Rightarrow> sys \<Rightarrow> label \<Rightarrow> sys \<Rightarrow> bool" for content where
  stage: "\<forall>(k, v)\<in>set es. v = content k \<Longrightarrow>
    step content s (LStage es) (s\<lparr>sview := stage_view es (sview s)\<rparr>)"
| index: "sobjs s \<subseteq>\<^sub>m objs \<Longrightarrow> recs_for objs [(k, content k)] recs \<Longrightarrow>
    step content s (LIndex recs) (s\<lparr>sobjs := objs, sview := put_view recs (sview s)\<rparr>)"
| claim: "\<forall>(k, v)\<in>set es. fst (sview s) k = Some v \<Longrightarrow>
    step content s (LClaim es) (s\<lparr>inflight := insert (es, None) (inflight s)\<rparr>)"
| upload: "(es, None) \<in> inflight s \<Longrightarrow> sobjs s \<subseteq>\<^sub>m objs \<Longrightarrow> recs_for objs es recs \<Longrightarrow>
    step content s (LUpload es recs) (s\<lparr>sobjs := objs, inflight := insert (es, Some recs) (inflight s)\<rparr>)"
| promote: "(es, Some recs) \<in> inflight s \<Longrightarrow>
    step content s (LPromote recs) (s\<lparr>sview := promote_view recs (sview s)\<rparr>)"
| drop: "step content s (LDrop es) (s\<lparr>inflight := {p \<in> inflight s. fst p \<noteq> es}\<rparr>)"
| store: "sobjs s \<subseteq>\<^sub>m objs \<Longrightarrow> step content s LStore (s\<lparr>sobjs := objs\<rparr>)"
| renew: "sobjs s \<subseteq>\<^sub>m objs \<Longrightarrow> objs ob = Some dat \<Longrightarrow> objs nb = Some dat \<Longrightarrow>
    step content s (LRenew ob nb) (s\<lparr>sobjs := objs, sview := renew_view ob nb no en c ep ex (sview s)\<rparr>)"
| delete_index: "step content s (LDeleteIndex ks) (s\<lparr>sview := (fst (sview s), snd (sview s) |` (- set ks))\<rparr>)"
| delete_stage: "step content s (LDeleteStage ks) (s\<lparr>sview := (fst (sview s) |` (- set ks), snd (sview s))\<rparr>)"

inductive_cases step_stage: "step content s (LStage es) s'"
inductive_cases step_promote: "step content s (LPromote recs) s'"

text \<open>Runs: the labels in order.\<close>

inductive run :: "(ds_key \<Rightarrow> bytes) \<Rightarrow> sys \<Rightarrow> label list \<Rightarrow> sys \<Rightarrow> bool" for content where
  run_nil: "run content s [] s"
| run_cons: "step content s l s' \<Longrightarrow> run content s' ls s'' \<Longrightarrow> run content s (l # ls) s''"

definition init_sys :: sys where
  "init_sys = \<lparr>sview = (Map.empty, Map.empty), sobjs = Map.empty, inflight = {}\<rparr>"

definition present :: "sys \<Rightarrow> ds_key \<Rightarrow> bool" where
  "present s k \<longleftrightarrow> fst (sview s) k \<noteq> None \<or> snd (sview s) k \<noteq> None"

fun deletes :: "label \<Rightarrow> ds_key set" where
  "deletes (LDeleteIndex ks) = set ks"
| "deletes (LDeleteStage ks) = set ks"
| "deletes _ = {}"

subsection \<open>Safety\<close>

definition safe :: "(ds_key \<Rightarrow> bytes) \<Rightarrow> sys \<Rightarrow> bool" where
  "safe content s \<longleftrightarrow>
     (\<forall>k v. fst (sview s) k = Some v \<longrightarrow> v = content k)
     \<and> (\<forall>k r. snd (sview s) k = Some r \<longrightarrow> rec_ok (sobjs s) r (content k))
     \<and> (\<forall>(es, x)\<in>inflight s. (\<forall>(k, v)\<in>set es. v = content k) \<and> (\<forall>recs. x = Some recs \<longrightarrow> recs_for (sobjs s) es recs))"

lemma recs_for_mono: "objs \<subseteq>\<^sub>m objs' \<Longrightarrow> recs_for objs es recs \<Longrightarrow> recs_for objs' es recs"
  by (fastforce simp: recs_for_def intro: rec_ok_mono)

lemma recs_for_content:
  "recs_for objs es recs \<Longrightarrow> \<forall>(k, v)\<in>set es. v = content k \<Longrightarrow> (k, r) \<in> set recs \<Longrightarrow> rec_ok objs r (content k)"
  by (fastforce simp: recs_for_def)

lemma safe_grow:
  assumes "safe content s" "sobjs s \<subseteq>\<^sub>m objs"
  shows "safe content (s\<lparr>sobjs := objs\<rparr>)"
  using assms rec_ok_mono recs_for_mono unfolding safe_def by (fastforce split: prod.splits)

lemma safe_index:
  assumes "safe content s" "\<forall>(k, r)\<in>set recs. rec_ok (sobjs s) r (content k)" "fst vw \<subseteq>\<^sub>m fst (sview s)"
    "snd vw = upd_all recs (snd (sview s))"
  shows "safe content (s\<lparr>sview := vw\<rparr>)"
proof -
  have "rec_ok (sobjs s) r (content k)" if "snd vw k = Some r" for k r
    using that assms(1,2,4) upd_all_cases [of recs "snd (sview s)" k] by (fastforce simp: safe_def)
  moreover have "v = content k" if "fst vw k = Some v" for k v
    using that assms(1,3) by (metis domI map_le_def safe_def)
  ultimately show ?thesis using assms(1) by (simp add: safe_def)
qed

lemma rec_ok_renew:
  "rec_ok objs r v \<Longrightarrow> objs (rBlobID r) = Some dat \<Longrightarrow> objs nb = Some dat \<Longrightarrow>
     rec_ok objs (r\<lparr>rBlobID := nb, rObjectID := no, rEncodedSize := en, rCost := c, rEndEpoch := ep, rExpiresAt := ex\<rparr>) v"
  by (auto simp: rec_ok_def split: if_splits)

lemma step_safe: "step content s l s' \<Longrightarrow> safe content s \<Longrightarrow> safe content s'"
proof (induction rule: step.induct)
  case (stage es s)
  have "v = content k" if "upd_all es (fst (sview s)) k = Some v" for k v
    using upd_all_cases [of es "fst (sview s)" k]
  proof
    assume "upd_all es (fst (sview s)) k = fst (sview s) k"
    then show ?thesis using that stage(2) by (simp add: safe_def)
  next
    assume "\<exists>v. (k, v) \<in> set es \<and> upd_all es (fst (sview s)) k = Some v"
    then show ?thesis using that stage(1) by auto
  qed
  then show ?case using stage(2) by (simp add: safe_def stage_view_def)
next
  case (index s objs k recs)
  have "safe content (s\<lparr>sobjs := objs\<rparr>)" by (rule safe_grow [OF index(3,1)])
  moreover have "\<forall>(k', r)\<in>set recs. rec_ok objs r (content k')" using recs_for_content [OF index(2), of content] by auto
  ultimately show ?case using safe_index [of content "s\<lparr>sobjs := objs\<rparr>" recs "put_view recs (sview s)"]
    by (simp add: put_view_def)
next
  case (claim es s)
  then show ?case by (fastforce simp: safe_def)
next
  case (upload es s objs recs)
  have "safe content (s\<lparr>sobjs := objs\<rparr>)" by (rule safe_grow [OF upload(4,2)])
  then show ?case using upload(1,3) by (fastforce simp: safe_def)
next
  case (promote es recs s)
  let ?live = "filter (\<lambda>(k, r). fst (sview s) k \<noteq> None) recs"
  have "\<forall>(k, v)\<in>set es. v = content k" "recs_for (sobjs s) es recs" using promote by (fastforce simp: safe_def)+
  then have "\<forall>(k, r)\<in>set ?live. rec_ok (sobjs s) r (content k)" using recs_for_content by fastforce
  then show ?case
    by (rule safe_index [OF promote(2)]) (auto simp: promote_view_def map_le_def)
next
  case (drop s es)
  then show ?case by (auto simp: safe_def)
next
  case (store s objs)
  then show ?case using safe_grow by blast
next
  case (renew s objs ob dat nb no en c ep ex)
  have "safe content (s\<lparr>sobjs := objs\<rparr>)" by (rule safe_grow [OF renew(4,1)])
  then show ?case using renew(2,3) unfolding safe_def by (auto simp: renew_view_def intro: rec_ok_renew)
next
  case (delete_index s ks)
  then show ?case by (auto simp: safe_def restrict_map_def split: if_splits)
next
  case (delete_stage s ks)
  then show ?case by (auto simp: safe_def restrict_map_def split: if_splits)
qed

lemma run_safe: "run content s ls s' \<Longrightarrow> safe content s \<Longrightarrow> safe content s'"
  by (induction rule: run.induct) (auto intro: step_safe)

lemma init_safe: "safe content init_sys"
  by (simp add: safe_def init_sys_def)

lemma run_split: "run content s (ls @ ls') s'' \<Longrightarrow> (\<And>s'. run content s ls s' \<Longrightarrow> run content s' ls' s'' \<Longrightarrow> P) \<Longrightarrow> P"
proof (induction ls arbitrary: s)
  case Nil
  then show ?case using run_nil by auto
next
  case (Cons l ls)
  from Cons.prems(1) obtain t where "step content s l t" "run content t (ls @ ls') s''" by (auto elim: run.cases)
  then show ?case using Cons.IH Cons.prems(2) run_cons by metis
qed

subsection \<open>Durability\<close>

lemma upd_all_keeps: "m k \<noteq> None \<Longrightarrow> upd_all kvs m k \<noteq> None"
  using dom_upd_all [of kvs m] by (metis UnI1 domIff)

text \<open>No step other than a deletion takes an index row away, and a promotion only moves a staged key.\<close>

lemma step_indexed:
  "step content s l s' \<Longrightarrow> k \<notin> deletes l \<Longrightarrow> snd (sview s) k \<noteq> None \<Longrightarrow> snd (sview s') k \<noteq> None"
proof (induction rule: step.induct)
  case (index s objs k' recs)
  then show ?case by (simp add: put_view_def upd_all_keeps del: not_None_eq)
next
  case (promote es recs s)
  then show ?case by (simp add: promote_view_def upd_all_keeps del: not_None_eq)
qed (auto simp: stage_view_def renew_view_def)

lemma step_staged:
  "step content s l s' \<Longrightarrow> k \<notin> deletes l \<Longrightarrow> fst (sview s) k \<noteq> None \<Longrightarrow> present s' k"
proof (induction rule: step.induct)
  case (stage es s)
  then show ?case by (simp add: present_def stage_view_def upd_all_keeps del: not_None_eq)
next
  case (promote es recs s)
  let ?live = "filter (\<lambda>(k, r). fst (sview s) k \<noteq> None) recs"
  show ?case
  proof (cases "k \<in> fst ` set recs")
    case True
    then obtain r0 where "(k, r0) \<in> set recs" by auto
    then have "(k, r0) \<in> set ?live" using promote(3) by simp
    then have "k \<in> fst ` set ?live" by (metis fst_conv image_eqI)
    from upd_all_last [OF this] obtain r where "upd_all ?live (snd (sview s)) k = Some r" by blast
    then show ?thesis by (simp add: present_def promote_view_def)
  next
    case False
    then show ?thesis using promote(3) by (simp add: present_def promote_view_def)
  qed
qed (auto simp: present_def put_view_def renew_view_def)

lemma step_present: "step content s l s' \<Longrightarrow> k \<notin> deletes l \<Longrightarrow> present s k \<Longrightarrow> present s' k"
  using step_indexed step_staged unfolding present_def by blast

lemma run_present: "run content s ls s' \<Longrightarrow> \<forall>l\<in>set ls. k \<notin> deletes l \<Longrightarrow> present s k \<Longrightarrow> present s' k"
  by (induction rule: run.induct) (auto dest: step_present)

lemma run_indexed:
  "run content s ls s' \<Longrightarrow> \<forall>l\<in>set ls. k \<notin> deletes l \<Longrightarrow> snd (sview s) k \<noteq> None \<Longrightarrow> snd (sview s') k \<noteq> None"
proof (induction rule: run.induct)
  case (run_cons s l s' ls s'')
  then show ?case using step_indexed [OF run_cons(1)] by (simp del: not_None_eq)
qed simp

subsection \<open>Deletion\<close>

text \<open>The keys a client writes in a step, and the keys a step promotes.\<close>

fun writes :: "label \<Rightarrow> ds_key set" where
  "writes (LStage es) = fst ` set es"
| "writes (LIndex recs) = fst ` set recs"
| "writes _ = {}"

fun promotes :: "label \<Rightarrow> ds_key set" where
  "promotes (LPromote recs) = fst ` set recs"
| "promotes _ = {}"

text \<open>A staging row comes from a write only; an index row from a write or from the promotion of a staged key.\<close>

lemma step_unstaged: "step content s l s' \<Longrightarrow> k \<notin> writes l \<Longrightarrow> fst (sview s) k = None \<Longrightarrow> fst (sview s') k = None"
  by (induction rule: step.induct)
     (auto simp: stage_view_def put_view_def promote_view_def renew_view_def upd_all_notin restrict_map_def)

lemma step_unindexed:
  "step content s l s' \<Longrightarrow> k \<notin> writes l \<Longrightarrow> k \<notin> promotes l \<or> fst (sview s) k = None \<Longrightarrow> snd (sview s) k = None
     \<Longrightarrow> snd (sview s') k = None"
proof (induction rule: step.induct)
  case (promote es recs s)
  have "k \<notin> fst ` set (filter (\<lambda>(k, r). fst (sview s) k \<noteq> None) recs)" using promote(3) by auto
  then show ?case using promote(4) by (simp add: promote_view_def upd_all_notin)
qed (auto simp: stage_view_def put_view_def renew_view_def upd_all_notin restrict_map_def)

lemma run_unindexed:
  "run content s ls s' \<Longrightarrow> \<forall>l\<in>set ls. k \<notin> writes l \<and> k \<notin> promotes l \<Longrightarrow> snd (sview s) k = None \<Longrightarrow> snd (sview s') k = None"
  by (induction rule: run.induct) (auto dest: step_unindexed)

lemma run_absent: "run content s ls s' \<Longrightarrow> \<forall>l\<in>set ls. k \<notin> writes l \<Longrightarrow> \<not> present s k \<Longrightarrow> \<not> present s' k"
proof (induction rule: run.induct)
  case (run_cons s l s' ls s'')
  then show ?case using step_unstaged [OF run_cons(1), of k] step_unindexed [OF run_cons(1), of k] by (simp add: present_def)
qed simp

inductive_cases run_consE: "run content s (l # ls) s''"
inductive_cases step_delete_index: "step content s (LDeleteIndex ks) s'"
inductive_cases step_delete_stage: "step content s (LDeleteStage ks) s'"

subsection \<open>Node operations are runs\<close>

text \<open>A system state follows a world when it has the same tables and the same objects on Walrus.\<close>

definition tracks :: "('s \<Rightarrow> string \<Rightarrow> bytes option) \<Rightarrow> sys \<Rightarrow> (db, 's) world \<Rightarrow> bool" where
  "tracks blobs s w \<longleftrightarrow> sview s = db_view (wdb w) \<and> sobjs s = blobs (wnet w)"

lemma run_one: "step content s l s' \<Longrightarrow> run content s [l] s'"
  by (blast intro: run.intros)

lemma run_append: "run content s ls s' \<Longrightarrow> run content s' ls' s'' \<Longrightarrow> run content s (ls @ ls') s''"
  by (induction rule: run.induct) (auto intro: run.intros)

lemma run_store: "sobjs s \<subseteq>\<^sub>m objs \<Longrightarrow> run content s [LStore] (s\<lparr>sobjs := objs\<rparr>)"
  by (rule run_one) (rule step.store)

text \<open>A transaction that has its whole effect or, when it fails, possibly none, is one of two runs.\<close>

lemma all_or_nothing_run:
  assumes "all_or_nothing g r v v'" "run content s ls1 s1" "sview s1 = g v" "run content s ls0 s0" "sview s0 = v" "sobjs s1 = sobjs s0"
  shows "\<exists>ls s'. run content s ls s' \<and> sview s' = v' \<and> sobjs s' = sobjs s0 \<and> set ls \<subseteq> set ls0 \<union> set ls1 \<and> (is_ok r \<longrightarrow> s' = s1)"
proof (cases "v' = g v")
  case True
  then show ?thesis using assms(2,3,6) by (intro exI [of _ ls1] exI [of _ s1]) auto
next
  case False
  then have "v' = v" "\<not> is_ok r" using assms(1) by (cases r; simp add: all_or_nothing_def)+
  then show ?thesis using assms(4,5) by (intro exI [of _ ls0] exI [of _ s0]) auto
qed

lemma Delete_simulated:
  assumes "index ds = postgres_ops p" "db_inv (wdb w)" "tracks blobs s w" "ds_Delete ds k w = (r, w')"
  shows "\<exists>ls s'. run content s ls s' \<and> tracks blobs s' w' \<and> set ls \<subseteq> {LDeleteIndex [k], LDeleteStage [k]}
    \<and> (is_ok r \<longrightarrow> \<not> present s' k)"
proof -
  let ?d1 = "s\<lparr>sview := (fst (sview s), snd (sview s) |` (- set [k]))\<rparr>" and ?d = "s\<lparr>sview := delete_view [k] (sview s)\<rparr>"
  have "step content ?d1 (LDeleteStage [k]) ?d" using step.delete_stage [of content ?d1 "[k]"] by (simp add: delete_view_def)
  then have run: "run content s [LDeleteIndex [k], LDeleteStage [k]] ?d"
    by (blast intro: run.intros step.delete_index)
  obtain d' where d: "postgresIndex_DeleteMany [k] (wdb w) = (r, d')" "w' = w\<lparr>wdb := d'\<rparr>"
    using assms(1,4) pgidx.Delete_law [of p k] by (auto simp: ds_Delete_def on_db_def postgres_ops_def split: prod.splits)
  have "all_or_nothing (delete_view [k]) r (sview s) (db_view d')"
    using pgidx.DeleteMany_law [OF assms(2), of p "[k]" r d'] d(1) assms(3) by (simp add: postgres_ops_def tracks_def)
  from all_or_nothing_run [OF this run _ run_nil]
  obtain ls s' where "run content s ls s'" "sview s' = db_view d'" "sobjs s' = sobjs s"
    "set ls \<subseteq> {LDeleteIndex [k], LDeleteStage [k]}" "is_ok r \<longrightarrow> s' = ?d" by auto
  moreover have "\<not> present ?d k" by (simp add: present_def delete_view_def)
  ultimately show ?thesis using assms(3) d(2) by (intro exI [of _ ls] exI [of _ s']) (auto simp: tracks_def)
qed

lemma Put_staged_simulated:
  assumes ds: "index ds = postgres_ops p" and i: "db_inv (wdb w)" and tr: "tracks blobs s w"
    and small: "len64 (content k) < PackTargetSize (conf ds)" and op: "ds_Put N ds k (content k) w = (r, w')"
  shows "\<exists>ls s'. run content s ls s' \<and> tracks blobs s' w' \<and> (\<forall>l\<in>set ls. deletes l = {}) \<and> (is_ok r \<longrightarrow> present s' k)"
proof -
  let ?es = "[(k, content k)]" and ?s = "s\<lparr>sview := stage_view [(k, content k)] (sview s)\<rparr>"
  obtain x d' where x: "postgresIndex_StagePutMany ?es (wdb w) = (x, d')" by fastforce
  have law: "all_or_nothing (stage_view ?es) x (sview s) (db_view d')"
    using pgidx.StagePutMany_law [OF i, of p ?es x d'] x tr by (simp add: postgres_ops_def tracks_def)
  have w': "wdb w' = d'" "wnet w' = wnet w" "is_ok r \<longrightarrow> is_ok x"
    using op x small ds by (auto simp: ds_Put_def on_db_def postgres_ops_def kickFlusher_def split: sum.splits)
  have run: "run content s [LStage ?es] ?s" by (rule run_one) (rule step.stage, simp)
  from all_or_nothing_run [OF law run _ run_nil]
  obtain ls s' where "run content s ls s'" "sview s' = db_view d'" "sobjs s' = sobjs s" "set ls \<subseteq> {LStage ?es}" "is_ok x \<longrightarrow> s' = ?s"
    by auto
  moreover have "present ?s k" by (simp add: present_def stage_view_def)
  ultimately show ?thesis using tr w' by (intro exI [of _ ls] exI [of _ s']) (auto simp: tracks_def)
qed

lemma Put_uploaded_simulated:
  assumes hw: "honest_walrus N (client ds) blobs" and ds: "index ds = postgres_ops p" and i: "db_inv (wdb w)"
    and tr: "tracks blobs s w" and sz: "len64 (content k) < 2 ^ 63" and big: "len64 (content k) \<ge> PackTargetSize (conf ds)"
    and op: "ds_Put N ds k (content k) w = (r, w')"
  shows "\<exists>ls s'. run content s ls s' \<and> tracks blobs s' w' \<and> (\<forall>l\<in>set ls. deletes l = {}) \<and> (is_ok r \<longrightarrow> present s' k)"
proof -
  let ?es = "[(k, content k)]"
  obtain x t where x: "uploadPack N ds ?es (wnet w) = (x, t)" by fastforce
  have u: "uploaded blobs ?es (wnet w) x t"
    using uploadSingleBlock_ok [OF hw, of "(k, content k)"] x sz by (simp add: uploadPack_def)
  then have grow: "sobjs s \<subseteq>\<^sub>m blobs t" using tr by (simp add: uploaded_def tracks_def)
  note run1 = run_store [OF grow, of content]
  show ?thesis
  proof (cases x)
    case (Inl e)
    then have "w' = w\<lparr>wnet := t\<rparr>" "\<not> is_ok r" using op x big by (auto simp: ds_Put_def on_net_def)
    then show ?thesis using run1 tr by (intro exI [of _ "[LStore]"] exI [of _ "s\<lparr>sobjs := blobs t\<rparr>"]) (auto simp: tracks_def)
  next
    case (Inr recs)
    let ?s2 = "s\<lparr>sobjs := blobs t, sview := put_view recs (sview s)\<rparr>"
    have rf: "recs_for (blobs t) ?es recs" "length recs = 1" using u Inr by (simp_all add: uploaded_def)
    obtain y d' where y: "postgresIndex_PutMany recs (wdb w) = (y, d')" by fastforce
    have law: "all_or_nothing (put_view recs) y (sview s) (db_view d')"
      using pgidx.PutMany_law [OF i, of p recs y d'] y tr by (simp add: postgres_ops_def tracks_def)
    have w': "w' = w\<lparr>wnet := t, wdb := d'\<rparr>" "r = y"
      using op x y big Inr ds by (simp_all add: ds_Put_def on_net_def on_db_def postgres_ops_def)
    have run2: "run content s [LIndex recs] ?s2" by (rule run_one) (rule step.index [where content = content and k = k, OF grow rf(1)])
    obtain rec where "recs = [(k, rec)]" using rf by (auto simp: length_Suc_conv recs_for_def)
    then have pr: "present ?s2 k" by (simp add: present_def put_view_def)
    from all_or_nothing_run [OF law run2 _ run1]
    obtain ls s' where "run content s ls s'" "sview s' = db_view d'" "sobjs s' = blobs t" "set ls \<subseteq> {LStore, LIndex recs}" "is_ok y \<longrightarrow> s' = ?s2"
      by auto
    then show ?thesis using pr w' by (intro exI [of _ ls] exI [of _ s']) (auto simp: tracks_def)
  qed
qed

lemma Put_simulated:
  assumes "honest_walrus N (client ds) blobs" "index ds = postgres_ops p" "db_inv (wdb w)" "tracks blobs s w"
    "len64 (content k) < 2 ^ 63" "ds_Put N ds k (content k) w = (r, w')"
  shows "\<exists>ls s'. run content s ls s' \<and> tracks blobs s' w' \<and> (\<forall>l\<in>set ls. deletes l = {}) \<and> (is_ok r \<longrightarrow> present s' k)"
proof (cases "len64 (content k) < PackTargetSize (conf ds)")
  case True
  show ?thesis by (rule Put_staged_simulated [where content = content and k = k, OF assms(2-4) True assms(6)])
next
  case False
  then have "len64 (content k) \<ge> PackTargetSize (conf ds)" by simp
  then show ?thesis by (rule Put_uploaded_simulated [where content = content and k = k, OF assms(1-5) _ assms(6)])
qed

lemma flushOnePack_simulated:
  assumes hw: "honest_walrus N (client ds) blobs" and ds: "index ds = postgres_ops p" and i: "db_inv (wdb w)"
    and tr: "tracks blobs s w" and fl: "(es, None) \<in> inflight s" and po: "pack_ok N es"
    and op: "flushOnePack N ds es w = (r, w')"
  shows "\<exists>ls s'. run content s ls s' \<and> tracks blobs s' w' \<and> (\<forall>l\<in>set ls. deletes l = {})"
proof -
  obtain x t where x: "uploadPack N ds es (wnet w) = (x, t)" by fastforce
  have u: "uploaded blobs es (wnet w) x t" using uploadPack_ok [OF hw _ _ x] po by (simp add: pack_ok_def)
  then have grow: "sobjs s \<subseteq>\<^sub>m blobs t" using tr by (simp add: uploaded_def tracks_def)
  obtain y d2 where y: "(case x of Inl e \<Rightarrow> (Inl e, wdb w) | Inr recs \<Rightarrow> postgresIndex_PromoteStaged recs (wdb w)) = (y, d2)" by fastforce
  obtain z d3 where z: "postgresIndex_StageRelease (map fst es) d2 = (z, d3)" by fastforce
  have w': "wnet w' = t \<and> (wdb w' = d2 \<or> wdb w' = d3)"
    using op x y z ds by (cases x; cases y) (auto simp: flushOnePack_def on_net_def on_db_def postgres_ops_def split: if_splits)
  have mid: "db_inv d2 \<and> (\<exists>ls s'. run content s ls s' \<and> sview s' = db_view d2 \<and> sobjs s' = blobs t \<and> (\<forall>l\<in>set ls. deletes l = {}))"
  proof (cases x)
    case (Inl e)
    then show ?thesis using run_store [OF grow] y i tr by (intro conjI exI [of _ "[LStore]"] exI [of _ "s\<lparr>sobjs := blobs t\<rparr>"]) (auto simp: tracks_def)
  next
    case (Inr recs)
    let ?s1 = "s\<lparr>sobjs := blobs t, inflight := insert (es, Some recs) (inflight s)\<rparr>"
    let ?s2 = "?s1\<lparr>sview := promote_view recs (sview ?s1)\<rparr>"
    have law: "db_inv d2 \<and> all_or_nothing (promote_view recs) y (sview s) (db_view d2)"
      using pgidx.PromoteStaged_law [OF i, of p recs y d2] y Inr tr by (simp add: postgres_ops_def tracks_def)
    have s1: "step content s (LUpload es recs) ?s1" using step.upload [OF fl grow] u Inr by (simp add: uploaded_def)
    have "step content ?s1 (LPromote recs) ?s2" by (rule step.promote [of es]) simp
    then have s2: "run content s [LUpload es recs, LPromote recs] ?s2" using s1 by (blast intro: run.intros)
    from all_or_nothing_run [OF conjunct2 [OF law] s2 _ run_one [OF s1]]
    obtain ls s' where "run content s ls s'" "sview s' = db_view d2" "sobjs s' = blobs t" "set ls \<subseteq> {LUpload es recs, LPromote recs}"
      by auto
    then show ?thesis using law by (intro conjI exI [of _ ls] exI [of _ s']) auto
  qed
  then have "db_view d3 = db_view d2"
    using pgidx.StageRelease_law [of d2 p "map fst es" z d3] z by (simp add: postgres_ops_def)
  then show ?thesis using mid w' by (fastforce simp: tracks_def)
qed

subsection \<open>Properties\<close>

text \<open>
  After the staging of a block, and as long as no deletion of its key runs, a probe of the staging buffer at one moment or
  else a probe of the index at any later moment finds it.
\<close>

lemma probes_interleaved:
  assumes "run content init_sys (ls0 @ LStage es # ls1) s1" and "run content s1 ls2 s2"
    and "k \<in> fst ` set es" and "\<forall>l\<in>set (ls1 @ ls2). k \<notin> deletes l"
  shows "case fst (sview s1) k of
      Some v \<Rightarrow> v = content k
    | None \<Rightarrow> (\<exists>r. snd (sview s2) k = Some r \<and> rec_ok (sobjs s2) r (content k))"
proof -
  obtain s0 where s0: "run content init_sys ls0 s0" "run content s0 (LStage es # ls1) s1"
    using assms(1) by (rule run_split)
  then obtain s0' where st: "step content s0 (LStage es) s0'" and r1: "run content s0' ls1 s1"
    by (auto elim: run.cases)
  have safe1: "safe content s1" using run_safe [OF assms(1) init_safe] .
  have safe2: "safe content s2" using run_safe [OF assms(2) safe1] .
  have "fst (sview s0') k \<noteq> None"
    using st assms(3) upd_all_last [of k es "fst (sview s0)"] by (auto elim!: step_stage simp: stage_view_def)
  then have "present s0' k" by (simp add: present_def)
  then have p1: "present s1 k" using run_present [OF r1] assms(4) by simp
  show ?thesis
  proof (cases "fst (sview s1) k")
    case (Some v)
    then show ?thesis using safe1 by (simp add: safe_def)
  next
    case None
    then have "snd (sview s1) k \<noteq> None" using p1 by (simp add: present_def)
    then have "snd (sview s2) k \<noteq> None" using run_indexed [OF assms(2)] assms(4) by simp
    then show ?thesis using None safe2 by (auto simp: safe_def)
  qed
qed

text \<open>The index a \<open>Get\<close> sees when other nodes work between its two probes: \<open>others\<close> is their effect on the database.\<close>

definition interrupted :: "(db \<Rightarrow> db) \<Rightarrow> db Index \<Rightarrow> db Index" where
  "interrupted others ix = ix\<lparr>ix_Get := \<lambda>k d. ix_Get ix k (others d)\<rparr>"


text \<open>
  C10. Every operation of a node is a run of the system: a \<open>Put\<close> of content-addressed bytes, a flush of a claimed pack
  and a \<open>Delete\<close>, with whatever failures of the database and the network, change the tables and the objects on
  Walrus by visible steps only; a successful \<open>Put\<close> ends with the key present, a successful \<open>Delete\<close> without it.
\<close>

theorem node_operations_are_runs:
  assumes "honest_walrus N (client ds) blobs" and "index ds = postgres_ops p" and "db_inv (wdb w)" and "tracks blobs s w"
    and "len64 (content k) < 2 ^ 63" and "(es, None) \<in> inflight s" and "pack_ok N es"
  shows "(\<exists>ls s'. run content s ls s' \<and> tracks blobs s' (snd (ds_Put N ds k (content k) w)) \<and> (\<forall>l\<in>set ls. deletes l = {})
      \<and> (is_ok (fst (ds_Put N ds k (content k) w)) \<longrightarrow> present s' k))
    \<and> (\<exists>ls s'. run content s ls s' \<and> tracks blobs s' (snd (flushOnePack N ds es w)) \<and> (\<forall>l\<in>set ls. deletes l = {}))
    \<and> (\<exists>ls s'. run content s ls s' \<and> tracks blobs s' (snd (ds_Delete ds k w)) \<and> set ls \<subseteq> {LDeleteIndex [k], LDeleteStage [k]}
      \<and> (is_ok (fst (ds_Delete ds k w)) \<longrightarrow> \<not> present s' k))"
proof (intro conjI)
  show "\<exists>ls s'. run content s ls s' \<and> tracks blobs s' (snd (ds_Put N ds k (content k) w)) \<and> (\<forall>l\<in>set ls. deletes l = {})
      \<and> (is_ok (fst (ds_Put N ds k (content k) w)) \<longrightarrow> present s' k)"
    by (rule Put_simulated [where content = content and k = k, OF assms(1-5)]) simp
  show "\<exists>ls s'. run content s ls s' \<and> tracks blobs s' (snd (flushOnePack N ds es w)) \<and> (\<forall>l\<in>set ls. deletes l = {})"
    by (rule flushOnePack_simulated [OF assms(1-4,6,7), where r = "fst (flushOnePack N ds es w)"]) simp
  show "\<exists>ls s'. run content s ls s' \<and> tracks blobs s' (snd (ds_Delete ds k w)) \<and> set ls \<subseteq> {LDeleteIndex [k], LDeleteStage [k]}
      \<and> (is_ok (fst (ds_Delete ds k w)) \<longrightarrow> \<not> present s' k)"
    by (rule Delete_simulated [OF assms(2-4)]) simp
qed

text \<open>
  Seen statement by statement: once both statements of \<open>DeleteMany\<close> ran, the key stays absent until a client writes it
  again, provided no promotion of the key takes effect between the two.
\<close>

lemma delete_statements:
  assumes "run content s (LDeleteIndex ks # ls1 @ LDeleteStage ks # ls2) s'" and "k \<in> set ks"
    and "\<forall>l\<in>set (ls1 @ ls2). k \<notin> writes l" and "\<forall>l\<in>set ls1. k \<notin> promotes l"
  shows "\<not> present s' k"
proof -
  obtain s1 where s1: "step content s (LDeleteIndex ks) s1" and r: "run content s1 (ls1 @ LDeleteStage ks # ls2) s'"
    using assms(1) by (rule run_consE)
  obtain s2 where r1: "run content s1 ls1 s2" and r2: "run content s2 (LDeleteStage ks # ls2) s'" using r by (rule run_split)
  obtain s3 where s3: "step content s2 (LDeleteStage ks) s3" and r3: "run content s3 ls2 s'" using r2 by (rule run_consE)
  have "snd (sview s1) k = None" using s1 assms(2) by (auto elim: step_delete_index)
  then have "snd (sview s2) k = None" using run_unindexed [OF r1, of k] assms(3,4) by simp
  then have "\<not> present s3 k" using s3 assms(2) by (auto elim: step_delete_stage simp: present_def)
  then show ?thesis using run_absent [OF r3] assms(3) by simp
qed


subsection \<open>The race of a deletion with a promotion, and witnesses\<close>

definition race_rec :: IndexRecord where
  "race_rec = \<lparr>rBlobID = ''B'', rObjectID = [], rPatchID = [], rOffset = 0, rSize = 0, rEncodedSize = 0, rCost = 0,
     rDeletable = False, rEndEpoch = 0, rExpiresAt = None\<rparr>"

abbreviation race_content :: "ds_key \<Rightarrow> bytes" where
  "race_content \<equiv> (\<lambda>k. [])"

definition race_staged :: sys where
  "race_staged = init_sys\<lparr>sview := ([''k'' \<mapsto> []], Map.empty)\<rparr>"

definition race_uploaded :: sys where
  "race_uploaded = race_staged\<lparr>inflight := {([(''k'', [])], None), ([(''k'', [])], Some [(''k'', race_rec)])}\<rparr>"

definition race_promoted :: sys where
  "race_promoted = race_uploaded\<lparr>sview := (Map.empty, [''k'' \<mapsto> race_rec])\<rparr>"

lemmas race_defs = race_staged_def race_uploaded_def race_promoted_def init_sys_def

lemma race_stage: "run race_content init_sys [LStage [(''k'', [])]] race_staged"
proof (rule run_one)
  have "step race_content init_sys (LStage [(''k'', [])]) (init_sys\<lparr>sview := stage_view [(''k'', [])] (sview init_sys)\<rparr>)"
    by (rule step.stage) simp
  then show "step race_content init_sys (LStage [(''k'', [])]) race_staged" by (simp add: race_defs stage_view_def)
qed

lemma race_upload:
  "run race_content race_staged [LClaim [(''k'', [])], LUpload [(''k'', [])] [(''k'', race_rec)]] race_uploaded"
proof -
  let ?es = "[(''k'', [] :: bytes)]" and ?c = "race_staged\<lparr>inflight := {([(''k'', [])], None)}\<rparr>"
  have "step race_content race_staged (LClaim ?es) (race_staged\<lparr>inflight := insert (?es, None) (inflight race_staged)\<rparr>)"
    by (rule step.claim) (simp add: race_defs)
  then have 1: "step race_content race_staged (LClaim ?es) ?c" by (simp add: race_defs)
  have "recs_for (sobjs ?c) ?es [(''k'', race_rec)]" by (simp add: recs_for_def rec_ok_def race_rec_def)
  then have "step race_content ?c (LUpload ?es [(''k'', race_rec)])
      (?c\<lparr>sobjs := sobjs ?c, inflight := insert (?es, Some [(''k'', race_rec)]) (inflight ?c)\<rparr>)"
    by (intro step.upload) simp_all
  then have 2: "step race_content ?c (LUpload ?es [(''k'', race_rec)]) race_uploaded"
    by (simp add: race_defs insert_commute)
  from 1 2 show ?thesis by (blast intro: run.intros)
qed

lemma race_promote: "run race_content race_uploaded [LPromote [(''k'', race_rec)]] race_promoted"
proof (rule run_one)
  have "step race_content race_uploaded (LPromote [(''k'', race_rec)])
      (race_uploaded\<lparr>sview := promote_view [(''k'', race_rec)] (sview race_uploaded)\<rparr>)"
    by (rule step.promote [of "[(''k'', [])]"]) (simp add: race_defs)
  then show "step race_content race_uploaded (LPromote [(''k'', race_rec)]) race_promoted"
    by (simp add: race_defs promote_view_def)
qed

text \<open>A deletion and a promotion that takes effect between its two statements, as a run of the system.\<close>

lemma delete_race_run:
  "\<exists>s. run race_content init_sys
      [LStage [(''k'', [])], LClaim [(''k'', [])], LUpload [(''k'', [])] [(''k'', race_rec)],
       LDeleteIndex [''k''], LPromote [(''k'', race_rec)], LDeleteStage [''k'']] s \<and> present s ''k''"
proof -
  have "step race_content race_uploaded (LDeleteIndex [''k'']) race_uploaded"
    using step.delete_index [of race_content race_uploaded "[''k'']"] by (simp add: race_defs)
  moreover have "step race_content race_promoted (LDeleteStage [''k'']) race_promoted"
    using step.delete_stage [of race_content race_promoted "[''k'']"] by (simp add: race_defs)
  ultimately have "run race_content init_sys
      ([LStage [(''k'', [])]] @ [LClaim [(''k'', [])], LUpload [(''k'', [])] [(''k'', race_rec)]]
       @ [LDeleteIndex [''k'']] @ [LPromote [(''k'', race_rec)]] @ [LDeleteStage [''k'']]) race_promoted"
    by (blast intro: run_append run_one race_stage race_upload race_promote)
  moreover have "present race_promoted ''k''" by (simp add: present_def race_defs)
  ultimately show ?thesis by auto
qed

text \<open>\<open>delete_body\<close> with the effect \<open>others\<close> of other nodes between its two statements.\<close>

definition delete_interrupted :: "(db \<Rightarrow> db) \<Rightarrow> ds_key list \<Rightarrow> db \<Rightarrow> unit res \<times> db" where
  "delete_interrupted others keys d =
     (case exec (\<lambda>d. Inr ((), d\<lparr>tbl := delete_keys keys (tbl d)\<rparr>)) d of
        (Inl e, d1) \<Rightarrow> (Inl (Wrapf ''walrusds: index delete-many: %w'' [] e), d1)
      | (Inr _, d1) \<Rightarrow>
          (case exec (\<lambda>d. Inr ((), d\<lparr>stg := delete_keys keys (stg d)\<rparr>)) (others d1) of
             (Inl e, d2) \<Rightarrow> (Inl (Wrapf ''walrusds: staging delete-many: %w'' [] e), d2)
           | (Inr _, d2) \<Rightarrow> (Inr (), d2)))"

definition race_start :: db where
  "race_start = snd (postgresIndex_StagePutMany [(''k'', [])] \<lparr>tbl = [], stg = [], db_now = 100, faults = []\<rparr>)"

abbreviation race_promotion :: "db \<Rightarrow> db" where
  "race_promotion d \<equiv> snd (postgresIndex_PromoteStaged [(''k'', race_rec)] d)"


definition race_db :: "(ds_key \<times> staging_row) list \<Rightarrow> db" where
  "race_db st = \<lparr>tbl = [(''k'', row_of_rec 20 race_rec)], stg = st, db_now = 100, faults = []\<rparr>"

definition race_world :: "(db, string list) world" where
  "race_world = \<lparr>wdb = race_db [], wcache = newBlobCache 100, wnet = [], flushKick = False\<rparr>"

lemma race_db_view: "db_view (race_db []) = sview race_promoted" "db_inv (race_db [])" "db_inv (race_db [(''j'', stage_row 50 [])])"
  by (auto simp: race_db_def db_view_def race_defs db_inv_def keys_of_def stage_row_def)

lemma race_run:
  "run race_content init_sys ([] @ LStage [(''k'', [])]
     # [LClaim [(''k'', [])], LUpload [(''k'', [])] [(''k'', race_rec)], LPromote [(''k'', race_rec)]]) race_promoted"
  using run_append [OF race_stage run_append [OF race_upload race_promote]] by simp



definition flush_sys :: sys where
  "flush_sys = \<lparr>sview = db_view (wdb flush_world), sobjs = sim_blobs (wnet flush_world),
     inflight = {([(''/x'', ''hello''), (''/y'', [])], None)}\<rparr>"

theorem node_operations_are_runs_witness:
  "\<exists>ls s'. run (\<lambda>k. ''hello'') flush_sys ls s' \<and> tracks sim_blobs s' (snd (flushOnePack sim_net sample_ds [(''/x'', ''hello''), (''/y'', [])] flush_world))
     \<and> (\<forall>l\<in>set ls. deletes l = {})"
proof -
  have "pack_ok sim_net [(''/x'', ''hello''), (''/y'', [])]"
    using flush_staged_ok flush_claimed by (auto simp: staged_ok_def)
  then show ?thesis
    using node_operations_are_runs [OF sample_honest sample_sel(1) flush_world_healthy(1), of flush_sys "\<lambda>k. ''hello''" "''/x''"]
    by (simp add: flush_sys_def tracks_def)
qed

end
