(* ===== verification/Node.thy ===== *)
theory Node
  imports Flusher Renewal
begin

text \<open>
  One node: the datastore calls of its clients, the flush worker and the renewal worker that \<open>NewWalrusDatastore\<close>
  starts (\<open>src/walrus.go\<close> lines 578 to 601, \<open>src/renewal.go\<close> lines 15 to 44), and \<open>Close\<close> (\<open>src/walrus.go\<close> lines 471 to
  478). Each worker is a \<open>select\<close> loop in a goroutine; a rule of its relation is one arm of the \<open>select\<close>. Calls and worker
  iterations are taken one at a time here; the interleaving of their statements is the subject of the theory \<open>System\<close>.
  The node may crash between two of them and be started again on the same database.
\<close>

subsection \<open>State\<close>

record 's node =
  nworld :: "(db, 's) world"
  alive :: bool
  ctx_done :: bool
  flusher :: bool
  renewer :: bool
  index_open :: bool

text \<open>What \<open>NewWalrusDatastore\<close> leaves running on a database and a network.\<close>

definition boot :: "db WalrusDatastore \<Rightarrow> db \<Rightarrow> 's \<Rightarrow> 's node" where
  "boot ds d s =
     \<lparr>nworld = \<lparr>wdb = d, wcache = newBlobCache (cacheBytes (conf ds)), wnet = s, flushKick = False\<rparr>, alive = True, ctx_done = False,
      flusher = True, renewer = (RenewInterval (conf ds) > 0 \<and> EpochDuration (conf ds) > 0), index_open = True\<rparr>"

lemma boot_started:
  "NewWalrusDatastore open_index c = Inr st \<Longrightarrow>
     wcache (nworld (boot (st_datastore st) d s)) = st_cache st \<and> renewer (boot (st_datastore st) d s) = st_renewal st"
  by (auto simp: NewWalrusDatastore_def boot_def NewClient_def Let_def split: if_splits sum.splits)

subsection \<open>The workers and \<open>Close\<close>\<close>

text \<open>The flush worker: a panic of a flush ends the process.\<close>

inductive startFlushWorker ::
  "'s net \<Rightarrow> db WalrusDatastore \<Rightarrow> (StageEntry list list \<Rightarrow> StageEntry list list) \<Rightarrow> 's node \<Rightarrow> 's node \<Rightarrow> bool"
  for N ds sched where
  flush_done: "flusher n \<Longrightarrow> ctx_done n \<Longrightarrow> startFlushWorker N ds sched n (n\<lparr>flusher := False\<rparr>)"
| flush_tick: "flusher n \<Longrightarrow> flushStaged N ds sched fuel (nworld n) = Some (e, w') \<Longrightarrow>
    startFlushWorker N ds sched n (n\<lparr>nworld := w', alive := (e \<in> {Quiet, BackOff})\<rparr>)"
| flush_kick: "flusher n \<Longrightarrow> flushKick (nworld n) \<Longrightarrow>
    flushStaged N ds sched fuel ((nworld n)\<lparr>flushKick := False\<rparr>) = Some (e, w') \<Longrightarrow>
    startFlushWorker N ds sched n (n\<lparr>nworld := w', alive := (e \<in> {Quiet, BackOff})\<rparr>)"

text \<open>The renewal worker: an error of a scan is logged, a panic ends the process.\<close>

inductive startRenewalWorker :: "'s net \<Rightarrow> db WalrusDatastore \<Rightarrow> 's node \<Rightarrow> 's node \<Rightarrow> bool" for N ds where
  renew_done: "renewer n \<Longrightarrow> ctx_done n \<Longrightarrow> startRenewalWorker N ds n (n\<lparr>renewer := False\<rparr>)"
| renew_tick: "renewer n \<Longrightarrow> renewExpiring N ds (renewal_lead (conf ds)) (nworld n) = (r, w') \<Longrightarrow>
    startRenewalWorker N ds n (n\<lparr>nworld := w', alive := (\<forall>e. r = Inl e \<longrightarrow> \<not> is_panic e)\<rparr>)"

text \<open>\<open>Close\<close> cancels the context, waits for both workers and closes the index.\<close>

inductive ds_Close :: "'s node \<Rightarrow> 's node \<Rightarrow> bool" where
  close_cancel: "ds_Close n (n\<lparr>ctx_done := True\<rparr>)"
| close_finish: "ctx_done n \<Longrightarrow> \<not> flusher n \<Longrightarrow> \<not> renewer n \<Longrightarrow> ds_Close n (n\<lparr>index_open := False\<rparr>)"

subsection \<open>Calls\<close>

datatype call =
    CPut ds_key bytes
  | CGet ds_key
  | CHas ds_key
  | CGetSize ds_key
  | CDelete ds_key
  | CCommit "(ds_key \<times> batchOp) list"

datatype reply = RUnit "unit res" | RBytes "bytes res" | RBool "bool res" | RSize "int res"

fun perform :: "'s net \<Rightarrow> 'd WalrusDatastore \<Rightarrow> call \<Rightarrow> ('d, 's) world \<Rightarrow> reply \<times> ('d, 's) world" where
  "perform N ds (CPut k v) w = apfst RUnit (ds_Put N ds k v w)"
| "perform N ds (CGet k) w = apfst RBytes (ds_Get N ds k w)"
| "perform N ds (CHas k) w = apfst RBool (ds_Has ds k w)"
| "perform N ds (CGetSize k) w = apfst RSize (ds_GetSize ds k w)"
| "perform N ds (CDelete k) w = apfst RUnit (ds_Delete ds k w)"
| "perform N ds (CCommit order) w = apfst RUnit (batch_Commit N ds order w)"

subsection \<open>Runs of a node\<close>

datatype event = ECall call reply | EFlush | ERenew | EClose | EEnv | ERestart

text \<open>\<open>EEnv\<close>: the clock of the database moves and which of its next statements fail is decided anew; or the process dies.\<close>

inductive nstep ::
  "'s net \<Rightarrow> db WalrusDatastore \<Rightarrow> (StageEntry list list \<Rightarrow> StageEntry list list) \<Rightarrow> 's node \<Rightarrow> event \<Rightarrow> 's node \<Rightarrow> bool"
  for N ds sched where
  n_call: "alive n \<Longrightarrow> index_open n \<Longrightarrow> perform N ds c (nworld n) = (rep, w') \<Longrightarrow> nstep N ds sched n (ECall c rep) (n\<lparr>nworld := w'\<rparr>)"
| n_flush: "alive n \<Longrightarrow> startFlushWorker N ds sched n n' \<Longrightarrow> nstep N ds sched n EFlush n'"
| n_renew: "alive n \<Longrightarrow> startRenewalWorker N ds n n' \<Longrightarrow> nstep N ds sched n ERenew n'"
| n_close: "alive n \<Longrightarrow> ds_Close n n' \<Longrightarrow> nstep N ds sched n EClose n'"
| n_env: "nstep N ds sched n EEnv (n\<lparr>nworld := (nworld n)\<lparr>wdb := (wdb (nworld n))\<lparr>db_now := t, faults := fs\<rparr>\<rparr>, alive := (alive n \<and> b)\<rparr>)"
| n_restart: "nstep N ds sched n ERestart (boot ds (wdb (nworld n)) (wnet (nworld n)))"

inductive nrun ::
  "'s net \<Rightarrow> db WalrusDatastore \<Rightarrow> (StageEntry list list \<Rightarrow> StageEntry list list) \<Rightarrow> 's node \<Rightarrow> event list \<Rightarrow> 's node \<Rightarrow> bool"
  for N ds sched where
  nrun_nil: "nrun N ds sched n [] n"
| nrun_cons: "nstep N ds sched n e n' \<Longrightarrow> nrun N ds sched n' es n'' \<Longrightarrow> nrun N ds sched n (e # es) n''"

inductive_cases startFlushWorkerE: "startFlushWorker N ds sched n n'"
inductive_cases startRenewalWorkerE: "startRenewalWorker N ds n n'"
inductive_cases ds_CloseE: "ds_Close n n'"

subsection \<open>The abstract store\<close>

text \<open>
  The replies a client may get from a map, and the map afterwards: a failed call may have had its effect, and a failed
  batch any part of it.
\<close>

fun spec_call :: "call \<Rightarrow> reply \<Rightarrow> (ds_key \<Rightarrow> bytes option) \<Rightarrow> (ds_key \<Rightarrow> bytes option) \<Rightarrow> bool" where
  "spec_call (CPut k v) (RUnit r) m m' = (m' = m(k \<mapsto> v) \<or> m' = m \<and> \<not> is_ok r)"
| "spec_call (CGet k) (RBytes r) m m' = (m' = m \<and> (\<forall>v. r = Inr v \<longrightarrow> m k = Some v) \<and> (r = Inl ErrNotFound \<longrightarrow> m k = None))"
| "spec_call (CHas k) (RBool r) m m' = (m' = m \<and> (\<forall>b. r = Inr b \<longrightarrow> b = (m k \<noteq> None)))"
| "spec_call (CGetSize k) (RSize r) m m' =
     (m' = m \<and> (\<forall>z. r = Inr z \<longrightarrow> (\<exists>v. m k = Some v \<and> z = len64 v)) \<and> (r = Inl ErrNotFound \<longrightarrow> m k = None))"
| "spec_call (CDelete k) (RUnit r) m m' = (m' = m(k := None) \<or> m' = m \<and> \<not> is_ok r)"
| "spec_call (CCommit order) (RUnit r) m m' =
     ((\<forall>k. m' k \<in> {m k, batch_effect (map_of order) m k}) \<and> (is_ok r \<longrightarrow> m' = batch_effect (map_of order) m))"
| "spec_call _ _ m m' = False"

inductive spec_run :: "event list \<Rightarrow> (ds_key \<Rightarrow> bytes option) \<Rightarrow> (ds_key \<Rightarrow> bytes option) \<Rightarrow> bool" where
  spec_nil: "spec_run [] m m"
| spec_call_step: "spec_call c rep m m1 \<Longrightarrow> spec_run es m1 m' \<Longrightarrow> spec_run (ECall c rep # es) m m'"
| spec_silent: "\<forall>c rep. e \<noteq> ECall c rep \<Longrightarrow> spec_run es m m' \<Longrightarrow> spec_run (e # es) m m'"

text \<open>Keys are content-addressed, batches list a key once, and what can be staged can be uploaded.\<close>

fun admissible :: "(ds_key \<Rightarrow> bytes) \<Rightarrow> call \<Rightarrow> bool" where
  "admissible content (CPut k v) = (v = content k)"
| "admissible content (CCommit order) = (distinct (map fst order) \<and> (\<forall>(k, op)\<in>set order. op \<in> {None, Some (content k)}))"
| "admissible content _ = True"

definition store_fits :: "'s net \<Rightarrow> (ds_key \<Rightarrow> bytes) \<Rightarrow> bool" where
  "store_fits N content \<longleftrightarrow> (\<forall>p. distinct (map fst p) \<and> (\<forall>(k, v)\<in>set p. v = content k) \<longrightarrow> pack_ok N p)"

definition named :: "(ds_key \<Rightarrow> bytes) \<Rightarrow> (ds_key \<Rightarrow> bytes option) \<Rightarrow> bool" where
  "named content m \<longleftrightarrow> (\<forall>k. m k \<in> {None, Some (content k)})"

subsection \<open>A node refines the abstract store\<close>

lemma staged_named:
  assumes "stands_for db_inv db_view blobs w m" "named content m"
  shows "fst (db_view (wdb w)) k \<in> {None, Some (content k)}"
proof (cases "fst (db_view (wdb w)) k")
  case (Some v)
  have "key_ok (blobs (wnet w)) (fst (db_view (wdb w)) k) (snd (db_view (wdb w)) k) (m k)"
    using assms(1) by (simp add: stands_for_def implements_def)
  then have "m k = Some v" by (simp add: Some)
  then show ?thesis using Some assms(2) unfolding named_def by (metis insert_iff option.distinct(1) singletonD)
qed simp

lemma staged_fits:
  assumes "stands_for db_inv db_view blobs w m" "named content m" "store_fits N content"
  shows "staged_ok N (db_view (wdb w))"
  unfolding staged_ok_def
proof (intro allI impI)
  fix p assume "claimed (db_view (wdb w)) p"
  then have p: "distinct (map fst p)" "\<forall>(k, v)\<in>set p. fst (db_view (wdb w)) k = Some v" by (simp_all add: claimed_def)
  have "v = content k" if "(k, v) \<in> set p" for k v
    using staged_named [OF assms(1,2), of k] p(2) that by fastforce
  then have "\<forall>(k, v)\<in>set p. v = content k" by blast
  with p(1) show "pack_ok N p" using assms(3) by (simp add: store_fits_def)
qed

lemma content_fits: "store_fits N content \<Longrightarrow> len64 (content k) < 2 ^ 63"
  unfolding store_fits_def pack_ok_def by (erule allE [of _ "[(k, content k)]"]) simp

lemma outcome_spec:
  "outcome S r w m m1 \<Longrightarrow> \<exists>m'. (m' = m1 \<or> m' = m \<and> \<not> is_ok r) \<and> S w m'"
  by (auto simp: outcome_def split: if_splits)

lemma named_batch:
  assumes "named content m" "\<forall>(k, op)\<in>set order. op \<in> {None, Some (content k)}"
  shows "batch_effect (map_of order) m k \<in> {None, Some (content k)}"
proof (cases "map_of order k")
  case None
  then show ?thesis using assms(1) by (simp add: batch_effect_def named_def)
next
  case (Some op)
  then show ?thesis using map_of_SomeD [OF Some] assms(2) by (auto simp: batch_effect_def)
qed

lemma perform_refines:
  assumes hw: "honest_walrus N (client ds) blobs" and ix: "index ds = postgres_ops p" and fit: "store_fits N content"
    and st: "stands_for db_inv db_view blobs w m" and nm: "named content m" and ad: "admissible content c"
    and op: "perform N ds c w = (rep, w')"
  shows "\<exists>m'. spec_call c rep m m' \<and> stands_for db_inv db_view blobs w' m' \<and> named content m'"
proof (cases c)
  case (CPut k v)
  obtain r where r: "ds_Put N ds k v w = (r, w')" "rep = RUnit r" using op CPut by (cases "ds_Put N ds k v w") auto
  have v: "v = content k" using ad CPut by simp
  have out: "outcome (stands_for db_inv db_view blobs) r w' m (m(k \<mapsto> v))"
    using pgidx.Put_refines [OF hw ix st _ _ r(1)] content_fits [OF fit, of k] staged_named [OF st nm, of k] unfolding v by blast
  obtain m' where "m' = m(k \<mapsto> v) \<or> m' = m \<and> \<not> is_ok r" "stands_for db_inv db_view blobs w' m'"
    using outcome_spec [OF out] by blast
  moreover have "named content (m(k \<mapsto> v))" using nm v by (simp add: named_def)
  ultimately show ?thesis using CPut r(2) nm by auto
next
  case (CGet k)
  obtain r where "ds_Get N ds k w = (r, w')" "rep = RBytes r" using op CGet by (cases "ds_Get N ds k w") auto
  then show ?thesis using pgidx.Get_refines [OF hw ix st] CGet nm by auto
next
  case (CHas k)
  obtain r where "ds_Has ds k w = (r, w')" "rep = RBool r" using op CHas by (cases "ds_Has ds k w") auto
  then show ?thesis using pgidx.Has_GetSize_refine [OF ix st _ prod.collapse [symmetric]] CHas nm by auto
next
  case (CGetSize k)
  obtain r where "ds_GetSize ds k w = (r, w')" "rep = RSize r" using op CGetSize by (cases "ds_GetSize ds k w") auto
  then show ?thesis using pgidx.Has_GetSize_refine [OF ix st prod.collapse [symmetric]] CGetSize nm by fastforce
next
  case (CDelete k)
  obtain r where r: "ds_Delete ds k w = (r, w')" "rep = RUnit r" using op CDelete by (cases "ds_Delete ds k w") auto
  obtain m' where "m' = m(k := None) \<or> m' = m \<and> \<not> is_ok r" "stands_for db_inv db_view blobs w' m'"
    using outcome_spec [OF pgidx.Delete_refines [OF ix st r(1)]] by blast
  moreover have "named content (m(k := None))" using nm by (simp add: named_def)
  ultimately show ?thesis using CDelete r(2) nm by auto
next
  case (CCommit order)
  obtain r where r: "batch_Commit N ds order w = (r, w')" "rep = RUnit r" using op CCommit by (cases "batch_Commit N ds order w") auto
  have od: "iteration_order (map_of order) order" and dt: "\<forall>(k, op)\<in>set order. op \<in> {None, Some (content k)}"
    using ad CCommit by (simp_all add: iteration_order_def)
  have "len64 v < 2 ^ 63 \<and> fst (db_view (wdb w)) k \<in> {None, Some v}" if "map_of order k = Some (Some v)" for k v
  proof -
    have "v = content k" using map_of_SomeD [OF that] dt by fastforce
    then show ?thesis using content_fits [OF fit, of k] staged_named [OF st nm, of k] by simp
  qed
  then obtain m' where m': "stands_for db_inv db_view blobs w' m'" "\<forall>k. m' k \<in> {m k, batch_effect (map_of order) m k}"
      "is_ok r \<longrightarrow> m' = batch_effect (map_of order) m"
    using pgidx.Commit_refines [OF hw ix st od _ r(1)] by metis
  have "m' k \<in> {None, Some (content k)}" for k
  proof -
    have "m k \<in> {None, Some (content k)}" using nm by (simp add: named_def)
    then show ?thesis using m'(2) named_batch [OF nm dt, of k] by (metis insertE singletonD)
  qed
  then show ?thesis using m' CCommit r(2) by (intro exI [of _ m']) (simp add: named_def)
qed

lemma stands_for_kick_off [simp]: "stands_for db_inv db_view blobs (w\<lparr>flushKick := b\<rparr>) m = stands_for db_inv db_view blobs w m"
  by (simp add: stands_for_def)

lemma nstep_silent:
  assumes hw: "honest_walrus N (client ds) blobs" and ix: "index ds = postgres_ops p" and fit: "store_fits N content"
    and perm: "\<forall>ps. mset (sched ps) = mset ps" and nm: "named content m" and e: "\<forall>c rep. e \<noteq> ECall c rep"
    and "nstep N ds sched n e n'" "stands_for db_inv db_view blobs (nworld n) m"
  shows "stands_for db_inv db_view blobs (nworld n') m"
  using assms(7,8)
proof cases
  case n_flush
  then show ?thesis
  proof (cases rule: startFlushWorkerE [OF n_flush(3)])
    case (2 fuel e w')
    then show ?thesis using pgidx.flushStaged_refines [OF hw ix perm assms(8) staged_fits [OF assms(8) nm fit]] by simp
  next
    case (3 fuel e w')
    have "stands_for db_inv db_view blobs ((nworld n)\<lparr>flushKick := False\<rparr>) m" using assms(8) by simp
    from pgidx.flushStaged_refines [OF hw ix perm this staged_fits [OF this nm fit] 3(4)] 3(1) show ?thesis by simp
  qed (simp add: assms(8))
next
  case n_renew
  then show ?thesis
    by (cases rule: startRenewalWorkerE [OF n_renew(3)]) (use pgren.renewExpiring_refines [OF hw ix assms(8)] assms(8) in auto)
next
  case n_close
  then show ?thesis by (cases rule: ds_CloseE [OF n_close(3)]) (use assms(8) in auto)
next
  case (n_env b fs t)
  then show ?thesis using assms(8) by (simp add: stands_for_def db_inv_def db_view_def)
next
  case n_restart
  then show ?thesis using assms(8) newBlobCache_ok by (simp add: stands_for_def boot_def)
qed (use e in auto)

lemma nrun_refines:
  assumes "honest_walrus N (client ds) blobs" "index ds = postgres_ops p" "store_fits N content"
    "\<forall>ps. mset (sched ps) = mset ps"
  shows "nrun N ds sched n es n' \<Longrightarrow> \<forall>c rep. ECall c rep \<in> set es \<longrightarrow> admissible content c \<Longrightarrow>
    stands_for db_inv db_view blobs (nworld n) m \<Longrightarrow> named content m \<Longrightarrow>
    \<exists>m'. spec_run es m m' \<and> stands_for db_inv db_view blobs (nworld n') m' \<and> named content m'"
proof (induction arbitrary: m rule: nrun.induct)
  case (nrun_nil n)
  then show ?case using spec_nil by blast
next
  case (nrun_cons n e n' es n'')
  show ?case
  proof (cases "\<exists>c rep. e = ECall c rep")
    case True
    then obtain c rep where e: "e = ECall c rep" by blast
    obtain w' where w': "perform N ds c (nworld n) = (rep, w')" "nworld n' = w'"
      using nrun_cons.hyps(1) e by (auto elim: nstep.cases)
    obtain m1 where "spec_call c rep m m1" "stands_for db_inv db_view blobs (nworld n') m1" "named content m1"
      using perform_refines [OF assms(1-3) nrun_cons.prems(2,3) _ w'(1)] nrun_cons.prems(1) e w'(2) by auto
    moreover from this obtain m' where "spec_run es m1 m'" "stands_for db_inv db_view blobs (nworld n'') m'" "named content m'"
      using nrun_cons.IH [of m1] nrun_cons.prems(1) by auto
    ultimately show ?thesis using e spec_call_step by blast
  next
    case False
    have "stands_for db_inv db_view blobs (nworld n') m"
      using nstep_silent [OF assms nrun_cons.prems(3) _ nrun_cons.hyps(1) nrun_cons.prems(2)] False by blast
    then obtain m' where "spec_run es m m'" "stands_for db_inv db_view blobs (nworld n'') m'" "named content m'"
      using nrun_cons.IH [of m] nrun_cons.prems by auto
    then show ?thesis using False spec_silent by blast
  qed
qed

subsection \<open>The kick of the flusher\<close>

lemma on_kick:
  "on_db f w = (r, w') \<Longrightarrow> flushKick w' = flushKick w"
  "on_net g w = (r', w') \<Longrightarrow> flushKick w' = flushKick w"
  "on_cache h w = (r'', w') \<Longrightarrow> flushKick w' = flushKick w"
  by (auto simp: on_db_def on_net_def on_cache_def split: prod.splits)

lemma kickFlusher_kick [simp]: "flushKick (kickFlusher w)"
  by (simp add: kickFlusher_def)

lemma commit_oversize_kick: "commit_oversize N ds es w = (r, w') \<Longrightarrow> flushKick w' = flushKick w"
proof (induction es arbitrary: w r w')
  case (Cons e es)
  obtain x w1 where 1: "commit_one N ds e w = (x, w1)" by fastforce
  have k1: "flushKick w1 = flushKick w"
    using 1 by (auto simp: commit_one_def split: prod.splits sum.splits dest!: on_kick)
  obtain y w2 where 2: "commit_oversize N ds es w1 = (y, w2)" by fastforce
  show ?case using Cons.prems 1 2 k1 Cons.IH [OF 2] by (cases x; cases y) auto
qed simp

lemma batch_Commit_kick:
  assumes "batch_Commit N ds order w = (r, w')" "flushKick w"
  shows "flushKick w'"
proof -
  obtain r1 w1 where 1: "on_db (ix_StagePutMany (index ds) (batch_stage (PackTargetSize (conf ds)) order)) w = (r1, w1)" by fastforce
  obtain x w2 where 2: "commit_oversize N ds (batch_oversize (PackTargetSize (conf ds)) order) w1 = (x, w2)" by fastforce
  have k2: "flushKick w2" using on_kick(1) [OF 1] commit_oversize_kick [OF 2] assms(2) by simp
  obtain r3 w3 where 3: "(if batch_deletes order \<noteq> [] then on_db (ix_DeleteMany (index ds) (batch_deletes order)) w2 else (Inr (), w2)) = (r3, w3)"
    by fastforce
  have "flushKick w3" using 3 k2 by (auto split: if_splits dest: on_kick(1))
  then show ?thesis using assms(1) 1 2 3 k2 by (cases x) (auto simp: batch_Commit_def Let_def split: if_splits)
qed

lemma perform_kick: "perform N ds c w = (rep, w') \<Longrightarrow> flushKick w \<Longrightarrow> flushKick w'"
proof (induction N ds c w rule: perform.induct)
  case (1 N ds k v w)
  then show ?case by (auto simp: ds_Put_def apfst_def map_prod_def split: if_splits prod.splits sum.splits dest: on_kick)
next
  case (2 N ds k w)
  then show ?case by (auto simp: ds_Get_def apfst_def map_prod_def split: if_splits prod.splits sum.splits dest!: on_kick)
next
  case (3 N ds k w)
  then show ?case by (auto simp: ds_Has_def apfst_def map_prod_def split: if_splits prod.splits sum.splits dest!: on_kick)
next
  case (4 N ds k w)
  then show ?case by (auto simp: ds_GetSize_def apfst_def map_prod_def split: if_splits prod.splits sum.splits dest!: on_kick)
next
  case (5 N ds k w)
  then show ?case by (auto simp: ds_Delete_def apfst_def map_prod_def split: prod.splits dest!: on_kick)
next
  case (6 N ds order w)
  then show ?case by (auto simp: apfst_def map_prod_def split: prod.splits dest: batch_Commit_kick)
qed

lemma renewBlob_kick: "renewBlob N cl ix bid eps del dur sh w = (r, w') \<Longrightarrow> flushKick w' = flushKick w"
  by (auto simp: renewBlob_def Let_def split: prod.splits sum.splits dest!: on_kick)

lemma renew_loop_kick: "renew_loop N ds its w = (r, w') \<Longrightarrow> flushKick w' = flushKick w"
proof (induction its arbitrary: w)
  case (Cons it its)
  obtain e w1 where 1: "on_net (ctx_Err N) w = (e, w1)" by fastforce
  obtain x w2 where 2: "renewOneBlob N ds it w1 = (x, w2)" by fastforce
  have "flushKick w2 = flushKick w" using on_kick(2) [OF 1] 2 renewBlob_kick unfolding renewOneBlob_def by metis
  then show ?case using Cons 1 2 on_kick(2) [OF 1] by (cases e; cases x) (auto split: if_splits)
qed simp

lemma renewExpiring_kick: "renewExpiring N ds lead w = (r, w') \<Longrightarrow> flushKick w' = flushKick w"
  by (auto simp: renewExpiring_def split: prod.splits sum.splits dest!: on_kick renew_loop_kick)

lemma nstep_kick:
  assumes "nstep N ds sched n e n'" "e \<notin> {EFlush, ERestart}" "flushKick (nworld n)"
  shows "flushKick (nworld n')"
  using assms
proof cases
  case (n_renew)
  then show ?thesis using assms(3) by (auto elim!: startRenewalWorkerE dest!: renewExpiring_kick)
qed (auto elim!: ds_CloseE dest: perform_kick)

lemma nrun_kick: "nrun N ds sched n es n' \<Longrightarrow> \<forall>e\<in>set es. e \<notin> {EFlush, ERestart} \<Longrightarrow> flushKick (nworld n) \<Longrightarrow> flushKick (nworld n')"
  by (induction rule: nrun.induct) (auto dest: nstep_kick)

subsection \<open>Shutting down\<close>

text \<open>A node whose index is closed has no worker left.\<close>

lemma nstep_closed:
  "nstep N ds sched n e n' \<Longrightarrow> (\<not> index_open n \<longrightarrow> \<not> flusher n \<and> \<not> renewer n) \<Longrightarrow> (\<not> index_open n' \<longrightarrow> \<not> flusher n' \<and> \<not> renewer n')"
  by (induction rule: nstep.induct)
     (auto simp: boot_def elim!: startFlushWorkerE startRenewalWorkerE ds_CloseE)

lemma nrun_closed:
  "nrun N ds sched n es n' \<Longrightarrow> (\<not> index_open n \<longrightarrow> \<not> flusher n \<and> \<not> renewer n) \<Longrightarrow> (\<not> index_open n' \<longrightarrow> \<not> flusher n' \<and> \<not> renewer n')"
  by (induction rule: nrun.induct) (use nstep_closed in blast)+

lemma closed_idle:
  assumes "\<not> index_open n" "\<not> flusher n" "\<not> renewer n" "nstep N ds sched n e n'"
  shows "e \<in> {EClose, EEnv, ERestart} \<and> same_tables (wdb (nworld n)) (wdb (nworld n'))"
  using assms(4,1-3)
  by cases (auto simp: same_tables_def boot_def elim!: startFlushWorkerE startRenewalWorkerE ds_CloseE)

lemma nrun_append: "nrun N ds sched n es n' \<Longrightarrow> nrun N ds sched n' es' n'' \<Longrightarrow> nrun N ds sched n (es @ es') n''"
  by (induction rule: nrun.induct) (auto intro: nrun.intros)

lemma nrun_one: "nstep N ds sched n e n' \<Longrightarrow> nrun N ds sched n [e] n'"
  by (blast intro: nrun.intros)

lemma close_finishes:
  assumes "alive n"
  shows "\<exists>es n'. nrun N ds sched n es n' \<and> \<not> index_open n' \<and> set es \<subseteq> {EFlush, ERenew, EClose} \<and> length es \<le> 4 \<and> nworld n' = nworld n"
proof -
  let ?c = "n\<lparr>ctx_done := True\<rparr>" and ?f = "n\<lparr>ctx_done := True, flusher := False\<rparr>"
  let ?r = "n\<lparr>ctx_done := True, flusher := False, renewer := False\<rparr>"
  have 1: "nrun N ds sched n [EClose] ?c" using assms n_close [OF assms close_cancel] nrun_one by blast
  have 2: "\<exists>es. nrun N ds sched ?c es ?f \<and> set es \<subseteq> {EFlush} \<and> length es \<le> 1"
  proof (cases "flusher n")
    case True
    then have "nstep N ds sched ?c EFlush ?f" using assms flush_done [of ?c N ds sched] by (intro n_flush) simp_all
    then show ?thesis by (intro exI [of _ "[EFlush]"]) (simp add: nrun_one)
  next
    case False
    then have "?f = ?c" by simp
    then show ?thesis using nrun_nil [of N ds sched ?c] by (intro exI [of _ "[]"]) simp
  qed
  have 3: "\<exists>es. nrun N ds sched ?f es ?r \<and> set es \<subseteq> {ERenew} \<and> length es \<le> 1"
  proof (cases "renewer n")
    case True
    then have "nstep N ds sched ?f ERenew ?r" using assms renew_done [of ?f N ds] by (intro n_renew) simp_all
    then show ?thesis by (intro exI [of _ "[ERenew]"]) (simp add: nrun_one)
  next
    case False
    then have "?r = ?f" by simp
    then show ?thesis using nrun_nil [of N ds sched ?f] by (intro exI [of _ "[]"]) simp
  qed
  have 4: "nrun N ds sched ?r [EClose] (?r\<lparr>index_open := False\<rparr>)"
    by (rule nrun_one, rule n_close) (use assms in \<open>auto intro: close_finish\<close>)
  obtain a b where ab: "nrun N ds sched ?c a ?f" "set a \<subseteq> {EFlush}" "length a \<le> 1" "nrun N ds sched ?f b ?r" "set b \<subseteq> {ERenew}" "length b \<le> 1"
    using 2 3 by blast
  have "nrun N ds sched n ([EClose] @ a @ b @ [EClose]) (?r\<lparr>index_open := False\<rparr>)"
    using nrun_append [OF 1 nrun_append [OF ab(1) nrun_append [OF ab(4) 4]]] by simp
  moreover have "set ([EClose] @ a @ b @ [EClose]) \<subseteq> {EFlush, ERenew, EClose}" "length ([EClose] @ a @ b @ [EClose]) \<le> 4"
    using ab by auto
  ultimately show ?thesis by (intro exI [of _ "[EClose] @ a @ b @ [EClose]"] exI [of _ "?r\<lparr>index_open := False\<rparr>"]) simp
qed

subsection \<open>Properties\<close>



text \<open>
  C17. The kick a \<open>Put\<close> gives the flusher is not lost: after a successful \<open>Put\<close> of a block below the pack size, and
  whatever calls, renewals and failures follow, the flush worker can take the kick and its flush comes to an end.
\<close>

theorem Put_kick_kept:
  assumes "index ds = postgres_ops p" and "\<forall>ps. mset (sched ps) = mset ps" and "len64 v < PackTargetSize (conf ds)"
    and "nstep N ds sched n (ECall (CPut k v) (RUnit (Inr ()))) n1" and "nrun N ds sched n1 es n2"
    and "\<forall>e\<in>set es. e \<notin> {EFlush, ERestart}" and "db_inv (wdb (nworld n2))" and "flusher n2"
  shows "flushKick (nworld n2)
    \<and> (\<exists>fuel e w'. flushStaged N ds sched fuel ((nworld n2)\<lparr>flushKick := False\<rparr>) = Some (e, w')
        \<and> startFlushWorker N ds sched n2 (n2\<lparr>nworld := w', alive := (e \<in> {Quiet, BackOff})\<rparr>))"
proof -
  have "ds_Put N ds k v (nworld n) = (Inr (), nworld n1)"
    using assms(4) by (cases rule: nstep.cases) (auto simp: apfst_def map_prod_def split: prod.splits)
  then have "flushKick (nworld n1)" using assms(3) by (auto simp: ds_Put_def split: prod.splits sum.splits dest: arg_cong [of _ _ flushKick])
  then have k: "flushKick (nworld n2)" by (rule nrun_kick [OF assms(5,6)])
  let ?w = "(nworld n2)\<lparr>flushKick := False\<rparr>"
  have "db_inv (wdb ?w)" using assms(7) by simp
  from pgflush.flushStaged_ends [OF assms(1,2) this lessI]
  obtain e w' where f: "flushStaged N ds sched (Suc (card (dom (fst (db_view (wdb ?w)))))) ?w = Some (e, w')" by blast
  show ?thesis using k f flush_kick [OF assms(8) k f] by blast
qed

subsection \<open>A node at work\<close>

definition node_content :: "ds_key \<Rightarrow> bytes" where
  "node_content k = (if k = ''/x'' then ''hello'' else [])"

definition sample_node :: "string list node" where
  "sample_node = (boot sample_ds (wdb flush_world) [])\<lparr>nworld := flush_world\<rparr>"

lemma node_content_length:
  "distinct (map fst p) \<Longrightarrow> \<forall>(k, v)\<in>set p. v = node_content k \<Longrightarrow>
     length (concat (map snd p)) \<le> (if ''/x'' \<in> fst ` set p then 5 else 0)"
proof (induction p)
  case (Cons kv p)
  then show ?case by (cases kv) (auto simp: node_content_def split: if_splits)
qed simp

lemma node_content_fits: "store_fits sim_net node_content"
  unfolding store_fits_def
proof (intro allI impI, elim conjE)
  fix p assume p: "distinct (map fst p)" "\<forall>(k, v)\<in>set p. v = node_content k"
  have "length (concat (map snd p)) \<le> 5" using node_content_length [OF p] by (rule order_trans) simp
  then have "len64 (concat (map snd p)) < 2 ^ 63" by simp
  moreover have "boundary_free sim_net v" if "v \<in> snd ` set p" for v
    using p(2) that sim_boundary_free by (auto simp: node_content_def)
  ultimately show "pack_ok sim_net p" by (simp add: pack_ok_def)
qed

lemma flush_map_named: "named node_content flush_map"
  by (simp add: named_def node_content_def flush_map_def)



theorem Put_kick_kept_witness:
  "\<exists>n1. nstep sim_net sample_ds id sample_node (ECall (CPut ''/z'' ''abcd'') (RUnit (Inr ()))) n1 \<and> flushKick (nworld n1)
     \<and> (\<exists>n2. startFlushWorker sim_net sample_ds id n1 n2)"
proof -
  obtain d where p: "ds_Put sim_net sample_ds ''/z'' ''abcd'' flush_world = (Inr (), flush_world\<lparr>wdb := d, flushKick := True\<rparr>)" "db_inv d"
    using pgidx.healthy_Put [OF sample_sel(1) flush_world_healthy, of "''abcd''" sim_net "''/z''"] by auto
  let ?n1 = "sample_node\<lparr>nworld := flush_world\<lparr>wdb := d, flushKick := True\<rparr>\<rparr>"
  have 1: "nstep sim_net sample_ds id sample_node (ECall (CPut ''/z'' ''abcd'') (RUnit (Inr ()))) ?n1"
    using p(1) by (intro n_call) (simp_all add: sample_node_def boot_def)
  have "flusher ?n1" by (simp add: sample_node_def boot_def)
  then show ?thesis using Put_kick_kept [OF sample_sel(1) _ _ 1 nrun_nil] p(2) 1 by auto
qed

end
