(* ===== verification/Typing.thy ===== *)
theory Typing
  imports Flusher Renewal
begin

text \<open>
  The rows the program writes fit the columns of its tables, whatever a publisher answers: the blob id is not empty
  and every number is an \<open>int64\<close>, the range of \<open>BIGINT\<close>. The numbers come from three places: the lengths of the blocks, the
  encoded-size formula, and the JSON a publisher returns, where the decoder of \<open>encoding/json\<close> rejects what does not fit.
\<close>

subsection \<open>Decoders keep a typing\<close>

definition keeps :: "('a \<Rightarrow> bool) \<Rightarrow> 'a decoder \<Rightarrow> bool" where
  "keeps P dec \<longleftrightarrow> (\<forall>old j v. P old \<longrightarrow> dec old j = Some v \<longrightarrow> P v)"

lemma keeps_struct:
  assumes "\<forall>(n, d)\<in>set fs. keeps P d"
  shows "keeps P (dec_struct fs)"
proof -
  have field: "keeps P d" if "field_for fs k = Some d" for k d
    using that assms by (auto simp: field_for_def find_Some_iff dest!: nth_mem)
  have "P old \<Longrightarrow> dec_members fs old ms = Some v \<Longrightarrow> P v" for old ms v
  proof (induction ms arbitrary: old)
    case (Cons kv ms)
    obtain k j where kv: "kv = (k, j)" by fastforce
    show ?case
    proof (cases "field_for fs k")
      case None
      then show ?thesis using Cons kv by simp
    next
      case (Some d)
      then obtain new where new: "d old j = Some new" "dec_members fs new ms = Some v"
        using Cons.prems(2) kv by (auto split: option.splits)
      then have "P new" using field [OF Some] Cons.prems(1) unfolding keeps_def by blast
      then show ?thesis using Cons.IH new(2) by blast
    qed
  qed simp
  then show ?thesis by (auto simp: keeps_def dec_struct_def split: json.splits)
qed

lemma keeps_at_field:
  assumes "keeps Q dec" "\<And>x. P x \<Longrightarrow> Q (get x)" "\<And>v x. P x \<Longrightarrow> Q v \<Longrightarrow> P (put v x)"
  shows "keeps P (at_field get put dec)"
proof -
  have "P (put z x)" if "P x" "dec (get x) j = Some z" for x j z
    using assms(1) assms(2) [OF that(1)] that assms(3) [OF that(1), of z] unfolding keeps_def by blast
  then show ?thesis by (auto simp: keeps_def at_field_def)
qed

lemma keeps_any: "keeps (\<lambda>_. True) dec"
  by (simp add: keeps_def)

lemma keeps_ptr:
  assumes "keeps Q dec" "Q zero"
  shows "keeps (\<lambda>x. \<forall>v. x = Some v \<longrightarrow> Q v) (dec_ptr zero dec)"
  using assms by (auto simp: keeps_def dec_ptr_def split: json.splits option.splits)

lemma keeps_int64: "keeps in_i64 dec_int64"
  by (auto simp: keeps_def dec_int64_def Let_def split: json.splits option.splits if_splits)

subsection \<open>The replies of a publisher\<close>

definition created_typed :: "NewlyCreated \<Rightarrow> bool" where
  "created_typed nc \<longleftrightarrow> in_i64 (StorageSize (boStorage (ncBlobObject nc)))
     \<and> (\<forall>el. ncRegisterFromScratch nc = Some el \<longrightarrow> in_i64 el)"

definition reply_typed :: "storeResponse \<Rightarrow> bool" where
  "reply_typed sr \<longleftrightarrow> (\<forall>nc. NewlyCreated sr = Some nc \<longrightarrow> created_typed nc)"

lemma keeps_Storage: "keeps (\<lambda>x. in_i64 (StorageSize x)) dec_Storage"
  unfolding dec_Storage_def
  by (rule keeps_struct) (auto intro: keeps_at_field [OF keeps_int64] keeps_at_field [OF keeps_any])

lemma keeps_BlobObject: "keeps (\<lambda>x. in_i64 (StorageSize (boStorage x))) dec_BlobObject"
  unfolding dec_BlobObject_def
  by (rule keeps_struct) (auto intro: keeps_at_field [OF keeps_Storage] keeps_at_field [OF keeps_any])

lemma keeps_ResourceOperation: "keeps (\<lambda>x. \<forall>el. x = Some el \<longrightarrow> in_i64 el) dec_ResourceOperation"
proof -
  have "keeps in_i64 (dec_struct [(''encodedLength'', dec_int64)])" by (rule keeps_struct) (simp add: keeps_int64)
  then have "keeps (\<lambda>x. \<forall>el. x = Some el \<longrightarrow> in_i64 el) (dec_ptr 0 (dec_struct [(''encodedLength'', dec_int64)]))"
    by (rule keeps_ptr) (simp add: in_i64_def)
  then show ?thesis unfolding dec_ResourceOperation_def by (intro keeps_struct) simp
qed

lemma keeps_NewlyCreated: "keeps created_typed dec_NewlyCreated"
  unfolding dec_NewlyCreated_def
  by (rule keeps_struct)
     (auto simp: created_typed_def intro: keeps_at_field [OF keeps_BlobObject] keeps_at_field [OF keeps_ResourceOperation]
        keeps_at_field [OF keeps_any])

lemma zero_created_typed: "created_typed zero_NewlyCreated"
  by (simp add: created_typed_def zero_NewlyCreated_def zero_Storage_def in_i64_def)

lemma keeps_storeResponse: "keeps reply_typed dec_storeResponse"
  unfolding dec_storeResponse_def
  by (rule keeps_struct)
     (auto simp: reply_typed_def intro: keeps_at_field [OF keeps_ptr [OF keeps_NewlyCreated zero_created_typed]] keeps_at_field [OF keeps_any])

lemma keeps_quiltStoreResponse: "keeps (\<lambda>x. reply_typed (BlobStoreResult x)) dec_quiltStoreResponse"
  unfolding dec_quiltStoreResponse_def
  by (rule keeps_struct) (auto intro: keeps_at_field [OF keeps_storeResponse] keeps_at_field [OF keeps_any])

lemma json_Decode_keeps: "keeps P dec \<Longrightarrow> P zero \<Longrightarrow> json_Decode zero dec res = Inr v \<Longrightarrow> P v"
  by (auto simp: keeps_def json_Decode_def split: option.splits)

lemma reply_typed_zero: "reply_typed zero_storeResponse"
  by (simp add: reply_typed_def zero_storeResponse_def)

lemma result_typed: "reply_typed sr \<Longrightarrow> storeResponse_result sr = Inr r \<Longrightarrow> in_i64 (srEncodedSize r)"
  by (auto simp: storeResponse_result_def certified_result_def reply_typed_def created_typed_def Let_def in_i64_def
      split: option.splits if_splits)

lemma parseStore_typed: "parseStoreResponse res = Inr r \<Longrightarrow> in_i64 (srEncodedSize r)"
  using json_Decode_keeps [OF keeps_storeResponse reply_typed_zero] result_typed
  by (auto simp: parseStoreResponse_def split: if_splits sum.splits)

lemma parseQuilt_typed:
  assumes "parseQuiltStoreResponse res = Inr r"
  shows "in_i64 (qsEncodedSize r)"
proof -
  let ?zero = "\<lparr>BlobStoreResult = zero_storeResponse, StoredQuiltBlobs = []\<rparr>"
  obtain qr blob where "json_Decode ?zero dec_quiltStoreResponse res = Inr qr"
    and blob: "storeResponse_result (BlobStoreResult qr) = Inr blob" "qsEncodedSize r = srEncodedSize blob"
    using assms by (auto simp: parseQuiltStoreResponse_def split: if_splits sum.splits)
  then have "reply_typed (BlobStoreResult qr)"
    using json_Decode_keeps [OF keeps_quiltStoreResponse, of ?zero] reply_typed_zero by simp
  then show ?thesis using result_typed blob by simp
qed

lemma ambient_any: "ambient N (\<lambda>_. True)"
  by (simp add: ambient_def)

lemma Store_typed:
  assumes "Client_Store N c value eps del s = (Inr r, s')"
  shows "srBlobID r \<noteq> [] \<and> in_i64 (srEncodedSize r)"
  using Store_result(2) [OF ambient_any _ _ assms, of r] parseStore_facts parseStore_typed by auto

lemma StoreQuilt_typed:
  assumes "StoreQuilt N c parts eps del s = (Inr r, s')"
  shows "qsQuiltID r \<noteq> [] \<and> in_i64 (qsEncodedSize r)"
  using StoreQuilt_result(2) [OF ambient_any _ assms, of r] parseQuilt_facts parseQuilt_typed by auto

subsection \<open>The rows of an upload\<close>

definition rec_typed :: "IndexRecord \<Rightarrow> bool" where
  "rec_typed r \<longleftrightarrow> rBlobID r \<noteq> [] \<and> in_i64 (rOffset r) \<and> in_i64 (rSize r) \<and> in_i64 (rEncodedSize r)"

definition view_typed :: "view \<Rightarrow> bool" where
  "view_typed vw \<longleftrightarrow> (\<forall>k r. snd vw k = Some r \<longrightarrow> rec_typed r)"

definition recs_typed :: "KeyRecord list \<Rightarrow> bool" where
  "recs_typed recs \<longleftrightarrow> (\<forall>r\<in>snd ` set recs. rec_typed r)"

definition blocks_fit :: "blockEntry list \<Rightarrow> bool" where
  "blocks_fit pack \<longleftrightarrow> (\<forall>v\<in>snd ` set pack. len64 v < 2 ^ 63)"

lemma in_i64_Let: "(\<And>x. in_i64 (f x)) \<Longrightarrow> in_i64 (let x = a in f x)"
  by (simp add: Let_def)

lemma in_i64_if: "in_i64 a \<Longrightarrow> in_i64 b \<Longrightarrow> in_i64 (if c then a else b)"
  by simp

lemma EncodedBlobLength_typed: "in_i64 (EncodedBlobLength u n)"
  unfolding EncodedBlobLength_def
  by (intro in_i64_Let in_i64_if wrap64_in_i64) (simp add: in_i64_def)

lemma encodedSize_typed: "in_i64 reported \<Longrightarrow> in_i64 (encodedSize c reported u)"
  by (simp add: encodedSize_def EncodedBlobLength_typed)

lemma len64_typed: "len64 xs < 2 ^ 63 \<Longrightarrow> in_i64 (len64 xs)"
  by (simp add: in_i64_def)

lemma concat_rows_typed:
  "blocks_fit es \<Longrightarrow> in_i64 off \<Longrightarrow> \<forall>(k, o', sz)\<in>set (concat_rows es off). in_i64 o' \<and> in_i64 sz"
proof (induction es arbitrary: off)
  case (Cons e es)
  have "in_i64 (len64 (snd e))" "blocks_fit es" using Cons.prems(1) len64_typed [of "snd e"] by (simp_all add: blocks_fit_def)
  then show ?case using Cons.prems(2) Cons.IH [OF _ wrap64_in_i64] by simp
qed simp

lemma single_typed:
  assumes "uploadSingleBlock N ds e s = (Inr recs, s')" "len64 (snd e) < 2 ^ 63"
  shows "recs_typed recs"
proof -
  obtain res s1 where st: "Client_Store N (client ds) (snd e) (Epochs (conf ds)) (Deletable (conf ds)) s = (Inr res, s1)"
    using assms(1) by (auto simp: uploadSingleBlock_def split: prod.splits sum.splits)
  then show ?thesis using assms Store_typed [OF st] encodedSize_typed len64_typed [OF assms(2)]
    by (auto simp: uploadSingleBlock_def recs_typed_def rec_typed_def in_i64_def split: prod.splits)
qed

lemma concat_typed:
  assumes "uploadConcatPack N ds pack s = (Inr recs, s')" "blocks_fit pack"
  shows "recs_typed recs"
proof -
  obtain res s1 where st: "Client_Store N (client ds) (concat (map snd pack)) (Epochs (conf ds)) (Deletable (conf ds)) s = (Inr res, s1)"
    using assms(1) by (auto simp: uploadConcatPack_def Let_def split: prod.splits sum.splits)
  have "\<forall>(k, o', sz)\<in>set (concat_rows pack 0). in_i64 o' \<and> in_i64 sz"
    by (rule concat_rows_typed [OF assms(2)]) (simp add: in_i64_def)
  moreover have "in_i64 (encodedSize (conf ds) (srEncodedSize res) (total_unencoded pack))" "srBlobID res \<noteq> []"
    using Store_typed [OF st] encodedSize_typed by blast+
  ultimately show ?thesis using assms(1) st
    by (auto simp: uploadConcatPack_def Let_def recs_typed_def rec_typed_def split: prod.splits)
qed

lemma quilt_recs_typed:
  "quilt_recs c pack res encoded ex qs = Inr recs \<Longrightarrow> qsQuiltID res \<noteq> [] \<Longrightarrow> in_i64 encoded \<Longrightarrow> blocks_fit pack
     \<Longrightarrow> recs_typed recs"
proof (induction qs arbitrary: recs)
  case (Cons q qs)
  obtain e rs where q: "blockByID pack (qpIdentifier q) = Some e" "quilt_recs c pack res encoded ex qs = Inr rs"
    using Cons.prems(1) by (auto split: option.splits sum.splits)
  have "e \<in> set pack" using q(1) blockByID_Some by blast
  then have "in_i64 (len64 (snd e))" using Cons.prems(4) len64_typed by (auto simp: blocks_fit_def)
  then show ?case using Cons.prems q Cons.IH [OF q(2)] by (auto simp: recs_typed_def rec_typed_def in_i64_def)
qed (simp add: recs_typed_def)

lemma quilt_typed:
  assumes "uploadQuiltPack N ds pack s = (Inr recs, s')" "blocks_fit pack"
  shows "recs_typed recs"
proof -
  obtain res s1 ex where st: "StoreQuilt N (client ds) (quilt_parts pack) (Epochs (conf ds)) (Deletable (conf ds)) s = (Inr res, s1)"
    and q: "quilt_recs (conf ds) pack res (encodedSize (conf ds) (qsEncodedSize res) (total_unencoded pack)) ex (qsPatches res) = Inr recs"
    using assms(1) by (auto simp: uploadQuiltPack_def split: prod.splits sum.splits if_splits)
  show ?thesis using quilt_recs_typed [OF q] StoreQuilt_typed [OF st] encodedSize_typed assms(2) by blast
qed

lemma uploadPack_typed:
  assumes "uploadPack N ds pack s = (Inr recs, s')" "blocks_fit pack"
  shows "recs_typed recs"
proof -
  consider "pack = []" | e where "pack = [e]" | a b es where "pack = a # b # es" by (metis neq_Nil_conv)
  then show ?thesis
  proof cases
    case 1
    then show ?thesis using assms by (simp add: uploadPack_def recs_typed_def)
  next
    case (2 e)
    then show ?thesis using assms single_typed [of N ds e s recs s'] by (simp add: uploadPack_def blocks_fit_def)
  next
    case (3 a b es)
    then have "uploadPack N ds pack s = (if DisableQuilt (conf ds) then uploadConcatPack N ds pack s else uploadQuiltPack N ds pack s)"
      by (simp add: uploadPack_def)
    then show ?thesis using assms concat_typed [of N ds pack s recs s'] quilt_typed [of N ds pack s recs s'] by (simp split: if_splits)
  qed
qed

subsection \<open>Writes keep the table typed\<close>

lemma upd_all_typed: "recs_typed recs \<Longrightarrow> \<forall>k r. m k = Some r \<longrightarrow> rec_typed r \<Longrightarrow> upd_all recs m k = Some r \<Longrightarrow> rec_typed r"
  using upd_all_cases [of recs m k] unfolding recs_typed_def by (metis imageI option.inject snd_conv)

lemma view_typed_stage: "view_typed vw \<Longrightarrow> view_typed (stage_view es vw)"
  by (simp add: view_typed_def stage_view_def)

lemma view_typed_put: "view_typed vw \<Longrightarrow> recs_typed recs \<Longrightarrow> view_typed (put_view recs vw)"
  unfolding view_typed_def put_view_def using upd_all_typed [of recs "snd vw"] by simp

lemma view_typed_delete: "view_typed vw \<Longrightarrow> view_typed (delete_view ks vw)"
  by (auto simp: view_typed_def delete_view_def restrict_map_def split: if_splits)

lemma view_typed_promote: "view_typed vw \<Longrightarrow> recs_typed recs \<Longrightarrow> view_typed (promote_view recs vw)"
proof -
  assume vw: "view_typed vw" and recs: "recs_typed recs"
  let ?live = "filter (\<lambda>(k, r). fst vw k \<noteq> None) recs"
  have "recs_typed ?live" using recs by (auto simp: recs_typed_def)
  then show ?thesis using view_typed_put [OF vw, of ?live] by (simp add: view_typed_def put_view_def promote_view_def)
qed

lemma view_typed_renew:
  "view_typed vw \<Longrightarrow> nb \<noteq> [] \<Longrightarrow> in_i64 en \<Longrightarrow> view_typed (renew_view ob nb no en c ep ex vw)"
  by (auto simp: view_typed_def renew_view_def rec_typed_def)

lemma all_or_nothing_typed: "all_or_nothing f r v v' \<Longrightarrow> view_typed v \<Longrightarrow> view_typed (f v) \<Longrightarrow> view_typed v'"
  by (auto simp: all_or_nothing_def split: sum.splits)

context renewable_index
begin

lemma Put_typed:
  assumes ds: "index ds = ix" and i: "invar (wdb w)" and t: "view_typed (view (wdb w))" and sz: "len64 v < 2 ^ 63"
    and op: "ds_Put N ds k v w = (r, w')"
  shows "view_typed (view (wdb w'))"
proof (cases "len64 v \<ge> PackTargetSize (conf ds)")
  case False
  obtain x d where x: "ix_StagePutMany ix [(k, v)] (wdb w) = (x, d)" by fastforce
  have "view_typed (view d)" using StagePutMany_law [OF i x] all_or_nothing_typed view_typed_stage t by blast
  moreover have "wdb w' = d" using op x False ds by (auto simp: ds_Put_def on_db_def kickFlusher_def split: sum.splits)
  ultimately show ?thesis by simp
next
  case True
  obtain x s where x: "uploadPack N ds [(k, v)] (wnet w) = (x, s)" by fastforce
  show ?thesis
  proof (cases x)
    case (Inl e)
    then show ?thesis using op x True t by (auto simp: ds_Put_def on_net_def)
  next
    case (Inr recs)
    have "recs_typed recs" using uploadPack_typed [of N ds "[(k, v)]"] x Inr sz by (simp add: blocks_fit_def)
    moreover obtain y d where y: "ix_PutMany ix recs (wdb w) = (y, d)" by fastforce
    ultimately have "view_typed (view d)" using PutMany_law [OF i y] all_or_nothing_typed view_typed_put t by blast
    then show ?thesis using op x y True Inr ds by (auto simp: ds_Put_def on_net_def on_db_def)
  qed
qed

lemma flushOnePack_typed:
  assumes ds: "index ds = ix" and i: "invar (wdb w)" and t: "view_typed (view (wdb w))" and fit: "blocks_fit es"
    and op: "flushOnePack N ds es w = (r, w')"
  shows "view_typed (view (wdb w'))"
proof -
  obtain x s where x: "uploadPack N ds es (wnet w) = (x, s)" by fastforce
  obtain y d2 where y: "(case x of Inl e \<Rightarrow> (Inl e, wdb w) | Inr recs \<Rightarrow> ix_PromoteStaged ix recs (wdb w)) = (y, d2)" by fastforce
  have d2: "invar d2 \<and> view_typed (view d2)"
  proof (cases x)
    case (Inl e)
    then show ?thesis using y i t by simp
  next
    case (Inr recs)
    have "recs_typed recs" using uploadPack_typed [OF _ fit, of N ds "wnet w" recs s] x Inr by simp
    moreover have "invar d2 \<and> all_or_nothing (promote_view recs) y (view (wdb w)) (view d2)"
      using PromoteStaged_law [OF i] y Inr by simp
    ultimately show ?thesis using all_or_nothing_typed view_typed_promote t by blast
  qed
  obtain z d3 where z: "ix_StageRelease ix (map fst es) d2 = (z, d3)" by fastforce
  have "view d3 = view d2" using StageRelease_law [OF _ z] d2 by blast
  moreover have "wdb w' = d2 \<or> wdb w' = d3"
    using op x y z ds by (cases x; cases y) (auto simp: flushOnePack_def on_net_def on_db_def split: if_splits)
  ultimately show ?thesis using d2 by auto
qed

lemma renewBlob_typed:
  assumes i: "invar (wdb w)" and t: "view_typed (view (wdb w))"
    and op: "renewBlob N cl ix bid eps del dur n w = (r, w')"
  shows "view_typed (view (wdb w'))"
proof -
  obtain x s1 where 1: "Client_Read N cl bid (wnet w) = (x, s1)" by fastforce
  show ?thesis
  proof (cases x)
    case (Inl e)
    then show ?thesis using op 1 t by (auto simp: renewBlob_def on_net_def)
  next
    case dat: (Inr dat)
    obtain y s2 where 2: "Client_Store N cl dat eps del s1 = (y, s2)" by fastforce
    show ?thesis
    proof (cases y)
      case (Inl e)
      then show ?thesis using op 1 2 dat t by (auto simp: renewBlob_def on_net_def)
    next
      case (Inr res)
      let ?en = "if srEncodedSize res \<le> 0 then EncodedBlobLength (len64 dat) n else srEncodedSize res"
      obtain ex s3 where 3: "renewed_expiry N eps dur s2 = (ex, s3)" by fastforce
      obtain z d where 4: "ix_UpdateBlobAfterRenewal ix bid (srBlobID res) (srObjectID res) ?en (srCost res) (srEndEpoch res) ex (wdb w) = (z, d)"
        by fastforce
      have "srBlobID res \<noteq> []" "in_i64 ?en" using Store_typed [of N cl dat eps del s1 res s2] 2 Inr EncodedBlobLength_typed by simp_all
      then have "view_typed (view d)"
        using UpdateBlob_law [OF i 4] all_or_nothing_typed view_typed_renew t by blast
      then show ?thesis using op 1 2 3 4 dat Inr by (auto simp: renewBlob_def on_net_def on_db_def Let_def)
    qed
  qed
qed

end

subsection \<open>Property\<close>

text \<open>
  C15. The index stays well-typed, whatever the publishers answer: if every row has a blob id and \<open>int64\<close> numbers, then so
  has every row after a \<open>Put\<close>, after a flush of a pack and after the renewal of a blob, successful or not. Nothing is
  assumed of Walrus here.
\<close>

theorem rows_typed:
  assumes "index ds = postgres_ops p" and "db_inv (wdb w)" and "view_typed (db_view (wdb w))"
    and "len64 v < 2 ^ 63" and "blocks_fit es"
  shows "view_typed (db_view (wdb (snd (ds_Put N ds k v w))))
    \<and> view_typed (db_view (wdb (snd (flushOnePack N ds es w))))
    \<and> view_typed (db_view (wdb (snd (renewOneBlob N ds it w))))"
proof (intro conjI)
  show "view_typed (db_view (wdb (snd (ds_Put N ds k v w))))"
    by (rule pgren.Put_typed [OF assms(1-4) prod.collapse [symmetric]])
  show "view_typed (db_view (wdb (snd (flushOnePack N ds es w))))"
    by (rule pgren.flushOnePack_typed [OF assms(1-3,5) prod.collapse [symmetric]])
  show "view_typed (db_view (wdb (snd (renewOneBlob N ds it w))))"
    using pgren.renewBlob_typed [OF assms(2,3) prod.collapse [symmetric], of N "client ds" p it]
    unfolding renewOneBlob_def assms(1) by blast
qed

theorem rows_typed_witness:
  "view_typed (db_view (wdb (snd (flushOnePack sim_net sample_ds [(''/x'', ''hello''), (''/y'', [])] flush_world))))"
proof -
  have "view_typed (db_view (wdb flush_world))" by (simp add: view_typed_def db_view_def flush_world_def)
  moreover have "blocks_fit [(''/x'', ''hello''), (''/y'', [])]" by (simp add: blocks_fit_def)
  ultimately show ?thesis using rows_typed [OF sample_sel(1) flush_world_healthy(1), of "[]"] by simp
qed

end
